(* ===== verification/Cat_Prelude.thy ===== *)
theory Cat_Prelude
  imports Main "HOL-Library.Word"
begin

text \<open>
  Shared vocabulary of the development: machine integer types at the widths the C++ code uses,
  the byte view of memory (\<open>std::string\<close> and \<open>std::vector<char>\<close> are HOL strings,
  that is lists of 8-bit characters), loading and storing of 32-bit words on a host of either
  endianness, block copies into a vector, and the generic invariant interface that every
  transition system of the development interprets.
\<close>

unbundle bit_operations_syntax

type_synonym u8 = "8 word"
type_synonym u16 = "16 word"
type_synonym u32 = "32 word"
type_synonym u64 = "64 word"
type_synonym size_t = "64 word"
type_synonym session_id_t = int

named_theorems sz_simps "conversion of guarded 64-bit size arithmetic to natural numbers"
named_theorems inv_intros "operations that keep a component invariant"

section \<open>Sizes\<close>

definition size_of :: "'a list \<Rightarrow> size_t" where
  "size_of xs = word_of_nat (length xs)"

lemma unat_size_of [sz_simps]: "length xs < 2 ^ 64 \<Longrightarrow> unat (size_of xs) = length xs"
  by (simp add: size_of_def unat_of_nat)

lemma unat_sz_sub [sz_simps]: "unat b \<le> unat a \<Longrightarrow> unat (a - b) = unat a - unat (b :: size_t)"
  by (simp add: unat_sub word_le_nat_alt)

lemma unat_sz_add [sz_simps]:
  "unat a + unat b < 2 ^ 64 \<Longrightarrow> unat (a + b) = unat a + unat (b :: size_t)"
  by (simp add: unat_word_ariths)

lemma unat_sz_lt: "unat (a :: size_t) < 2 ^ 64"
  using unsigned_less [of a, where ?'a = nat] by simp

lemma unat_sz_eq_iff: "(a :: size_t) = b \<longleftrightarrow> unat a = unat b"
  by (simp add: word_unat_eq_iff)

lemmas sz_order = word_le_nat_alt word_less_nat_alt

lemma unat_ucast_u32 [simp]: "unat (ucast (i :: u32) :: size_t) = unat i"
  using unsigned_less [of i, where ?'a = nat] by (simp add: unsigned_ucast_eq take_bit_nat_eq_self_iff)

lemma unat_of_nat_size: "n < 2 ^ 64 \<Longrightarrow> unat (word_of_nat n :: size_t) = n"
  by (simp add: unat_of_nat)

lemma unat_of_nat_u32: "n < 2 ^ 32 \<Longrightarrow> unat (word_of_nat n :: u32) = n"
  by (simp add: unat_of_nat)

section \<open>Block copies\<close>

definition overwrite :: "nat \<Rightarrow> 'a list \<Rightarrow> 'a list \<Rightarrow> 'a list" where
  "overwrite pos src dst = take pos dst @ src @ drop (pos + length src) dst"

lemma length_overwrite [simp]:
  "pos + length src \<le> length dst \<Longrightarrow> length (overwrite pos src dst) = length dst"
  by (simp add: overwrite_def)

lemma take_overwrite [simp]:
  "n \<le> pos \<Longrightarrow> pos \<le> length dst \<Longrightarrow> take n (overwrite pos src dst) = take n dst"
  by (simp add: overwrite_def min_absorb1)

lemma take_overwrite_end:
  "pos \<le> length dst \<Longrightarrow> take (pos + length src) (overwrite pos src dst) = take pos dst @ src"
  by (simp add: overwrite_def min_absorb2)

lemma overwrite_append:
  "pos + length a + length b \<le> length dst \<Longrightarrow>
   overwrite (pos + length a) b (overwrite pos a dst) = overwrite pos (a @ b) dst"
  by (simp add: overwrite_def min_absorb2 ac_simps)

lemma overwrite_before:
  "pos + length a + length b \<le> length dst \<Longrightarrow>
   overwrite pos a (overwrite (pos + length a) b dst) = overwrite pos (a @ b) dst"
  by (simp add: overwrite_def min_absorb1 min_absorb2 ac_simps)

lemma drop_overwrite: "pos \<le> length dst \<Longrightarrow> drop pos (overwrite pos a dst) = a @ drop (pos + length a) dst"
  by (simp add: overwrite_def)

lemma take_append_drop_length: "take k xs @ drop (length (take k xs)) xs = xs"
  by (cases "k \<le> length xs") (simp_all add: min_absorb2)

section \<open>32-bit words in memory\<close>

datatype endian = LittleEndian | BigEndian

definition word_byte :: "nat \<Rightarrow> u32 \<Rightarrow> char" where
  "word_byte i w = char_of (unat (drop_bit (8 * i) w AND 0xFF))"

fun store_u32 :: "endian \<Rightarrow> u32 \<Rightarrow> string" where
  "store_u32 LittleEndian w = [word_byte 0 w, word_byte 1 w, word_byte 2 w, word_byte 3 w]"
| "store_u32 BigEndian w = [word_byte 3 w, word_byte 2 w, word_byte 1 w, word_byte 0 w]"

definition bytes_word :: "char \<Rightarrow> char \<Rightarrow> char \<Rightarrow> char \<Rightarrow> u32" where
  "bytes_word b0 b1 b2 b3 =
     of_char b0 OR push_bit 8 (of_char b1) OR push_bit 16 (of_char b2) OR push_bit 24 (of_char b3)"

fun load_u32 :: "endian \<Rightarrow> string \<Rightarrow> u32" where
  "load_u32 LittleEndian (a # b # c # d # _) = bytes_word a b c d"
| "load_u32 BigEndian (a # b # c # d # _) = bytes_word d c b a"
| "load_u32 _ _ = 0"

lemma and_ff: "(w :: 'a :: len word) AND 0xFF = take_bit 8 w"
  by (simp add: take_bit_eq_mask mask_eq_exp_minus_1)

lemma of_char_word_byte [simp]: "(of_char (word_byte i w) :: u32) = take_bit 8 (drop_bit (8 * i) w)"
proof -
  let ?x = "take_bit 8 (drop_bit (8 * i) w)"
  have "unat ?x < 256"
    using take_bit_nat_less_exp [of 8 "unat (drop_bit (8 * i) w)"] by (simp add: unsigned_take_bit_eq)
  then have "(of_char (char_of (unat ?x) :: char) :: nat) = unat ?x"
    by simp
  then have "word_of_nat (of_char (char_of (unat ?x) :: char)) = (word_of_nat (unat ?x) :: u32)"
    by (simp only:)
  then show ?thesis by (simp only: word_byte_def and_ff of_nat_of_char) simp
qed

lemma unat_of_char [simp]: "unat (of_char c :: u32) = of_char c"
proof -
  have "(of_char c :: u32) = word_of_nat (of_char c)" by (simp only: of_nat_of_char)
  moreover have "(of_char c :: nat) < 2 ^ 32" by (rule less_trans [OF nat_of_char_less_256]) simp
  ultimately show ?thesis by (simp only: unat_of_nat) simp
qed

lemma drop_bit_of_char [simp]: "drop_bit 8 (of_char c :: u32) = 0"
proof -
  have "unat (drop_bit 8 (of_char c :: u32)) = drop_bit 8 (unat (of_char c :: u32))"
    by (rule unat_drop_bit_eq)
  also have "\<dots> = of_char c div 256" by (simp only: unat_of_char drop_bit_eq_div) simp
  also have "\<dots> = 0" by (rule div_less) (rule nat_of_char_less_256)
  finally show ?thesis by (simp add: word_unat_eq_iff)
qed

lemma xor_cancel_left: "(a XOR b = a XOR c) = (b = (c :: 'a :: len word))"
  by (metis xor.assoc xor.left_neutral xor_self_eq)

lemma xor_cancel_right: "(b XOR a = c XOR a) = (b = (c :: 'a :: len word))"
  by (metis xor.assoc xor.right_neutral xor_self_eq)

lemma length_store_u32 [simp]: "length (store_u32 e w) = 4"
  by (cases e) simp_all

lemma bytes_word_word_byte:
  "bytes_word (word_byte 0 w) (word_byte 1 w) (word_byte 2 w) (word_byte 3 w) = w"
proof (rule bit_word_eqI)
  fix n assume "n < LENGTH(32)"
  then have n: "n < 8 \<or> (8 \<le> n \<and> n < 16) \<or> (16 \<le> n \<and> n < 24) \<or> (24 \<le> n \<and> n < 32)" by auto
  then show "bit (bytes_word (word_byte 0 w) (word_byte 1 w) (word_byte 2 w) (word_byte 3 w)) n = bit w n"
    by (elim disjE conjE) (auto simp: bytes_word_def bit_simps less_diff_conv2)
qed

lemma load_store_u32 [simp]: "load_u32 e (store_u32 e w @ rest) = w"
  using bytes_word_word_byte [of w] by (cases e) simp_all

section \<open>Transition systems\<close>

text \<open>
  The interface of every state machine of the development: an initial predicate, a step relation
  and an invariant that the first establishes and the second keeps. The client fact is that the
  invariant holds in every reachable state.
\<close>

locale invariant_system =
  fixes init :: "'s \<Rightarrow> bool"
    and step :: "'s \<Rightarrow> 's \<Rightarrow> bool"
    and inv :: "'s \<Rightarrow> bool"
  assumes init_inv: "init s \<Longrightarrow> inv s"
    and step_inv: "step s t \<Longrightarrow> inv s \<Longrightarrow> inv t"
begin

lemma steps_inv: "step\<^sup>*\<^sup>* s t \<Longrightarrow> inv s \<Longrightarrow> inv t"
  by (induction rule: rtranclp_induct) (auto intro: step_inv)

lemma reachable_inv: "init s \<Longrightarrow> step\<^sup>*\<^sup>* s t \<Longrightarrow> inv t"
  by (blast intro: steps_inv init_inv)

end

end
