(* ===== verification/Net_Buffer.thy ===== *)
theory Net_Buffer
  imports Cat_Prelude
begin

text \<open>
  \<open>SessionBuffer\<close> (common/net/net_buffer.h, net_buffer.cpp): the contiguous byte buffer of
  a session. Positions and sizes are 64-bit words, as \<open>size_t\<close> is, so every subtraction and
  addition below wraps exactly where the C++ one does. A pointer into the vector is its offset,
  \<open>GetReadData\<close> is the bytes from the read position on. Asserts and
  \<open>DebugThreadWriteCheck\<close> are compiled out (NDEBUG) and not modelled.
\<close>

section \<open>Data and operations\<close>

record session_buffer =
  nMaxBuffSize :: size_t
  vecData :: string
  nReadPos :: size_t
  nWritePos :: size_t

definition k_init_buffer_size_div_number :: size_t where
  "k_init_buffer_size_div_number = 16"

definition k_default_max_buffer_size :: size_t where
  "k_default_max_buffer_size = 8 * 1024 * 4096"

definition SessionBuffer :: "size_t \<Rightarrow> session_buffer" where
  "SessionBuffer maxBuffSize =
     \<lparr>nMaxBuffSize = maxBuffSize,
      vecData = replicate (unat (maxBuffSize div k_init_buffer_size_div_number)) (CHR 0x00),
      nReadPos = 0, nWritePos = 0\<rparr>"

definition Capacity :: "session_buffer \<Rightarrow> size_t" where
  "Capacity b = size_of (vecData b)"

definition Empty :: "session_buffer \<Rightarrow> bool" where
  "Empty b \<longleftrightarrow> nReadPos b = nWritePos b"

definition Full :: "session_buffer \<Rightarrow> bool" where
  "Full b \<longleftrightarrow> nWritePos b - nReadPos b = size_of (vecData b)"

definition GetReadData :: "session_buffer \<Rightarrow> string" where
  "GetReadData b = drop (unat (nReadPos b)) (vecData b)"

definition GetReadableSize :: "session_buffer \<Rightarrow> size_t" where
  "GetReadableSize b = nWritePos b - nReadPos b"

definition CurrentWritableSize :: "session_buffer \<Rightarrow> size_t" where
  "CurrentWritableSize b = size_of (vecData b) - nWritePos b"

definition MaxWritableSize :: "session_buffer \<Rightarrow> size_t" where
  "MaxWritableSize b = nMaxBuffSize b - GetReadableSize b"

definition RemoveData :: "size_t \<Rightarrow> session_buffer \<Rightarrow> session_buffer" where
  "RemoveData len b =
     (let len' = (if len > GetReadableSize b then GetReadableSize b else len);
          b' = b\<lparr>nReadPos := nReadPos b + len'\<rparr>
      in if nReadPos b' = nWritePos b' then b'\<lparr>nReadPos := 0, nWritePos := 0\<rparr> else b')"

definition PaddingData :: "size_t \<Rightarrow> session_buffer \<Rightarrow> bool \<times> session_buffer" where
  "PaddingData len b =
     (if len > CurrentWritableSize b then (False, b)
      else (True, b\<lparr>nWritePos := nWritePos b + len\<rparr>))"

definition GetWriteData :: "session_buffer \<Rightarrow> size_t" where
  "GetWriteData b = nWritePos b"

definition GetWriteDataLen :: "size_t \<Rightarrow> session_buffer \<Rightarrow> size_t option" where
  "GetWriteDataLen len b = (if len > CurrentWritableSize b then None else Some (GetWriteData b))"

definition MoveWritePos :: "size_t \<Rightarrow> session_buffer \<Rightarrow> bool \<times> session_buffer" where
  "MoveWritePos len b =
     (if nWritePos b + len > size_of (vecData b) then (False, b)
      else (True, b\<lparr>nWritePos := nWritePos b + len\<rparr>))"

text \<open>A store of bytes through a pointer obtained from \<open>GetWriteData\<close>.\<close>

definition poke :: "size_t \<Rightarrow> string \<Rightarrow> session_buffer \<Rightarrow> session_buffer" where
  "poke p bytes b = b\<lparr>vecData := overwrite (unat p) bytes (vecData b)\<rparr>"

definition Write :: "string \<Rightarrow> size_t \<Rightarrow> session_buffer \<Rightarrow> bool \<times> session_buffer" where
  "Write data len b =
     (case PaddingData len b of
        (False, b') \<Rightarrow> (False, b')
      | (True, b') \<Rightarrow>
          let writePos = nWritePos b' - len
          in (True, poke writePos (take (unat len) data) b'))"

definition ReorganizeData :: "session_buffer \<Rightarrow> session_buffer" where
  "ReorganizeData b =
     (if nReadPos b > 0
      then b\<lparr>vecData := overwrite 0 (take (unat (GetReadableSize b)) (GetReadData b)) (vecData b),
             nWritePos := nWritePos b - nReadPos b,
             nReadPos := 0\<rparr>
      else b)"

text \<open>The growth loop of \<open>ShrinkByLength\<close>; \<open>None\<close> is a loop that never ends.\<close>

partial_function (option) grow :: "size_t \<Rightarrow> size_t \<Rightarrow> size_t \<Rightarrow> size_t \<Rightarrow> size_t option" where
  "grow maxSize writePos len curSize =
     (if len > curSize - writePos
      then grow maxSize writePos len (min (push_bit 2 curSize) maxSize)
      else Some curSize)"

definition vec_resize :: "nat \<Rightarrow> string \<Rightarrow> string" where
  "vec_resize n xs = take n xs @ replicate (n - length xs) (CHR 0x00)"

definition ShrinkByLength :: "size_t \<Rightarrow> session_buffer \<Rightarrow> session_buffer option" where
  "ShrinkByLength len b =
     (case grow (nMaxBuffSize b) (nWritePos b) len (size_of (vecData b)) of
        None \<Rightarrow> None
      | Some curSize \<Rightarrow> Some (b\<lparr>vecData := vec_resize (unat curSize) (vecData b)\<rparr>))"

definition Shrink :: "session_buffer \<Rightarrow> bool \<times> session_buffer" where
  "Shrink b =
     (let nDefaultBuffSize = nMaxBuffSize b div k_init_buffer_size_div_number
      in if GetReadableSize b \<ge> nDefaultBuffSize then (False, b)
         else let vecBuff = replicate (unat nDefaultBuffSize) (CHR 0x00)
              in (True, b\<lparr>vecData := overwrite 0 (take (unat (GetReadableSize b)) (GetReadData b)) vecBuff,
                          nWritePos := nWritePos b - nReadPos b,
                          nReadPos := 0\<rparr>))"

section \<open>Representation invariant and abstraction\<close>

text \<open>
  \<open>unread\<close> is the abstract value of a buffer: the unread bytes. The invariant bounds the
  positions by the vector and the vector by the configured maximum, which is small enough for
  the growth step \<open>curSize << 2\<close> not to wrap.
\<close>

definition unread :: "session_buffer \<Rightarrow> string" where
  "unread b = take (unat (GetReadableSize b)) (GetReadData b)"

definition buffer_inv :: "session_buffer \<Rightarrow> bool" where
  "buffer_inv b \<longleftrightarrow>
     unat (nReadPos b) \<le> unat (nWritePos b) \<and>
     unat (nWritePos b) \<le> length (vecData b) \<and>
     length (vecData b) \<le> unat (nMaxBuffSize b) \<and>
     unat (nMaxBuffSize b) < 2 ^ 62"

section \<open>Sizes as natural numbers\<close>

lemma buffer_inv_bounds:
  assumes "buffer_inv b"
  shows "unat (nReadPos b) \<le> unat (nWritePos b)" "unat (nWritePos b) \<le> length (vecData b)"
    "length (vecData b) \<le> unat (nMaxBuffSize b)" "unat (nMaxBuffSize b) < 2 ^ 62"
    "length (vecData b) < 2 ^ 64"
  using assms by (auto simp: buffer_inv_def)

lemma unat_Capacity: "buffer_inv b \<Longrightarrow> unat (Capacity b) = length (vecData b)"
  using buffer_inv_bounds [of b] by (simp add: Capacity_def unat_size_of)

lemma unat_GetReadableSize:
  "buffer_inv b \<Longrightarrow> unat (GetReadableSize b) = unat (nWritePos b) - unat (nReadPos b)"
  by (simp add: GetReadableSize_def unat_sz_sub buffer_inv_bounds)

lemma unat_CurrentWritableSize:
  "buffer_inv b \<Longrightarrow> unat (CurrentWritableSize b) = length (vecData b) - unat (nWritePos b)"
  using buffer_inv_bounds [of b] by (simp add: CurrentWritableSize_def unat_sz_sub unat_size_of)

lemma unread_eq:
  "buffer_inv b \<Longrightarrow> unread b = drop (unat (nReadPos b)) (take (unat (nWritePos b)) (vecData b))"
  by (simp add: unread_def unat_GetReadableSize GetReadData_def drop_take)

lemma length_unread: "buffer_inv b \<Longrightarrow> length (unread b) = unat (GetReadableSize b)"
  using buffer_inv_bounds [of b] by (simp add: unread_eq unat_GetReadableSize)

lemma unat_MaxWritableSize:
  "buffer_inv b \<Longrightarrow> unat (MaxWritableSize b) = unat (nMaxBuffSize b) - length (unread b)"
  using buffer_inv_bounds [of b]
  by (simp add: MaxWritableSize_def unat_sz_sub unat_GetReadableSize length_unread)

lemmas buffer_sizes = unat_Capacity unat_GetReadableSize unat_CurrentWritableSize

section \<open>Every operation keeps the invariant and acts on the unread bytes\<close>

lemma SessionBuffer_inv [inv_intros]: "unat m < 2 ^ 62 \<Longrightarrow> buffer_inv (SessionBuffer m)"
  by (simp add: buffer_inv_def SessionBuffer_def unat_div k_init_buffer_size_div_number_def)

lemma unread_SessionBuffer [simp]: "unread (SessionBuffer m) = []"
  by (simp add: unread_def SessionBuffer_def GetReadableSize_def)

lemma Empty_iff: "buffer_inv b \<Longrightarrow> Empty b \<longleftrightarrow> unread b = []"
  using buffer_inv_bounds [of b] by (auto simp: Empty_def unread_eq unat_sz_eq_iff)

lemma Full_iff: "buffer_inv b \<Longrightarrow> Full b \<longleftrightarrow> length (unread b) = length (vecData b)"
  using buffer_inv_bounds [of b]
  by (simp add: Full_def length_unread unat_sz_eq_iff unat_size_of GetReadableSize_def)

lemma take_length_GetReadData: "take (unat (GetReadableSize b)) (GetReadData b) = unread b"
  by (simp add: unread_def)

lemma RemoveData_inv [inv_intros]: "buffer_inv b \<Longrightarrow> buffer_inv (RemoveData len b)"
  and unread_RemoveData: "buffer_inv b \<Longrightarrow> unread (RemoveData len b) = drop (unat len) (unread b)"
  and vecData_RemoveData: "length (vecData (RemoveData len b)) = length (vecData b)"
  and nMaxBuffSize_RemoveData: "nMaxBuffSize (RemoveData len b) = nMaxBuffSize b"
proof -
  show "length (vecData (RemoveData len b)) = length (vecData b)"
    "nMaxBuffSize (RemoveData len b) = nMaxBuffSize b"
    by (simp_all add: RemoveData_def Let_def)
next
  assume inv: "buffer_inv b"
  note bounds = buffer_inv_bounds [OF inv]
  define l where "l = (if len > GetReadableSize b then GetReadableSize b else len)"
  have l: "unat l = min (unat len) (unat (nWritePos b) - unat (nReadPos b))"
    using unat_GetReadableSize [OF inv] by (auto simp: l_def sz_order min_def)
  have rp: "unat (nReadPos b + l) = unat (nReadPos b) + unat l"
    using bounds l by (intro unat_sz_add) linarith
  have eq: "RemoveData len b =
      (if nReadPos b + l = nWritePos b then b\<lparr>nReadPos := 0, nWritePos := 0\<rparr>
       else b\<lparr>nReadPos := nReadPos b + l\<rparr>)"
    by (simp add: RemoveData_def l_def Let_def)
  show inv': "buffer_inv (RemoveData len b)"
    using bounds rp l unfolding eq buffer_inv_def by (auto simp: min_def split: if_splits)
  show "unread (RemoveData len b) = drop (unat len) (unread b)"
  proof (cases "nReadPos b + l = nWritePos b")
    case True
    then have "unat (nWritePos b) - unat (nReadPos b) \<le> unat len"
      using rp l bounds by (auto simp: min_def split: if_splits)
    then have "drop (unat len) (unread b) = []"
      using bounds by (simp add: unread_eq [OF inv])
    moreover have "unread (RemoveData len b) = []"
      using True by (simp add: eq unread_def GetReadableSize_def)
    ultimately show ?thesis by simp
  next
    case False
    then have "unat l = unat len"
      using rp l bounds by (auto simp: min_def unat_sz_eq_iff split: if_splits)
    moreover have "RemoveData len b = b\<lparr>nReadPos := nReadPos b + l\<rparr>"
      using False by (simp add: eq)
    ultimately show ?thesis
      using rp unfolding unread_eq [OF inv'] unread_eq [OF inv] by (simp add: ac_simps)
  qed
qed


lemma PaddingData_cases:
  assumes "buffer_inv b"
  shows "PaddingData len b =
    (if unat len \<le> length (vecData b) - unat (nWritePos b)
     then (True, b\<lparr>nWritePos := nWritePos b + len\<rparr>) else (False, b))"
  using assms by (simp add: PaddingData_def sz_order unat_CurrentWritableSize not_less)

text \<open>
  Bytes stored at the write pointer and then made readable: the pattern of the socket read
  (\<open>async_read_some\<close> into \<open>GetWriteData\<close>, then \<open>PaddingData\<close>), of \<open>Write\<close> and of
  packet serialisation (\<open>GetWriteData(len)\<close>, stores, \<open>MoveWritePos\<close>).
\<close>

definition commit :: "string \<Rightarrow> session_buffer \<Rightarrow> session_buffer" where
  "commit bytes b = (poke (nWritePos b) bytes b)\<lparr>nWritePos := nWritePos b + size_of bytes\<rparr>"

lemma commit_facts:
  assumes inv: "buffer_inv b" and room: "length bytes \<le> length (vecData b) - unat (nWritePos b)"
  shows commit_inv [inv_intros]: "buffer_inv (commit bytes b)"
    and unread_commit: "unread (commit bytes b) = unread b @ bytes"
    and length_vecData_commit: "length (vecData (commit bytes b)) = length (vecData b)"
proof -
  note bounds = buffer_inv_bounds [OF inv]
  have sz: "unat (size_of bytes) = length bytes"
    using bounds room by (intro unat_size_of) linarith
  have wp: "unat (nWritePos b + size_of bytes) = unat (nWritePos b) + length bytes"
    using bounds room sz by (subst unat_sz_add) (simp_all del: One_nat_def)
  have fits: "unat (nWritePos b) + length bytes \<le> length (vecData b)"
    using room bounds by linarith
  then show len: "length (vecData (commit bytes b)) = length (vecData b)"
    by (simp add: commit_def poke_def)
  show inv': "buffer_inv (commit bytes b)"
    using bounds wp fits len by (simp add: buffer_inv_def commit_def poke_def)
  show "unread (commit bytes b) = unread b @ bytes"
    using bounds fits wp unfolding unread_eq [OF inv'] unread_eq [OF inv]
    by (simp add: commit_def poke_def take_overwrite_end)
qed

lemma Write_eq:
  assumes inv: "buffer_inv b" and len: "unat len \<le> length data"
  shows "Write data len b =
    (if unat len \<le> length (vecData b) - unat (nWritePos b)
     then (True, commit (take (unat len) data) b) else (False, b))"
proof -
  have "size_of (take (unat len) data) = len"
    using len by (simp add: size_of_def)
  then show ?thesis
    by (simp add: Write_def PaddingData_cases [OF inv] Let_def commit_def poke_def)
qed

lemma MoveWritePos_in_range:
  assumes inv: "buffer_inv b" and len: "unat len \<le> length (vecData b) - unat (nWritePos b)"
  shows "MoveWritePos len b = (True, b\<lparr>nWritePos := nWritePos b + len\<rparr>)"
proof -
  note bounds = buffer_inv_bounds [OF inv]
  have "unat (nWritePos b + len) = unat (nWritePos b) + unat len"
    using bounds len by (intro unat_sz_add) linarith
  then show ?thesis
    using bounds len by (simp add: MoveWritePos_def sz_order unat_size_of not_less)
qed

lemma ReorganizeData_inv [inv_intros]: "buffer_inv b \<Longrightarrow> buffer_inv (ReorganizeData b)"
  and unread_ReorganizeData: "buffer_inv b \<Longrightarrow> unread (ReorganizeData b) = unread b"
  and nReadPos_ReorganizeData: "nReadPos (ReorganizeData b) = 0"
  and length_vecData_ReorganizeData:
    "buffer_inv b \<Longrightarrow> length (vecData (ReorganizeData b)) = length (vecData b)"
  and nMaxBuffSize_ReorganizeData: "nMaxBuffSize (ReorganizeData b) = nMaxBuffSize b"
proof -
  show "nReadPos (ReorganizeData b) = 0" "nMaxBuffSize (ReorganizeData b) = nMaxBuffSize b"
    by (auto simp: ReorganizeData_def word_gt_0)
next
  assume inv: "buffer_inv b"
  note bounds = buffer_inv_bounds [OF inv]
  have len: "length (unread b) = unat (nWritePos b) - unat (nReadPos b)"
    by (simp add: length_unread inv unat_GetReadableSize)
  then have ow: "length (overwrite 0 (unread b) (vecData b)) = length (vecData b)"
    using bounds by simp
  then show len': "length (vecData (ReorganizeData b)) = length (vecData b)"
    by (simp add: ReorganizeData_def take_length_GetReadData)
  have wp: "unat (nWritePos b - nReadPos b) = length (unread b)"
    using bounds len by (simp add: unat_sz_sub)
  then show inv': "buffer_inv (ReorganizeData b)"
    using inv bounds len ow by (auto simp: buffer_inv_def ReorganizeData_def take_length_GetReadData)
  show "unread (ReorganizeData b) = unread b"
  proof (cases "nReadPos b > 0")
    case True
    then have "unread (ReorganizeData b) = take (length (unread b)) (overwrite 0 (unread b) (vecData b))"
      using wp unfolding unread_eq [OF inv'] by (simp add: ReorganizeData_def take_length_GetReadData)
    then show ?thesis by (simp add: overwrite_def)
  qed (simp add: ReorganizeData_def)
qed

section \<open>Growth: when the loop of ShrinkByLength ends\<close>

lemma push_bit_2_sz: "unat (cur :: size_t) < 2 ^ 62 \<Longrightarrow> unat (push_bit 2 cur) = 4 * unat cur"
  by (simp add: push_bit_eq_mult unat_word_ariths)

definition grow_pre :: "size_t \<Rightarrow> size_t \<Rightarrow> size_t \<Rightarrow> bool" where
  "grow_pre m wp cur \<longleftrightarrow> unat wp \<le> unat cur \<and> unat cur \<le> unat m \<and> unat m < 2 ^ 62"

lemma grow_step_facts:
  assumes "grow_pre m wp cur"
  shows grow_pre_step: "grow_pre m wp (min (push_bit 2 cur) m)"
    and unat_grow_step: "unat (min (push_bit 2 cur) m) = min (4 * unat cur) (unat m)"
proof -
  have "unat (push_bit 2 cur) = 4 * unat cur"
    using assms by (intro push_bit_2_sz) (simp add: grow_pre_def)
  then show "unat (min (push_bit 2 cur) m) = min (4 * unat cur) (unat m)"
    by (simp add: min_def word_le_nat_alt)
  then show "grow_pre m wp (min (push_bit 2 cur) m)"
    using assms by (auto simp: grow_pre_def)
qed

lemma grow_room: "grow_pre m wp cur \<Longrightarrow> len \<le> cur - wp \<longleftrightarrow> unat wp + unat len \<le> unat cur"
  by (auto simp: grow_pre_def word_le_nat_alt unat_sz_sub)

lemma grow_Some_bounds:
  assumes "grow m wp len cur = Some r" and "grow_pre m wp cur"
  shows "unat wp + unat len \<le> unat r \<and> unat r \<le> unat m"
proof -
  have "grow_pre m wp cur \<longrightarrow> unat wp + unat len \<le> unat r \<and> unat r \<le> unat m"
  proof (rule grow.raw_induct [where P = "\<lambda>m wp len cur r.
          grow_pre m wp cur \<longrightarrow> unat wp + unat len \<le> unat r \<and> unat r \<le> unat m", OF _ assms(1)])
    fix f and m wp len cur r :: size_t
    assume IH: "\<And>m wp len cur r. f m wp len cur = Some r \<Longrightarrow>
          grow_pre m wp cur \<longrightarrow> unat wp + unat len \<le> unat r \<and> unat r \<le> unat m"
      and eq: "(if len > cur - wp then f m wp len (min (push_bit 2 cur) m) else Some cur) = Some r"
    show "grow_pre m wp cur \<longrightarrow> unat wp + unat len \<le> unat r \<and> unat r \<le> unat m"
      using eq IH [of m wp len "min (push_bit 2 cur) m" r] grow_pre_step [of m wp cur]
        grow_room [of m wp cur len]
      by (auto simp: not_less grow_pre_def split: if_splits)
  qed
  with assms(2) show ?thesis by simp
qed

lemma grow_terminates:
  assumes "grow_pre m wp cur" "0 < unat cur" "unat wp + unat len \<le> unat m"
  shows "\<exists>r. grow m wp len cur = Some r \<and> unat cur \<le> unat r"
  using assms
proof (induction "unat m - unat cur" arbitrary: cur rule: less_induct)
  case less
  show ?case
  proof (cases "len > cur - wp")
    case False
    then show ?thesis by (simp add: grow.simps [of m wp len cur])
  next
    case True
    let ?n = "min (push_bit 2 cur) m"
    have "unat cur < unat m"
      using True grow_room [OF less.prems(1), of len] less.prems(3) by (simp add: not_le [symmetric])
    then have up: "unat cur < unat ?n"
      using unat_grow_step [OF less.prems(1)] less.prems(2) by simp
    moreover from this have "unat m - unat ?n < unat m - unat cur" "0 < unat ?n"
      using \<open>unat cur < unat m\<close> by linarith+
    ultimately obtain r where "grow m wp len ?n = Some r" "unat ?n \<le> unat r"
      using less.hyps [OF _ grow_pre_step [OF less.prems(1)] _ less.prems(3)] by blast
    then show ?thesis
      using True up by (auto simp: grow.simps [of m wp len cur])
  qed
qed

lemma grow_pre_buffer: "buffer_inv b \<Longrightarrow> grow_pre (nMaxBuffSize b) (nWritePos b) (size_of (vecData b))"
  using buffer_inv_bounds [of b] by (simp add: grow_pre_def unat_size_of)

lemma vec_resize_grow: "length xs \<le> n \<Longrightarrow> vec_resize n xs = xs @ replicate (n - length xs) (CHR 0x00)"
  by (simp add: vec_resize_def)

lemma ShrinkByLength_fits:
  assumes inv: "buffer_inv b" and ne: "vecData b \<noteq> []"
    and fits: "unat (nWritePos b) + unat len \<le> unat (nMaxBuffSize b)"
  obtains b' where "ShrinkByLength len b = Some b'" "buffer_inv b'" "unread b' = unread b"
    "unat len \<le> unat (CurrentWritableSize b')" "length (vecData b) \<le> length (vecData b')"
proof -
  note bounds = buffer_inv_bounds [OF inv] and pre = grow_pre_buffer [OF inv]
  have sz: "unat (size_of (vecData b)) = length (vecData b)"
    using bounds by (simp add: unat_size_of)
  obtain r where r: "grow (nMaxBuffSize b) (nWritePos b) len (size_of (vecData b)) = Some r"
      "length (vecData b) \<le> unat r"
    using grow_terminates [OF pre _ fits] ne by (auto simp: sz)
  note r = this grow_Some_bounds [OF this(1) pre]
  define b' where "b' = b\<lparr>vecData := vec_resize (unat r) (vecData b)\<rparr>"
  have inv': "buffer_inv b'"
    using bounds r by (simp add: buffer_inv_def b'_def vec_resize_grow)
  have "unread b' = unread b"
    using bounds r unfolding unread_eq [OF inv'] unread_eq [OF inv]
    by (simp add: b'_def vec_resize_grow)
  moreover have "unat len \<le> unat (CurrentWritableSize b')" "length (vecData b) \<le> length (vecData b')"
    using r unfolding unat_CurrentWritableSize [OF inv'] by (auto simp: b'_def vec_resize_grow)
  ultimately show thesis
    using r(1) inv' by (intro that [of b']) (simp_all add: ShrinkByLength_def b'_def)
qed

lemma ShrinkByLength_diverges:
  assumes inv: "buffer_inv b" and over: "unat (nMaxBuffSize b) < unat (nWritePos b) + unat len"
  shows "ShrinkByLength len b = None"
proof (cases "grow (nMaxBuffSize b) (nWritePos b) len (size_of (vecData b))")
  case (Some r)
  then show ?thesis
    using grow_Some_bounds [OF Some grow_pre_buffer [OF inv]] over by simp
qed (simp add: ShrinkByLength_def)

lemma Shrink_True:
  assumes inv: "buffer_inv b" and ok: "Shrink b = (True, b')"
  shows Shrink_inv: "buffer_inv b'" and unread_Shrink: "unread b' = unread b"
    and "length (vecData b') = unat (nMaxBuffSize b) div 16"
proof -
  note bounds = buffer_inv_bounds [OF inv]
  let ?d = "nMaxBuffSize b div k_init_buffer_size_div_number"
  have d: "unat ?d = unat (nMaxBuffSize b) div 16"
    by (simp add: unat_div k_init_buffer_size_div_number_def)
  have fits: "length (unread b) < unat ?d"
    and b': "b' = b\<lparr>vecData := overwrite 0 (unread b) (replicate (unat ?d) (CHR 0x00)),
                   nWritePos := nWritePos b - nReadPos b, nReadPos := 0\<rparr>"
    using ok by (auto simp: Shrink_def Let_def take_length_GetReadData length_unread [OF inv]
        sz_order not_le split: if_splits)
  have wp: "unat (nWritePos b - nReadPos b) = length (unread b)"
    using length_unread [OF inv] by (simp add: GetReadableSize_def)
  show len: "length (vecData b') = unat (nMaxBuffSize b) div 16"
    using fits by (simp add: b' d)
  show inv': "buffer_inv b'"
    using bounds fits wp len d by (simp add: buffer_inv_def b')
  show "unread b' = unread b"
    using wp unfolding unread_eq [OF inv'] by (simp add: b' overwrite_def)
qed

section \<open>The byte queue a buffer provides\<close>

text \<open>
  What the protocol layers rely on: a bounded queue of bytes. \<open>put\<close> appends or refuses and
  changes nothing, \<open>discard\<close> drops from the front. The client lemma is that any sequence of
  accepted operations acts on the abstract byte list.
\<close>

datatype fifo_op = Put string | Discard size_t

fun fifo_spec :: "fifo_op list \<Rightarrow> string \<Rightarrow> string" where
  "fifo_spec [] s = s"
| "fifo_spec (Put bs # ops) s = fifo_spec ops (s @ bs)"
| "fifo_spec (Discard n # ops) s = fifo_spec ops (drop (unat n) s)"

locale byte_fifo =
  fixes inv :: "'b \<Rightarrow> bool"
    and view :: "'b \<Rightarrow> string"
    and put :: "string \<Rightarrow> 'b \<Rightarrow> bool \<times> 'b"
    and discard :: "size_t \<Rightarrow> 'b \<Rightarrow> 'b"
  assumes put_inv: "inv b \<Longrightarrow> put s b = (ok, b') \<Longrightarrow> inv b'"
    and put_view: "inv b \<Longrightarrow> put s b = (True, b') \<Longrightarrow> view b' = view b @ s"
    and put_refused: "inv b \<Longrightarrow> put s b = (False, b') \<Longrightarrow> b' = b"
    and discard_inv: "inv b \<Longrightarrow> inv (discard n b)"
    and discard_view: "inv b \<Longrightarrow> view (discard n b) = drop (unat n) (view b)"
begin

fun run :: "fifo_op list \<Rightarrow> 'b \<Rightarrow> 'b option" where
  "run [] b = Some b"
| "run (Put bs # ops) b = (case put bs b of (True, b') \<Rightarrow> run ops b' | (False, _) \<Rightarrow> None)"
| "run (Discard n # ops) b = run ops (discard n b)"

lemma run_refines: "inv b \<Longrightarrow> run ops b = Some b' \<Longrightarrow> inv b' \<and> view b' = fifo_spec ops (view b)"
proof (induction ops b rule: run.induct)
  case (2 bs ops b)
  then obtain b1 where b1: "put bs b = (True, b1)" "run ops b1 = Some b'"
    by (auto split: prod.splits bool.splits)
  then have "inv b1" "view b1 = view b @ bs"
    using "2.prems"(1) by (auto dest: put_inv put_view)
  with "2.IH" b1 show ?case by auto
qed (auto simp: discard_inv discard_view)

end

definition buffer_put :: "string \<Rightarrow> session_buffer \<Rightarrow> bool \<times> session_buffer" where
  "buffer_put s b = (if length s < 2 ^ 64 then Write s (size_of s) b else (False, b))"

lemma buffer_put_eq:
  assumes "buffer_inv b"
  shows "buffer_put s b =
    (if length s \<le> length (vecData b) - unat (nWritePos b) then (True, commit s b) else (False, b))"
  using buffer_inv_bounds [OF assms]
  by (auto simp: buffer_put_def Write_eq [OF assms] unat_size_of)

interpretation sb: byte_fifo buffer_inv unread buffer_put RemoveData
  by unfold_locales
    (auto simp: buffer_put_eq unread_commit unread_RemoveData split: if_splits intro: inv_intros)

section \<open>All operations together\<close>

text \<open>
  A client of the buffer issues these calls in any order; \<open>buffer_exec\<close> gives the returned flag
  and the next buffer, and \<open>None\<close> for a call that never returns. \<open>queue_exec\<close> is what the same
  calls mean on a plain byte list, given the flag.
\<close>

datatype buffer_call = CallWrite string | CallRemove size_t | CallReorganize | CallGrow size_t | CallShrink

fun buffer_exec :: "buffer_call \<Rightarrow> session_buffer \<Rightarrow> (bool \<times> session_buffer) option" where
  "buffer_exec (CallWrite s) b = Some (buffer_put s b)"
| "buffer_exec (CallRemove n) b = Some (True, RemoveData n b)"
| "buffer_exec CallReorganize b = Some (True, ReorganizeData b)"
| "buffer_exec (CallGrow n) b = map_option (Pair True) (ShrinkByLength n b)"
| "buffer_exec CallShrink b = Some (Shrink b)"

fun queue_exec :: "buffer_call \<Rightarrow> bool \<Rightarrow> string \<Rightarrow> string" where
  "queue_exec (CallWrite s) ok q = (if ok then q @ s else q)"
| "queue_exec (CallRemove n) _ q = drop (unat n) q"
| "queue_exec _ _ q = q"

fun buffer_run :: "buffer_call list \<Rightarrow> session_buffer \<Rightarrow> (bool list \<times> session_buffer) option" where
  "buffer_run [] b = Some ([], b)"
| "buffer_run (c # cs) b =
     (case buffer_exec c b of
        None \<Rightarrow> None
      | Some (ok, b') \<Rightarrow> map_option (\<lambda>(oks, b''). (ok # oks, b'')) (buffer_run cs b'))"

fun queue_run :: "buffer_call list \<Rightarrow> bool list \<Rightarrow> string \<Rightarrow> string" where
  "queue_run (c # cs) (ok # oks) q = queue_run cs oks (queue_exec c ok q)"
| "queue_run _ _ q = q"

lemma Shrink_cases:
  assumes "buffer_inv b" "Shrink b = (ok, b')"
  shows "buffer_inv b'" "unread b' = unread b" "nMaxBuffSize b' = nMaxBuffSize b"
    "vecData b \<noteq> [] \<Longrightarrow> 16 \<le> unat (nMaxBuffSize b) \<Longrightarrow> vecData b' \<noteq> []"
proof -
  have no: "b' = b" if "\<not> ok" using assms that by (auto simp: Shrink_def Let_def split: if_splits)
  have yes: "Shrink b = (True, b')" if ok using assms that by simp
  show "buffer_inv b'" "unread b' = unread b" "nMaxBuffSize b' = nMaxBuffSize b"
    "vecData b \<noteq> [] \<Longrightarrow> 16 \<le> unat (nMaxBuffSize b) \<Longrightarrow> vecData b' \<noteq> []"
    using assms no yes Shrink_True [of b b'] by (cases ok; auto simp: Shrink_def Let_def split: if_splits)+
qed

lemma ShrinkByLength_Some:
  assumes inv: "buffer_inv b" "vecData b \<noteq> []" and r: "ShrinkByLength len b = Some b'"
  shows "buffer_inv b'" "unread b' = unread b" "vecData b' \<noteq> []" "nMaxBuffSize b' = nMaxBuffSize b"
    "unat (nWritePos b) + unat len \<le> unat (nMaxBuffSize b)" "unat len \<le> unat (CurrentWritableSize b')"
proof -
  show fits: "unat (nWritePos b) + unat len \<le> unat (nMaxBuffSize b)"
    using ShrinkByLength_diverges [OF inv(1), of len] r by (metis not_le option.distinct(1))
  show "buffer_inv b'" "unread b' = unread b" "vecData b' \<noteq> []" "unat len \<le> unat (CurrentWritableSize b')"
    by (rule ShrinkByLength_fits [OF inv fits]; use r inv(2) in auto)+
  show "nMaxBuffSize b' = nMaxBuffSize b"
    using r by (auto simp: ShrinkByLength_def split: option.splits)
qed

lemma nMaxBuffSize_commit [simp]: "nMaxBuffSize (commit s b) = nMaxBuffSize b"
  by (simp add: commit_def poke_def)

lemma ReorganizeData_nonempty: "buffer_inv b \<Longrightarrow> vecData b \<noteq> [] \<Longrightarrow> vecData (ReorganizeData b) \<noteq> []"
  using length_vecData_ReorganizeData [of b] by auto

definition buffer_ok :: "session_buffer \<Rightarrow> bool" where
  "buffer_ok b \<longleftrightarrow> buffer_inv b \<and> vecData b \<noteq> [] \<and> 16 \<le> unat (nMaxBuffSize b)"

lemma buffer_exec_refines:
  assumes ok: "buffer_ok b" and ex: "buffer_exec c b = Some (r, b')"
  shows "buffer_ok b' \<and> unread b' = queue_exec c r (unread b)"
proof (cases c)
  case (CallWrite s)
  then show ?thesis
    using ok ex commit_facts [of b s]
    by (auto simp: buffer_ok_def buffer_put_eq dest: arg_cong [where f = length] split: if_splits)
next
  case (CallRemove n)
  then show ?thesis
    using ok ex vecData_RemoveData [of n b]
    by (auto simp: buffer_ok_def unread_RemoveData RemoveData_inv nMaxBuffSize_RemoveData)
next
  case CallReorganize
  then show ?thesis
    using ok ex by (auto simp: buffer_ok_def unread_ReorganizeData ReorganizeData_inv
        ReorganizeData_nonempty nMaxBuffSize_ReorganizeData)
next
  case (CallGrow n)
  then show ?thesis
    using ok ex by (auto simp: buffer_ok_def dest: ShrinkByLength_Some)
next
  case CallShrink
  then show ?thesis
    using ok ex Shrink_cases [of b r b'] by (auto simp: buffer_ok_def)
qed

lemma buffer_exec_returns:
  assumes "buffer_ok b"
  shows "buffer_exec c b = None \<longleftrightarrow>
    (\<exists>n. c = CallGrow n \<and> unat (nMaxBuffSize b) < unat (nWritePos b) + unat n)"
proof (cases c)
  case (CallGrow n)
  then show ?thesis
    using assms ShrinkByLength_diverges [of b n] ShrinkByLength_fits [of b n "ShrinkByLength n b \<noteq> None"]
    by (cases "unat (nWritePos b) + unat n \<le> unat (nMaxBuffSize b)") (auto simp: buffer_ok_def)
qed simp_all

lemma buffer_run_refines_ok:
  "buffer_ok b \<Longrightarrow> buffer_run cs b = Some (oks, b') \<Longrightarrow> buffer_ok b' \<and> unread b' = queue_run cs oks (unread b)"
proof (induction cs arbitrary: b oks)
  case (Cons c cs)
  then show ?case
    by (fastforce split: option.splits dest: buffer_exec_refines)
qed simp

lemma buffer_ok_SessionBuffer: "16 \<le> unat m \<Longrightarrow> unat m < 2 ^ 62 \<Longrightarrow> buffer_ok (SessionBuffer m)"
  by (simp add: buffer_ok_def SessionBuffer_inv) (simp add: SessionBuffer_def unat_div k_init_buffer_size_div_number_def)

lemmas buffer_eval = buffer_put_def Write_def PaddingData_def CurrentWritableSize_def GetReadableSize_def
  GetReadData_def RemoveData_def ReorganizeData_def ShrinkByLength_def Shrink_def SessionBuffer_def
  vec_resize_def size_of_def overwrite_def poke_def k_init_buffer_size_div_number_def Let_def

section \<open>Properties\<close>

text \<open>
  C18: \<open>SessionBuffer\<close> is a byte queue. Starting from a fresh buffer of any usable maximum size,
  after any sequence of writes, removals, reorganisations, growths and shrinks that returns, the
  positions are within the vector and the unread bytes are exactly what the same calls leave on
  a plain byte list: nothing is lost, duplicated or reordered by compaction or reallocation, and
  a refused write leaves the queue as it was.
\<close>

theorem buffer_refines_queue:
  assumes "16 \<le> unat m" "unat m < 2 ^ 62"
    and "buffer_run cs (SessionBuffer m) = Some (oks, b)"
  shows "buffer_inv b \<and> unread b = queue_run cs oks []"
  using buffer_run_refines_ok [OF buffer_ok_SessionBuffer [OF assms(1,2)] assms(3)]
  by (simp add: buffer_ok_def)

theorem buffer_refines_queue_witness:
  "\<exists>b. buffer_run [CallWrite ''ab'', CallRemove 1, CallReorganize, CallGrow 3, CallWrite ''xyz'', CallShrink]
      (SessionBuffer 32) = Some ([True, True, True, True, True, False], b) \<and> buffer_inv b \<and> unread b = ''bxyz''"
proof -
  let ?cs = "[CallWrite ''ab'', CallRemove 1, CallReorganize, CallGrow 3, CallWrite ''xyz'', CallShrink]"
  have "\<exists>b. buffer_run ?cs (SessionBuffer 32) = Some ([True, True, True, True, True, False], b)"
    by (simp add: buffer_eval grow.simps [of _ _ _ 2]  grow.simps [of _ _ _ 8])
  then obtain b where "buffer_run ?cs (SessionBuffer 32) = Some ([True, True, True, True, True, False], b)" by auto
  then show ?thesis using buffer_refines_queue [of 32 ?cs _ b] by auto
qed

text \<open>
  C35: the growth loop of \<open>ShrinkByLength\<close> ends exactly when the requested length fits between
  the write position and the configured maximum; then the bytes fit, and the unread data is
  unchanged. Otherwise the loop runs forever: it keeps assigning the maximum size.
\<close>

theorem ShrinkByLength_ends_iff:
  assumes "buffer_inv b" "vecData b \<noteq> []"
  shows "if unat (nWritePos b) + unat len \<le> unat (nMaxBuffSize b)
    then \<exists>b'. ShrinkByLength len b = Some b' \<and> buffer_inv b' \<and> unread b' = unread b \<and>
           unat len \<le> unat (CurrentWritableSize b')
    else ShrinkByLength len b = None"
proof (cases "unat (nWritePos b) + unat len \<le> unat (nMaxBuffSize b)")
  case True
  obtain b' where "ShrinkByLength len b = Some b'" "buffer_inv b'" "unread b' = unread b"
    "unat len \<le> unat (CurrentWritableSize b')"
    using ShrinkByLength_fits [OF assms True] .
  with True show ?thesis by auto
next
  case False
  with ShrinkByLength_diverges [OF assms(1), of len] show ?thesis by simp
qed


theorem ShrinkByLength_ends_iff_witness:
  "(\<exists>b'. ShrinkByLength 20 (SessionBuffer 32) = Some b' \<and> 20 \<le> unat (CurrentWritableSize b')) \<and>
   ShrinkByLength 33 (SessionBuffer 32) = None"
proof -
  have b: "buffer_inv (SessionBuffer 32)" "vecData (SessionBuffer 32) \<noteq> []"
    "nWritePos (SessionBuffer 32) = 0" "nMaxBuffSize (SessionBuffer 32) = 32"
    by (simp_all add: buffer_inv_def buffer_eval)
  show ?thesis
    using ShrinkByLength_ends_iff [OF b(1,2), of 20] ShrinkByLength_ends_iff [OF b(1,2), of 33]
    by (auto simp: b(3,4))
qed

end
