(* ===== verification/Crc.thy ===== *)
theory Crc
  imports Cat_Prelude
begin

text \<open>
  Checksums (common/utility/crc.h, crc.cpp): the nibble-table CRC16 and the byte-table CRC32 with
  its one-part and two-part forms. The CRC32 loops count with a 32-bit index against a 64-bit
  length, so they are partial functions: for a length of \<open>2 ^ 32\<close> or more the index wraps and
  the loop never ends. The lemmas relate both routines to bit-serial reference definitions,
  and prove what the wire protocol relies on: a checksum of concatenated parts, and detection of
  every error confined to four consecutive bytes.
\<close>

section \<open>Tables and routines\<close>

definition crc16table :: "u16 list" where
  "crc16table =
    [0x0000, 0x1021, 0x2042, 0x3063, 0x4084, 0x50a5, 0x60c6, 0x70e7,
     0x8108, 0x9129, 0xa14a, 0xb16b, 0xc18c, 0xd1ad, 0xe1ce, 0xf1ef]"

definition crc32table_0 :: "u32 list" where
  "crc32table_0 =
    [0x00000000, 0x77073096, 0xee0e612c, 0x990951ba, 0x076dc419, 0x706af48f,
     0xe963a535, 0x9e6495a3, 0x0edb8832, 0x79dcb8a4, 0xe0d5e91e, 0x97d2d988,
     0x09b64c2b, 0x7eb17cbd, 0xe7b82d07, 0x90bf1d91, 0x1db71064, 0x6ab020f2,
     0xf3b97148, 0x84be41de, 0x1adad47d, 0x6ddde4eb, 0xf4d4b551, 0x83d385c7,
     0x136c9856, 0x646ba8c0, 0xfd62f97a, 0x8a65c9ec, 0x14015c4f, 0x63066cd9,
     0xfa0f3d63, 0x8d080df5]"

definition crc32table_1 :: "u32 list" where
  "crc32table_1 =
    [0x3b6e20c8, 0x4c69105e, 0xd56041e4, 0xa2677172, 0x3c03e4d1, 0x4b04d447,
     0xd20d85fd, 0xa50ab56b, 0x35b5a8fa, 0x42b2986c, 0xdbbbc9d6, 0xacbcf940,
     0x32d86ce3, 0x45df5c75, 0xdcd60dcf, 0xabd13d59, 0x26d930ac, 0x51de003a,
     0xc8d75180, 0xbfd06116, 0x21b4f4b5, 0x56b3c423, 0xcfba9599, 0xb8bda50f,
     0x2802b89e, 0x5f058808, 0xc60cd9b2, 0xb10be924, 0x2f6f7c87, 0x58684c11,
     0xc1611dab, 0xb6662d3d]"

definition crc32table_2 :: "u32 list" where
  "crc32table_2 =
    [0x76dc4190, 0x01db7106, 0x98d220bc, 0xefd5102a, 0x71b18589, 0x06b6b51f,
     0x9fbfe4a5, 0xe8b8d433, 0x7807c9a2, 0x0f00f934, 0x9609a88e, 0xe10e9818,
     0x7f6a0dbb, 0x086d3d2d, 0x91646c97, 0xe6635c01, 0x6b6b51f4, 0x1c6c6162,
     0x856530d8, 0xf262004e, 0x6c0695ed, 0x1b01a57b, 0x8208f4c1, 0xf50fc457,
     0x65b0d9c6, 0x12b7e950, 0x8bbeb8ea, 0xfcb9887c, 0x62dd1ddf, 0x15da2d49,
     0x8cd37cf3, 0xfbd44c65]"

definition crc32table_3 :: "u32 list" where
  "crc32table_3 =
    [0x4db26158, 0x3ab551ce, 0xa3bc0074, 0xd4bb30e2, 0x4adfa541, 0x3dd895d7,
     0xa4d1c46d, 0xd3d6f4fb, 0x4369e96a, 0x346ed9fc, 0xad678846, 0xda60b8d0,
     0x44042d73, 0x33031de5, 0xaa0a4c5f, 0xdd0d7cc9, 0x5005713c, 0x270241aa,
     0xbe0b1010, 0xc90c2086, 0x5768b525, 0x206f85b3, 0xb966d409, 0xce61e49f,
     0x5edef90e, 0x29d9c998, 0xb0d09822, 0xc7d7a8b4, 0x59b33d17, 0x2eb40d81,
     0xb7bd5c3b, 0xc0ba6cad]"

definition crc32table_4 :: "u32 list" where
  "crc32table_4 =
    [0xedb88320, 0x9abfb3b6, 0x03b6e20c, 0x74b1d29a, 0xead54739, 0x9dd277af,
     0x04db2615, 0x73dc1683, 0xe3630b12, 0x94643b84, 0x0d6d6a3e, 0x7a6a5aa8,
     0xe40ecf0b, 0x9309ff9d, 0x0a00ae27, 0x7d079eb1, 0xf00f9344, 0x8708a3d2,
     0x1e01f268, 0x6906c2fe, 0xf762575d, 0x806567cb, 0x196c3671, 0x6e6b06e7,
     0xfed41b76, 0x89d32be0, 0x10da7a5a, 0x67dd4acc, 0xf9b9df6f, 0x8ebeeff9,
     0x17b7be43, 0x60b08ed5]"

definition crc32table_5 :: "u32 list" where
  "crc32table_5 =
    [0xd6d6a3e8, 0xa1d1937e, 0x38d8c2c4, 0x4fdff252, 0xd1bb67f1, 0xa6bc5767,
     0x3fb506dd, 0x48b2364b, 0xd80d2bda, 0xaf0a1b4c, 0x36034af6, 0x41047a60,
     0xdf60efc3, 0xa867df55, 0x316e8eef, 0x4669be79, 0xcb61b38c, 0xbc66831a,
     0x256fd2a0, 0x5268e236, 0xcc0c7795, 0xbb0b4703, 0x220216b9, 0x5505262f,
     0xc5ba3bbe, 0xb2bd0b28, 0x2bb45a92, 0x5cb36a04, 0xc2d7ffa7, 0xb5d0cf31,
     0x2cd99e8b, 0x5bdeae1d]"

definition crc32table_6 :: "u32 list" where
  "crc32table_6 =
    [0x9b64c2b0, 0xec63f226, 0x756aa39c, 0x026d930a, 0x9c0906a9, 0xeb0e363f,
     0x72076785, 0x05005713, 0x95bf4a82, 0xe2b87a14, 0x7bb12bae, 0x0cb61b38,
     0x92d28e9b, 0xe5d5be0d, 0x7cdcefb7, 0x0bdbdf21, 0x86d3d2d4, 0xf1d4e242,
     0x68ddb3f8, 0x1fda836e, 0x81be16cd, 0xf6b9265b, 0x6fb077e1, 0x18b74777,
     0x88085ae6, 0xff0f6a70, 0x66063bca, 0x11010b5c, 0x8f659eff, 0xf862ae69,
     0x616bffd3, 0x166ccf45]"

definition crc32table_7 :: "u32 list" where
  "crc32table_7 =
    [0xa00ae278, 0xd70dd2ee, 0x4e048354, 0x3903b3c2, 0xa7672661, 0xd06016f7,
     0x4969474d, 0x3e6e77db, 0xaed16a4a, 0xd9d65adc, 0x40df0b66, 0x37d83bf0,
     0xa9bcae53, 0xdebb9ec5, 0x47b2cf7f, 0x30b5ffe9, 0xbdbdf21c, 0xcabac28a,
     0x53b39330, 0x24b4a3a6, 0xbad03605, 0xcdd70693, 0x54de5729, 0x23d967bf,
     0xb3667a2e, 0xc4614ab8, 0x5d681b02, 0x2a6f2b94, 0xb40bbe37, 0xc30c8ea1,
     0x5a05df1b, 0x2d02ef8d]"

definition crc32table :: "u32 list" where
  "crc32table = crc32table_0 @ crc32table_1 @ crc32table_2 @ crc32table_3 @
     crc32table_4 @ crc32table_5 @ crc32table_6 @ crc32table_7"

definition CRC16_byte :: "u16 \<Rightarrow> char \<Rightarrow> u16" where
  "CRC16_byte crc16 c =
     (let crc_h4 = drop_bit 12 crc16; crc_l12 = push_bit 4 crc16;
          crc16 = crc_l12 XOR crc16table ! unat (crc_h4 XOR drop_bit 4 (of_char c));
          crc_h4 = drop_bit 12 crc16; crc_l12 = push_bit 4 crc16
      in crc_l12 XOR crc16table ! unat (crc_h4 XOR (of_char c AND 0x0f)))"

definition CRC16 :: "string \<Rightarrow> size_t \<Rightarrow> u16" where
  "CRC16 data len = foldl CRC16_byte 0x0000 (take (unat len) data)"

definition crc32_step :: "u32 \<Rightarrow> char \<Rightarrow> u32" where
  "crc32_step crc c = crc32table ! unat ((crc XOR of_char c) AND 0xff) XOR drop_bit 8 crc"

partial_function (option) crc32_loop :: "string \<Rightarrow> size_t \<Rightarrow> u32 \<Rightarrow> u32 \<Rightarrow> u32 option" where
  "crc32_loop buf len i crc =
     (if ucast i < len then crc32_loop buf len (i + 1) (crc32_step crc (buf ! unat i)) else Some crc)"

definition CRC32 :: "string \<Rightarrow> size_t \<Rightarrow> u32 option" where
  "CRC32 data len = map_option (\<lambda>crc. crc XOR 0xFFFFFFFF) (crc32_loop data len 0 0xFFFFFFFF)"

definition CRC32_string :: "string \<Rightarrow> u32 option" where
  "CRC32_string data = CRC32 data (size_of data)"

definition CRC32_two :: "string \<Rightarrow> size_t \<Rightarrow> string \<Rightarrow> size_t \<Rightarrow> u32 option" where
  "CRC32_two dataHead lenHead data len =
     (case crc32_loop dataHead lenHead 0 0xFFFFFFFF of
        None \<Rightarrow> None
      | Some crc \<Rightarrow> map_option (\<lambda>crc. crc XOR 0xFFFFFFFF) (crc32_loop data len 0 crc))"

definition CRC32_two_string :: "string \<Rightarrow> string \<Rightarrow> u32 option" where
  "CRC32_two_string dataHead data = CRC32_two dataHead (size_of dataHead) data (size_of data)"

section \<open>Bit-serial reference\<close>

definition crc32_bit :: "u32 \<Rightarrow> u32" where
  "crc32_bit crc = (if bit crc 0 then drop_bit 1 crc XOR 0xEDB88320 else drop_bit 1 crc)"

definition crc32_ref_step :: "u32 \<Rightarrow> char \<Rightarrow> u32" where
  "crc32_ref_step crc c = (crc32_bit ^^ 8) (crc XOR of_char c)"

definition crc32_ref :: "string \<Rightarrow> u32" where
  "crc32_ref s = foldl crc32_ref_step 0xFFFFFFFF s XOR 0xFFFFFFFF"

definition crc32_of :: "string \<Rightarrow> u32" where
  "crc32_of s = foldl crc32_step 0xFFFFFFFF s XOR 0xFFFFFFFF"

definition crc16_bit :: "u16 \<Rightarrow> u16" where
  "crc16_bit crc = (if bit crc 15 then push_bit 1 crc XOR 0x1021 else push_bit 1 crc)"

definition crc16_ref_step :: "u16 \<Rightarrow> char \<Rightarrow> u16" where
  "crc16_ref_step crc c = (crc16_bit ^^ 8) (crc XOR push_bit 8 (of_char c))"

section \<open>The tables are spanned by the reference on single bits\<close>

definition xor_double :: "'a :: len word \<Rightarrow> 'a word list \<Rightarrow> 'a word list" where
  "xor_double b s = s @ map (\<lambda>w. w XOR b) s"

fun xor_span :: "'a :: len word list \<Rightarrow> 'a word list" where
  "xor_span [] = [0]"
| "xor_span (b # bs) = xor_double b (xor_span bs)"

lemma length_xor_span [simp]: "length (xor_span bs) = 2 ^ length bs"
  by (induction bs) (simp_all add: xor_double_def)

lemma word_of_nat_xor_exp:
  assumes "m < 2 ^ k" "k < LENGTH('a)"
  shows "(word_of_nat m XOR 2 ^ k :: 'a :: len word) = word_of_nat (m + 2 ^ k)"
proof -
  have "word_of_nat m AND 2 ^ k = (0 :: 'a word)"
  proof (rule bit_word_eqI)
    fix n assume "n < LENGTH('a)"
    have "m = take_bit k m" using assms(1) by (simp add: take_bit_nat_eq_self)
    then have "\<not> bit m k" by (metis bit_take_bit_iff less_irrefl)
    then show "bit (word_of_nat m AND 2 ^ k :: 'a word) n = bit 0 n"
      by (auto simp: bit_simps)
  qed
  then show ?thesis
    by (simp add: disjunctive_xor_eq_or disjunctive_add_eq_or [symmetric])
qed

lemma xor_span_linear:
  fixes f :: "'a :: len word \<Rightarrow> 'b :: len word"
  assumes lin: "\<And>a b. f (a XOR b) = f a XOR f b"
  shows "k \<le> LENGTH('a) \<Longrightarrow> n < 2 ^ k \<Longrightarrow> xor_span (map (\<lambda>i. f (2 ^ i)) (rev [0..<k])) ! n = f (word_of_nat n)"
proof (induction k arbitrary: n)
  case 0
  have "f 0 = 0" using lin [of 0 0] by simp
  with 0 show ?case by simp
next
  case (Suc k)
  show ?case
  proof (cases "n < 2 ^ k")
    case True
    with Suc show ?thesis by (simp add: xor_double_def nth_append)
  next
    case False
    define m where "m = n - 2 ^ k"
    have m: "m < 2 ^ k" "n = m + 2 ^ k" using False Suc.prems by (simp_all add: m_def)
    with Suc show ?thesis
      by (simp add: xor_double_def nth_append lin [symmetric] word_of_nat_xor_exp)
  qed
qed

lemma funpow_linear:
  fixes f :: "'a :: len word \<Rightarrow> 'a word"
  assumes "\<And>a b. f (a XOR b) = f a XOR f b"
  shows "(f ^^ k) (a XOR b) = (f ^^ k) a XOR (f ^^ k) b"
  by (induction k) (simp_all add: assms)

lemma crc32_bit_xor: "crc32_bit (a XOR b) = crc32_bit a XOR crc32_bit b"
  by (simp add: crc32_bit_def bit_xor_iff drop_bit_xor ac_simps)

lemma crc16_bit_xor: "crc16_bit (a XOR b) = crc16_bit a XOR crc16_bit b"
  by (simp add: crc16_bit_def bit_xor_iff push_bit_xor ac_simps)

lemmas crc32_bits_xor = funpow_linear [of crc32_bit, OF crc32_bit_xor]
lemmas crc16_bits_xor = funpow_linear [of crc16_bit, OF crc16_bit_xor]

lemma crc32_bit_numeral:
  "crc32_bit 0 = 0" "crc32_bit 1 = 0xEDB88320"
  "crc32_bit (numeral (num.Bit0 n)) = drop_bit (Suc 0) (numeral (num.Bit0 n))"
  "crc32_bit (numeral (num.Bit1 n)) = drop_bit (Suc 0) (numeral (num.Bit1 n)) XOR 0xEDB88320"
  by (simp_all add: crc32_bit_def)

lemma crc32_bits8: "(crc32_bit ^^ 8) x =
    crc32_bit (crc32_bit (crc32_bit (crc32_bit (crc32_bit (crc32_bit (crc32_bit (crc32_bit x)))))))"
  by (simp add: numeral_eq_Suc)

lemma crc32_basis:
  "map (\<lambda>i. (crc32_bit ^^ 8) (2 ^ i)) (rev [0..<8]) =
   [0xEDB88320, 0x76DC4190, 0x3B6E20C8, 0x1DB71064, 0x0EDB8832, 0x076DC419, 0xEE0E612C, 0x77073096]"
proof -
  have "map (\<lambda>i. 2 ^ i :: u32) (rev [0..<8]) = [128, 64, 32, 16, 8, 4, 2, 1]"
    by (simp add: upt_rec)
  then have "map (crc32_bit ^^ 8) (map (\<lambda>i. 2 ^ i) (rev [0..<8])) =
      map (crc32_bit ^^ 8) [128, 64, 32, 16, 8, 4, 2, 1]"
    by (simp only:)
  then show ?thesis
    by (simp only: list.map map_map o_def crc32_bits8) (simp add: crc32_bit_numeral)
qed

lemmas crc32table_blocks = crc32table_0_def crc32table_1_def crc32table_2_def crc32table_3_def
  crc32table_4_def crc32table_5_def crc32table_6_def crc32table_7_def

lemma crc32table_block0:
  "xor_span [0x1DB71064, 0x0EDB8832, 0x076DC419, 0xEE0E612C, 0x77073096 :: u32] = crc32table_0"
  by (simp add: xor_double_def crc32table_0_def)

lemma crc32table_block1: "map (\<lambda>w. w XOR 0x3B6E20C8) crc32table_0 = crc32table_1"
  unfolding crc32table_blocks by simp

lemma crc32table_block2:
  "map (\<lambda>w. w XOR 0x76DC4190) crc32table_0 = crc32table_2"
  "map (\<lambda>w. w XOR 0x76DC4190) crc32table_1 = crc32table_3"
  unfolding crc32table_blocks by simp_all

lemma crc32table_block4:
  "map (\<lambda>w. w XOR 0xEDB88320) crc32table_0 = crc32table_4"
  "map (\<lambda>w. w XOR 0xEDB88320) crc32table_1 = crc32table_5"
  "map (\<lambda>w. w XOR 0xEDB88320) crc32table_2 = crc32table_6"
  "map (\<lambda>w. w XOR 0xEDB88320) crc32table_3 = crc32table_7"
  unfolding crc32table_blocks by simp_all

lemma crc32table_span: "crc32table = xor_span (map (\<lambda>i. (crc32_bit ^^ 8) (2 ^ i)) (rev [0..<8]))"
  unfolding crc32_basis xor_span.simps(2) [of "0xEDB88320"] xor_span.simps(2) [of "0x76DC4190"]
    xor_span.simps(2) [of "0x3B6E20C8"] crc32table_block0
  by (simp only: xor_double_def crc32table_block1 crc32table_block2 crc32table_block4 map_append
      append_assoc crc32table_def)

lemma crc32table_nth: "n < 256 \<Longrightarrow> crc32table ! n = (crc32_bit ^^ 8) (word_of_nat n)"
  unfolding crc32table_span by (rule xor_span_linear) (simp_all add: crc32_bits_xor)

section \<open>The routines agree with the reference\<close>

lemma crc32_bits_drop: "take_bit k x = 0 \<Longrightarrow> (crc32_bit ^^ k) x = drop_bit k x"
proof (induction k arbitrary: x)
  case (Suc k)
  have low: "crc32_bit x = drop_bit 1 x"
    using Suc.prems by (metis crc32_bit_def bit_0_eq bit_take_bit_iff bot_apply bot_bool_def zero_less_Suc)
  have "take_bit k (drop_bit 1 x) = 0"
    using Suc.prems by (simp add: take_bit_drop_bit)
  then have "(crc32_bit ^^ k) (drop_bit 1 x) = drop_bit k (drop_bit 1 x)"
    by (rule Suc.IH)
  then show ?case
    using low by (simp add: funpow_Suc_right drop_bit_drop_bit del: funpow.simps)
qed simp

lemma word_split8: "(y :: u32) = take_bit 8 y XOR push_bit 8 (drop_bit 8 y)"
  by (rule bit_word_eqI) (auto simp: bit_simps)

lemma crc32_step_ref: "crc32_step crc c = crc32_ref_step crc c"
proof -
  let ?y = "crc XOR of_char c"
  have idx: "unat (take_bit 8 ?y) < 256"
    using take_bit_nat_less_exp [of 8 "unat ?y"] by (simp only: unsigned_take_bit_eq) simp
  have "(crc32_bit ^^ 8) ?y = (crc32_bit ^^ 8) (take_bit 8 ?y) XOR (crc32_bit ^^ 8) (push_bit 8 (drop_bit 8 ?y))"
    by (subst word_split8) (rule crc32_bits_xor)
  also have "(crc32_bit ^^ 8) (push_bit 8 (drop_bit 8 ?y)) = drop_bit 8 ?y"
  proof -
    have "drop_bit 8 (push_bit 8 (drop_bit 8 w)) = drop_bit 8 w" for w :: u32
      by (rule bit_word_eqI) (auto simp: bit_simps dest: bit_imp_le_length [of w])
    then show ?thesis by (subst crc32_bits_drop) (simp_all add: take_bit_push_bit)
  qed
  also have "drop_bit 8 ?y = drop_bit 8 crc"
    by (simp add: drop_bit_xor)
  finally show ?thesis
    using idx by (simp add: crc32_step_def crc32_ref_step_def and_ff crc32table_nth)
qed

lemma crc32_loop_eq:
  "unat len < 2 ^ 32 \<Longrightarrow> unat len \<le> length buf \<Longrightarrow> unat i \<le> unat len \<Longrightarrow>
   crc32_loop buf len i crc = Some (foldl crc32_step crc (take (unat len - unat i) (drop (unat i) buf)))"
proof (induction "unat len - unat i" arbitrary: i crc)
  case 0
  then show ?case by (subst crc32_loop.simps) (simp add: word_less_nat_alt)
next
  case (Suc n)
  then have lt: "unat i < unat len" by simp
  have i1: "unat (i + 1) = unat i + 1"
    using lt Suc.prems(1) by (simp add: unat_word_ariths)
  have "crc32_loop buf len i crc = crc32_loop buf len (i + 1) (crc32_step crc (buf ! unat i))"
    using lt by (subst crc32_loop.simps) (simp add: word_less_nat_alt)
  also have "\<dots> = Some (foldl crc32_step (crc32_step crc (buf ! unat i)) (take (unat len - unat (i + 1)) (drop (unat (i + 1)) buf)))"
    using Suc.hyps Suc.prems lt i1 by (intro Suc.hyps(1)) simp_all
  also have "take (unat len - unat i) (drop (unat i) buf) = buf ! unat i # take (unat len - unat (i + 1)) (drop (unat (i + 1)) buf)"
    using lt Suc.prems by (simp add: i1 Cons_nth_drop_Suc [symmetric] Suc_diff_Suc [symmetric])
  ultimately show ?case by simp
qed

lemma crc32_loop_diverges:
  assumes "2 ^ 32 \<le> unat len"
  shows "crc32_loop buf len i crc = None"
proof -
  have lt: "ucast i < len" for i :: u32
    using assms unsigned_less [of i, where ?'a = nat]
    by (simp add: word_less_nat_alt)
  have "len' \<noteq> len" if "crc32_loop buf' len' i crc = Some y" for buf' len' i crc y
    by (rule crc32_loop.raw_induct [where P = "\<lambda>_ len' _ _ _. len' \<noteq> len", OF _ that])
      (auto simp: lt split: if_splits)
  then show ?thesis by (metis not_None_eq)
qed

lemma CRC32_eq:
  assumes "unat len < 2 ^ 32" "unat len \<le> length data"
  shows "CRC32 data len = Some (crc32_of (take (unat len) data))"
  using assms by (simp add: CRC32_def crc32_loop_eq crc32_of_def)

lemma CRC32_string_eq: "length data < 2 ^ 32 \<Longrightarrow> CRC32_string data = Some (crc32_of data)"
  by (simp add: CRC32_string_def CRC32_eq unat_size_of)

lemma CRC32_two_eq:
  assumes "unat lenHead < 2 ^ 32" "unat lenHead \<le> length dataHead"
    and "unat len < 2 ^ 32" "unat len \<le> length data"
  shows "CRC32_two dataHead lenHead data len =
    Some (crc32_of (take (unat lenHead) dataHead @ take (unat len) data))"
  using assms by (simp add: CRC32_two_def crc32_loop_eq crc32_of_def)

lemma CRC32_two_string_eq:
  assumes "length dataHead < 2 ^ 32" "length data < 2 ^ 32"
  shows "CRC32_two_string dataHead data = Some (crc32_of (dataHead @ data))"
  using assms by (simp add: CRC32_two_string_def CRC32_two_eq unat_size_of)

lemma crc32_of_ref: "crc32_of s = crc32_ref s"
proof -
  have "foldl crc32_step a s = foldl crc32_ref_step a s" for a
    by (induction s arbitrary: a) (simp_all add: crc32_step_ref)
  then show ?thesis by (simp add: crc32_of_def crc32_ref_def)
qed

section \<open>Error detection\<close>

text \<open>One bit of the reference shifts right and keeps the carried-out bit in the top bit.\<close>

lemma crc32_bit_top: "bit (crc32_bit x) 31 = bit x 0"
  by (auto simp: crc32_bit_def bit_simps dest: bit_imp_le_length)

lemma crc32_bit_inj: "crc32_bit x = crc32_bit y \<longleftrightarrow> x = y"
proof
  assume eq: "crc32_bit x = crc32_bit y"
  then have b0: "bit x 0 = bit y 0" by (metis crc32_bit_top)
  with eq have d: "drop_bit 1 x = drop_bit 1 y"
    by (simp add: crc32_bit_def xor_cancel_right split: if_splits)
  show "x = y"
  proof (rule bit_word_eqI)
    fix n
    show "bit x n = bit y n"
    proof (cases n)
      case (Suc m)
      then show ?thesis using arg_cong [OF d, of "\<lambda>w. bit w m"] by (simp add: bit_simps)
    qed (use b0 in simp)
  qed
qed simp

lemma crc32_bits_inj: "(crc32_bit ^^ k) x = (crc32_bit ^^ k) y \<longleftrightarrow> x = y"
  by (induction k) (simp_all add: crc32_bit_inj)

fun le_word :: "string \<Rightarrow> u32" where
  "le_word [] = 0"
| "le_word (b # m) = of_char b XOR push_bit 8 (le_word m)"

lemma drop_push_bit8: "drop_bit 24 w = 0 \<Longrightarrow> drop_bit 8 (push_bit 8 w) = (w :: u32)"
proof (rule bit_word_eqI)
  fix n assume w: "drop_bit 24 w = 0" and n: "n < LENGTH(32)"
  have "\<not> bit w (24 + k)" for k using arg_cong [OF w, of "\<lambda>w. bit w k"] by (simp add: bit_simps)
  then have "\<not> bit w n" if "24 \<le> n" using that by (metis le_add_diff_inverse)
  then show "bit (drop_bit 8 (push_bit 8 w)) n = bit w n"
    using n by (cases "24 \<le> n") (auto simp: bit_simps)
qed

lemma drop_bit_le_word: "length m \<le> 4 \<Longrightarrow> drop_bit (8 * length m) (le_word m) = 0"
proof (induction m)
  case (Cons b m)
  have "drop_bit 24 (le_word m) = 0"
  proof -
    have "drop_bit (24 - 8 * length m) (drop_bit (8 * length m) (le_word m)) = 0" using Cons by simp
    then show ?thesis using Cons.prems by (simp add: drop_bit_drop_bit)
  qed
  then have "drop_bit 8 (push_bit 8 (le_word m)) = le_word m" by (rule drop_push_bit8)
  moreover have "drop_bit (8 * length (b # m)) w = drop_bit (8 * length m) (drop_bit 8 w)" for w :: u32
    by (simp add: drop_bit_drop_bit ac_simps)
  ultimately show ?case using Cons by (simp only: le_word.simps drop_bit_xor drop_bit_of_char) simp
qed simp

lemma le_word_Cons:
  assumes "length m < 4"
  shows "drop_bit 8 (push_bit 8 (le_word m)) = le_word m"
proof (rule drop_push_bit8)
  have "drop_bit (24 - 8 * length m) (drop_bit (8 * length m) (le_word m)) = 0"
    using assms drop_bit_le_word [of m] by simp
  then show "drop_bit 24 (le_word m) = 0" using assms by (simp add: drop_bit_drop_bit)
qed

lemma take_bit_of_char [simp]: "take_bit 8 (of_char c :: u32) = of_char c"
  using word_split8 [of "of_char c"] by simp

lemma of_char_u32_inj: "(of_char b :: u32) = of_char c \<Longrightarrow> b = c"
  by (drule arg_cong [where f = unat]) (simp only: unat_of_char of_char_eq_iff)

lemma le_word_inj: "length m = length m' \<Longrightarrow> length m \<le> 4 \<Longrightarrow> le_word m = le_word m' \<Longrightarrow> m = m'"
proof (induction m m' rule: list_induct2)
  case (Cons b m c m')
  have low: "take_bit 8 (le_word (x # xs)) = of_char x" for x xs
    by (simp add: take_bit_push_bit)
  have "of_char b = (of_char c :: u32)"
    using arg_cong [OF Cons.prems(2), of "take_bit 8"] unfolding low .
  then have "b = c" by (rule of_char_u32_inj)
  moreover have p: "push_bit 8 (le_word m) = push_bit 8 (le_word m')"
    using Cons.prems(2) unfolding \<open>b = c\<close> le_word.simps xor_cancel_left .
  have "le_word m = le_word m'"
  proof -
    have "length m < 4" "length m' < 4" using Cons.prems(1) Cons.hyps by simp_all
    then show ?thesis using p by (metis le_word_Cons)
  qed
  ultimately show ?case using Cons.IH Cons.prems(1) by simp
qed simp

lemma crc32_steps_word:
  "length m \<le> 4 \<Longrightarrow> foldl crc32_ref_step crc m = (crc32_bit ^^ (8 * length m)) (crc XOR le_word m)"
proof (induction m arbitrary: crc)
  case (Cons b m)
  have "crc32_ref_step crc b XOR le_word m = (crc32_bit ^^ 8) (crc XOR of_char b) XOR (crc32_bit ^^ 8) (push_bit 8 (le_word m))"
    using Cons.prems by (simp add: crc32_ref_step_def crc32_bits_drop take_bit_push_bit le_word_Cons)
  also have "\<dots> = (crc32_bit ^^ 8) (crc XOR le_word (b # m))"
    by (simp only: crc32_bits_xor [symmetric] le_word.simps xor.assoc)
  finally show ?case
    using Cons by (simp add: add.commute [of 8] funpow_add del: funpow.simps le_word.simps)
qed simp

lemma crc32_steps_inj: "foldl crc32_ref_step a s = foldl crc32_ref_step b s \<longleftrightarrow> a = b"
  by (induction s arbitrary: a b) (simp_all add: crc32_ref_step_def crc32_bits_inj xor_cancel_right)

lemma crc32_burst:
  assumes "length m = length m'" "length m \<le> 4"
  shows "crc32_of (pre @ m @ post) = crc32_of (pre @ m' @ post) \<longleftrightarrow> m = m'"
  using assms le_word_inj [of m m']
  by (auto simp: crc32_of_ref crc32_ref_def xor_cancel_right xor_cancel_left crc32_steps_inj crc32_steps_word crc32_bits_inj)

section \<open>CRC16 against its reference\<close>

lemma crc16_bits_push: "drop_bit (16 - k) x = 0 \<Longrightarrow> k \<le> 16 \<Longrightarrow> (crc16_bit ^^ k) x = push_bit k x"
proof (induction k arbitrary: x)
  case (Suc k)
  have "\<not> bit (drop_bit (16 - Suc k) x) k" using Suc.prems(1) by simp
  then have "\<not> bit x 15" using Suc.prems(2) by (simp add: bit_drop_bit_eq)
  then have one: "crc16_bit x = push_bit 1 x" by (simp add: crc16_bit_def)
  have "drop_bit (16 - k) (push_bit 1 x) = 0"
  proof (rule bit_word_eqI)
    fix n assume "n < LENGTH(16)"
    have "\<not> bit x (16 - Suc k + n)"
      using arg_cong [OF Suc.prems(1), of "\<lambda>w. bit w n"] by (simp add: bit_drop_bit_eq)
    moreover have "16 - k + n - 1 = 16 - Suc k + n" using Suc.prems(2) by simp
    ultimately show "bit (drop_bit (16 - k) (push_bit 1 x)) n = bit 0 n"
      by (simp only: bit_drop_bit_eq bit_push_bit_iff comp_apply) simp
  qed
  then have "(crc16_bit ^^ k) (push_bit 1 x) = push_bit k (push_bit 1 x)"
    using Suc by simp
  then show ?case by (simp add: one funpow_Suc_right push_bit_push_bit del: funpow.simps)
qed simp

lemma crc16_bits4: "(crc16_bit ^^ 4) x = crc16_bit (crc16_bit (crc16_bit (crc16_bit x)))"
  by (simp add: numeral_eq_Suc)

lemma crc16table_map: "crc16table = map (\<lambda>n. (crc16_bit ^^ 4) (push_bit 12 (word_of_nat n))) [0..<16]"
  unfolding crc16table_def crc16_bits4 by (simp add: upt_rec crc16_bit_def)

lemma word_split_nibble: "(x :: u16) = push_bit 12 (drop_bit 12 x) XOR take_bit 12 x"
  by (rule bit_word_eqI) (auto simp: bit_simps)

lemma unat_nibble: "drop_bit 4 (w :: u16) = 0 \<Longrightarrow> unat w < 16"
proof -
  assume "drop_bit 4 w = 0"
  then have "drop_bit 4 (unat w) = 0" by (simp only: unat_drop_bit_eq [symmetric]) simp
  then show "unat w < 16" by (simp add: drop_bit_eq_div)
qed

lemma crc16_nibble:
  assumes n: "drop_bit 4 n = 0"
  shows "push_bit 4 crc XOR crc16table ! unat (drop_bit 12 crc XOR n) =
    (crc16_bit ^^ 4) (crc XOR push_bit 12 n)"
proof -
  have h: "drop_bit 4 (drop_bit 12 crc XOR n) = 0"
    using n by (simp add: drop_bit_xor drop_bit_drop_bit)
  have low: "(crc16_bit ^^ 4) (take_bit 12 crc) = push_bit 4 crc"
    by (subst crc16_bits_push) (auto simp: drop_bit_take_bit bit_simps intro!: bit_word_eqI)
  have "crc XOR push_bit 12 n = push_bit 12 (drop_bit 12 crc XOR n) XOR take_bit 12 crc"
    by (subst word_split_nibble [of crc]) (simp only: push_bit_xor ac_simps)
  then have "(crc16_bit ^^ 4) (crc XOR push_bit 12 n) =
      (crc16_bit ^^ 4) (push_bit 12 (drop_bit 12 crc XOR n)) XOR push_bit 4 crc"
    by (simp only: crc16_bits_xor low)
  then show ?thesis
    using unat_nibble [OF h] by (simp add: crc16table_map xor.commute)
qed

lemma unat_of_char16 [simp]: "unat (of_char c :: u16) = of_char c"
proof -
  have "(of_char c :: u16) = word_of_nat (of_char c)" by (simp only: of_nat_of_char)
  moreover have "(of_char c :: nat) < 2 ^ 16" by (rule less_trans [OF nat_of_char_less_256]) simp
  ultimately show ?thesis by (simp only: unat_of_nat) simp
qed

lemma drop_bit_of_char16: "drop_bit 8 (of_char c :: u16) = 0"
proof -
  have "unat (drop_bit 8 (of_char c :: u16)) = drop_bit 8 (unat (of_char c :: u16))"
    by (rule unat_drop_bit_eq)
  also have "\<dots> = of_char c div 256" by (simp only: unat_of_char16 drop_bit_eq_div) simp
  also have "\<dots> = 0" by (rule div_less) (rule nat_of_char_less_256)
  finally show ?thesis by (simp add: word_unat_eq_iff)
qed

lemma CRC16_byte_ref: "CRC16_byte crc c = crc16_ref_step crc c"
proof -
  let ?h = "drop_bit 4 (of_char c :: u16)" and ?l = "of_char c AND 0x0f :: u16"
  have h: "drop_bit 4 ?h = 0" by (simp add: drop_bit_drop_bit drop_bit_of_char16)
  have lt: "?l = take_bit 4 (of_char c)" by (simp add: take_bit_eq_mask mask_eq_exp_minus_1)
  have l: "drop_bit 4 ?l = 0" unfolding lt by (simp add: drop_bit_take_bit)
  have l12: "(crc16_bit ^^ 4) (push_bit 8 ?l) = push_bit 12 ?l"
    unfolding lt by (subst crc16_bits_push) (auto simp: bit_simps push_bit_push_bit intro!: bit_word_eqI)
  have sp: "push_bit 12 ?h XOR push_bit 8 ?l = push_bit 8 (of_char c)"
    unfolding lt by (rule bit_word_eqI) (auto simp: bit_simps)
  have "CRC16_byte crc c = (crc16_bit ^^ 4) ((crc16_bit ^^ 4) (crc XOR push_bit 12 ?h) XOR push_bit 12 ?l)"
    by (simp only: CRC16_byte_def Let_def crc16_nibble [OF h] crc16_nibble [OF l])
  also have "\<dots> = (crc16_bit ^^ 4) ((crc16_bit ^^ 4) (crc XOR push_bit 8 (of_char c)))"
    by (simp only: l12 [symmetric] crc16_bits_xor [symmetric] xor.assoc sp)
  also have "\<dots> = crc16_ref_step crc c"
    by (simp only: crc16_ref_step_def funpow_add [of 4 4, simplified] comp_apply)
  finally show ?thesis .
qed

lemma CRC16_ref: "CRC16 data len = foldl crc16_ref_step 0 (take (unat len) data)"
proof -
  have "foldl CRC16_byte a s = foldl crc16_ref_step a s" for a s
    by (induction s arbitrary: a) (simp_all add: CRC16_byte_ref)
  then show ?thesis by (simp add: CRC16_def)
qed

section \<open>Properties\<close>

text \<open>
  C39: the table-driven CRC32 returns, for every length below four gigabytes, the value of the
  bit-serial CRC32 (reflected polynomial 0xEDB88320, initial value and final xor 0xFFFFFFFF); the
  two-part form is the checksum of the concatenation of its parts.
\<close>

theorem CRC32_is_reference:
  assumes "length dataHead < 2 ^ 32" "length data < 2 ^ 32"
  shows "CRC32_string data = Some (crc32_ref data) \<and>
    CRC32_two_string dataHead data = Some (crc32_ref (dataHead @ data))"
  using assms by (simp add: CRC32_string_eq CRC32_two_string_eq crc32_of_ref)

theorem CRC32_is_reference_witness:
  "CRC32_string ''23'' = Some (crc32_ref ''23'') \<and> CRC32_two_string ''1'' ''23'' = Some (crc32_ref ''123'')"
  using CRC32_is_reference [of "''1''" "''23''"] by simp

text \<open>
  C40: corruption confined to four consecutive bytes is always detected: two strings of equal
  length that differ only inside a window of at most four bytes never have the same CRC32.
\<close>

theorem CRC32_detects_burst:
  assumes "length m = length m'" "length m \<le> 4" "m \<noteq> m'" "length (pre @ m @ post) < 2 ^ 32"
  shows "CRC32_string (pre @ m @ post) \<noteq> CRC32_string (pre @ m' @ post)"
  using assms crc32_burst [of m m' pre post] by (simp add: CRC32_string_eq)

theorem CRC32_detects_burst_witness: "CRC32_string ''gold=100'' \<noteq> CRC32_string ''gold=999''"
  using CRC32_detects_burst [of "''100''" "''999''" "''gold=''" "[]"] by simp

text \<open>
  The CRC32 loop compares a 32-bit index with a 64-bit length, so for four gigabytes or more
  the index wraps around and the call never returns.
\<close>

theorem CRC32_wraps_forever:
  assumes "2 ^ 32 \<le> unat len"
  shows "CRC32 data len = None"
  using assms by (simp add: CRC32_def crc32_loop_diverges)

theorem CRC32_wraps_forever_witness: "CRC32 ''x'' 0x100000000 = None"
  using CRC32_wraps_forever [of "0x100000000"] by simp

text \<open>
  The nibble-table CRC16 equals the bit-serial CRC16 with polynomial 0x1021 and initial
  value 0, for every buffer and every length.
\<close>

theorem CRC16_is_reference: "CRC16 data len = foldl crc16_ref_step 0 (take (unat len) data)"
  by (rule CRC16_ref)

end
