(* ===== verification/Net_Session.thy ===== *)
theory Net_Session
  imports Net_Buffer
begin

text \<open>
  One \<open>Session\<close> (common/net/net_session.h, net_session.cpp) and the socket callbacks that
  \<open>NetModule\<close> runs on it (net_module.cpp: \<open>HandleSessionRead\<close>, \<open>DoSessionRead\<close>,
  \<open>DoSessionWrite\<close>). A callback stored in a session is a HOL function on the rest of the
  program's state \<open>'s\<close>; \<open>None\<close> is a callback that never returns. The operating system decides
  how many bytes a read or write transfers: that is the argument of the completion handlers.
\<close>

section \<open>The session object\<close>

type_synonym 's fun_session_read =
  "session_id_t \<Rightarrow> session_buffer \<Rightarrow> 's \<Rightarrow> (bool \<times> session_buffer \<times> 's) option"
type_synonym 's fun_session_close = "session_id_t \<Rightarrow> 's \<Rightarrow> 's"
type_synonym 's fun_context_close = "nat \<Rightarrow> 's \<Rightarrow> 's"

record 's session =
  socketOpen :: bool
  buffRead :: session_buffer
  buffWrite :: session_buffer
  onWriting :: bool
  nSessionId :: session_id_t
  funSessionClose :: "'s fun_session_close option"
  funSessionRead :: "'s fun_session_read option"
  timerSessionAlive :: "nat option"
  pSessionContext :: nat
  funSessionProtoContextClose :: "'s fun_context_close option"

definition Session :: "session_id_t \<Rightarrow> 's session" where
  "Session session_id =
     \<lparr>socketOpen = False, buffRead = SessionBuffer k_default_max_buffer_size,
      buffWrite = SessionBuffer k_default_max_buffer_size, onWriting = False,
      nSessionId = session_id, funSessionClose = None, funSessionRead = None,
      timerSessionAlive = None, pSessionContext = 0, funSessionProtoContextClose = None\<rparr>"

definition SetSessionCloseCb :: "'s fun_session_close option \<Rightarrow> 's session \<Rightarrow> 's session" where
  "SetSessionCloseCb f ses = ses\<lparr>funSessionClose := f\<rparr>"

definition SetSessionReadCb :: "'s fun_session_read option \<Rightarrow> 's session \<Rightarrow> 's session" where
  "SetSessionReadCb f ses = ses\<lparr>funSessionRead := f\<rparr>"

definition SetSessionProtoContext ::
    "nat \<Rightarrow> 's fun_context_close option \<Rightarrow> 's session \<Rightarrow> 's \<Rightarrow> 's session \<times> 's" where
  "SetSessionProtoContext pProtoContext f ses s =
     (let s' = (case funSessionProtoContextClose ses of
                  None \<Rightarrow> s | Some close \<Rightarrow> close (pSessionContext ses) s)
      in (ses\<lparr>pSessionContext := pProtoContext, funSessionProtoContextClose := f\<rparr>, s'))"

definition SetSessionId :: "session_id_t \<Rightarrow> 's session \<Rightarrow> 's session" where
  "SetSessionId n ses = ses\<lparr>nSessionId := n\<rparr>"

definition SessionGetWriteData :: "size_t \<Rightarrow> 's session \<Rightarrow> size_t option" where
  "SessionGetWriteData len ses = GetWriteDataLen len (buffWrite ses)"

definition SessionMoveWritePos :: "size_t \<Rightarrow> 's session \<Rightarrow> bool \<times> 's session" where
  "SessionMoveWritePos len ses =
     (case MoveWritePos len (buffWrite ses) of (ok, b) \<Rightarrow> (ok, ses\<lparr>buffWrite := b\<rparr>))"

definition WriteAppend :: "string \<Rightarrow> size_t \<Rightarrow> 's session \<Rightarrow> bool \<times> 's session" where
  "WriteAppend data len ses =
     (case Write data len (buffWrite ses) of (ok, b) \<Rightarrow> (ok, ses\<lparr>buffWrite := b\<rparr>))"

definition WriteAppend_string :: "string \<Rightarrow> 's session \<Rightarrow> bool \<times> 's session" where
  "WriteAppend_string data ses = WriteAppend data (size_of data) ses"

definition WriteAppend_two ::
    "string \<Rightarrow> size_t \<Rightarrow> string \<Rightarrow> size_t \<Rightarrow> 's session \<Rightarrow> bool \<times> 's session" where
  "WriteAppend_two dataHead lenHead data len ses =
     (if lenHead + len > MaxWritableSize (buffWrite ses) then (False, ses)
      else (True, snd (WriteAppend data len (snd (WriteAppend dataHead lenHead ses)))))"

section \<open>Reading\<close>

text \<open>
  The result of a completion handler: whether it asked for the session to be closed
  (\<open>DoSessionAsyncClose\<close>), whether it started the next read, the session and the state.
\<close>

datatype io_result = IoError | IoBytes string

record 's read_result =
  closeAsked :: bool
  readAgain :: bool
  resSession :: "'s session"
  resState :: 's

definition k_reorganize_rate :: size_t where
  "k_reorganize_rate = 2"

definition HandleSessionRead :: "'s session \<Rightarrow> 's \<Rightarrow> (bool \<times> 's session \<times> 's) option" where
  "HandleSessionRead ses s =
     (case funSessionRead ses of
        None \<Rightarrow> Some (False, ses, s)
      | Some f \<Rightarrow>
          (case f (nSessionId ses) (buffRead ses) s of
             None \<Rightarrow> None
           | Some (ok, b, s') \<Rightarrow> Some (\<not> ok, ses\<lparr>buffRead := b\<rparr>, s')))"

definition make_room :: "size_t \<Rightarrow> session_buffer \<Rightarrow> session_buffer option" where
  "make_room len b =
     (if CurrentWritableSize b < Capacity b div k_reorganize_rate
      then ShrinkByLength len (ReorganizeData b) else Some b)"

fun DoSessionRead_completion :: "io_result \<Rightarrow> 's session \<Rightarrow> 's \<Rightarrow> 's read_result option" where
  "DoSessionRead_completion (IoBytes bytes) ses s =
     (let stored = poke (GetWriteData (buffRead ses)) bytes (buffRead ses);
          padded = snd (PaddingData (size_of bytes) stored)
      in case make_room (size_of bytes) padded of
           None \<Rightarrow> None
         | Some b \<Rightarrow>
             (case HandleSessionRead (ses\<lparr>buffRead := b\<rparr>) s of
                None \<Rightarrow> None
              | Some (close, ses', s') \<Rightarrow>
                  Some \<lparr>closeAsked = close, readAgain = True, resSession = ses', resState = s'\<rparr>))"
| "DoSessionRead_completion IoError ses s =
     Some \<lparr>closeAsked = True, readAgain = False, resSession = ses, resState = s\<rparr>"

section \<open>Writing\<close>

text \<open>
  \<open>async_write_some\<close> is given a pointer into the write buffer and a length; the transfer may
  read that memory at any moment before it completes. A started transfer is the pair of both.
\<close>

type_synonym transfer = "size_t \<times> size_t"

definition DoSessionWrite :: "'s session \<Rightarrow> 's session \<times> transfer option" where
  "DoSessionWrite ses =
     (if onWriting ses then (ses, None)
      else (ses\<lparr>onWriting := True\<rparr>,
            Some (nReadPos (buffWrite ses), GetReadableSize (buffWrite ses))))"

definition compact :: "session_buffer \<Rightarrow> session_buffer" where
  "compact b =
     (if CurrentWritableSize b < Capacity b div k_reorganize_rate then ReorganizeData b else b)"

definition DoSessionWrite_completion ::
    "bool \<Rightarrow> size_t \<Rightarrow> 's session \<Rightarrow> bool \<times> 's session \<times> transfer option" where
  "DoSessionWrite_completion ec len ses =
     (let ses = ses\<lparr>onWriting := False\<rparr>
      in if ec then (True, ses, None)
         else let b = RemoveData len (buffWrite ses);
                  b = compact b;
                  ses = ses\<lparr>buffWrite := b\<rparr>
              in if GetReadableSize b > 0
                 then (case DoSessionWrite ses of (ses, t) \<Rightarrow> (False, ses, t))
                 else (False, ses, None))"

section \<open>The write side as a transition system\<close>

text \<open>
  The session, the transfers under way, and two ghost fields: every byte the session accepted and
  every byte the operating system took. A client appends and then calls \<open>SessionSend\<close>
  (\<open>DoSessionWrite\<close>), as \<open>WriteDataOnSessionThread\<close> and the HTTP \<open>WriteData\<close> do; the system
  completes any transfer under way with any part of it, reading the memory at that moment, or fails it.
\<close>

record 's writer =
  wSession :: "'s session"
  wTransfers :: "transfer list"
  wAccepted :: string
  wSent :: string
  wFailed :: bool

definition start_transfer :: "transfer option \<Rightarrow> transfer list \<Rightarrow> transfer list" where
  "start_transfer new ts = (case new of None \<Rightarrow> ts | Some t \<Rightarrow> ts @ [t])"

inductive write_step :: "'s writer \<Rightarrow> 's writer \<Rightarrow> bool" where
  append: "WriteAppend_string data (wSession w) = (True, ses) \<Longrightarrow> DoSessionWrite ses = (ses', t) \<Longrightarrow>
    length data < 2 ^ 64 \<Longrightarrow>
    write_step w (w\<lparr>wSession := ses', wTransfers := start_transfer t (wTransfers w),
                   wAccepted := wAccepted w @ data\<rparr>)"
| refused: "WriteAppend_string data (wSession w) = (False, ses) \<Longrightarrow> length data < 2 ^ 64 \<Longrightarrow>
    write_step w (w\<lparr>wSession := ses\<rparr>)"
| complete: "wTransfers w = ts @ (p, l) # us \<Longrightarrow> n \<le> l \<Longrightarrow>
    DoSessionWrite_completion False n (wSession w) = (close, ses, t) \<Longrightarrow>
    write_step w (w\<lparr>wSession := ses, wTransfers := start_transfer t (ts @ us),
                   wSent := wSent w @ take (unat n) (drop (unat p) (vecData (buffWrite (wSession w))))\<rparr>)"
| failed: "wTransfers w = ts @ (p, l) # us \<Longrightarrow>
    DoSessionWrite_completion True n (wSession w) = (close, ses, t) \<Longrightarrow>
    write_step w (w\<lparr>wSession := ses, wTransfers := start_transfer t (ts @ us), wFailed := True\<rparr>)"

inductive_cases write_stepE: "write_step w w'"

definition write_init :: "'s writer \<Rightarrow> bool" where
  "write_init w \<longleftrightarrow> buffer_ok (buffWrite (wSession w)) \<and> unread (buffWrite (wSession w)) = [] \<and>
     \<not> onWriting (wSession w) \<and> wTransfers w = [] \<and> wAccepted w = [] \<and> wSent w = [] \<and> \<not> wFailed w"

definition write_inv :: "'s writer \<Rightarrow> bool" where
  "write_inv w \<longleftrightarrow>
     (let b = buffWrite (wSession w) in
      buffer_inv b \<and> wAccepted w = wSent w @ unread b \<and>
      (if onWriting (wSession w) then \<exists>l. wTransfers w = [(nReadPos b, l)] \<and> l \<le> GetReadableSize b else wTransfers w = []) \<and>
      (unread b \<noteq> [] \<longrightarrow> wFailed w \<or> onWriting (wSession w)))"

lemma nReadPos_commit [simp]: "nReadPos (commit s b) = nReadPos b"
  by (simp add: commit_def poke_def)

lemma WriteAppend_string_cases:
  assumes "buffer_inv (buffWrite ses)" "length data < 2 ^ 64"
  shows "WriteAppend_string data ses =
    (if length data \<le> length (vecData (buffWrite ses)) - unat (nWritePos (buffWrite ses))
     then (True, ses\<lparr>buffWrite := commit data (buffWrite ses)\<rparr>) else (False, ses))"
  using assms by (simp add: WriteAppend_string_def WriteAppend_def Write_eq unat_size_of)

lemma transfer_bytes:
  assumes "buffer_inv b" "n \<le> GetReadableSize b"
  shows "take (unat n) (drop (unat (nReadPos b)) (vecData b)) = take (unat n) (unread b)"
  using assms by (simp add: unread_def GetReadData_def sz_order min_absorb1)

lemma GetReadableSize_commit_mono:
  assumes "buffer_inv b" "length data \<le> length (vecData b) - unat (nWritePos b)"
  shows "GetReadableSize b \<le> GetReadableSize (commit data b)"
  using length_unread [OF assms(1)] length_unread [OF commit_inv [OF assms]] unread_commit [OF assms]
  by (simp add: sz_order)

lemma GetReadableSize_pos: "buffer_inv b \<Longrightarrow> GetReadableSize b > 0 \<longleftrightarrow> unread b \<noteq> []"
  using length_unread [of b] by (auto simp: sz_order simp flip: length_greater_0_conv)

lemma write_inv_append:
  assumes inv: "write_inv w"
    and step: "WriteAppend_string data (wSession w) = (True, ses)" "DoSessionWrite ses = (ses', t)"
      "length data < 2 ^ 64"
  shows "write_inv (w\<lparr>wSession := ses', wTransfers := start_transfer t (wTransfers w),
    wAccepted := wAccepted w @ data\<rparr>)"
proof -
  let ?b = "buffWrite (wSession w)"
  have b: "buffer_inv ?b" and fits: "length data \<le> length (vecData ?b) - unat (nWritePos ?b)"
    and ses: "ses = (wSession w)\<lparr>buffWrite := commit data ?b\<rparr>"
    using inv step by (auto simp: write_inv_def Let_def WriteAppend_string_cases split: if_splits)
  show ?thesis
    using inv step(2) commit_inv [OF b fits] unread_commit [OF b fits] GetReadableSize_commit_mono [OF b fits]
    by (auto simp: write_inv_def Let_def ses DoSessionWrite_def start_transfer_def
        split: if_splits option.splits intro: order_trans)
qed

lemma write_inv_complete:
  assumes inv: "write_inv w" and tr: "wTransfers w = ts @ (p, l) # us" "n \<le> l"
    and step: "DoSessionWrite_completion False n (wSession w) = (close, ses, t)"
  shows "write_inv (w\<lparr>wSession := ses, wTransfers := start_transfer t (ts @ us),
    wSent := wSent w @ take (unat n) (drop (unat p) (vecData (buffWrite (wSession w))))\<rparr>)"
proof -
  let ?b = "buffWrite (wSession w)"
  define c where "c = compact (RemoveData n ?b)"
  have b: "buffer_inv ?b" and p: "p = nReadPos ?b" "l \<le> GetReadableSize ?b"
    and acc: "wAccepted w = wSent w @ unread ?b" and one: "ts = []" "us = []"
    using inv tr by (auto simp: write_inv_def Let_def append_eq_Cons_conv split: if_splits)
  have c: "buffer_inv c" "unread c = drop (unat n) (unread ?b)"
    using b by (auto simp: c_def compact_def unread_RemoveData unread_ReorganizeData RemoveData_inv ReorganizeData_inv)
  have sent: "take (unat n) (drop (unat p) (vecData ?b)) = take (unat n) (unread ?b)"
    unfolding p by (rule transfer_bytes [OF b]) (use tr(2) p(2) in order)
  have ses: "ses = (wSession w)\<lparr>buffWrite := c, onWriting := unread c \<noteq> []\<rparr>"
    and t: "t = (if unread c \<noteq> [] then Some (nReadPos c, GetReadableSize c) else None)"
    using step GetReadableSize_pos [OF c(1)]
    by (auto simp: DoSessionWrite_completion_def Let_def c_def [symmetric] DoSessionWrite_def
        split: if_splits)
  show ?thesis
    unfolding write_inv_def Let_def by (auto simp: ses t c acc sent one start_transfer_def)
qed

lemma write_inv_step: "write_step w w' \<Longrightarrow> write_inv w \<Longrightarrow> write_inv w'"
proof (induction rule: write_step.induct)
  case (refused data w ses)
  then have "ses = wSession w"
    by (auto simp: write_inv_def Let_def WriteAppend_string_cases split: if_splits)
  with refused show ?case by (simp add: write_inv_def)
next
  case (failed w ts p l us n close ses t)
  then show ?case
    by (auto simp: write_inv_def Let_def DoSessionWrite_completion_def start_transfer_def append_eq_Cons_conv split: if_splits)
qed (auto intro: write_inv_append write_inv_complete)

interpretation wr: invariant_system write_init write_step write_inv
proof unfold_locales
  fix s :: "'a writer" assume "write_init s"
  then show "write_inv s" by (auto simp: write_init_def write_inv_def buffer_ok_def Let_def)
qed (rule write_inv_step)

section \<open>The read side\<close>

lemma padded_is_commit:
  assumes inv: "buffer_inv b" and room: "length bytes \<le> unat (CurrentWritableSize b)"
  shows "snd (PaddingData (size_of bytes) (poke (GetWriteData b) bytes b)) = commit bytes b"
proof -
  note bounds = buffer_inv_bounds [OF inv]
  have fits: "unat (nWritePos b) + length bytes \<le> length (vecData b)"
    using room bounds by (simp add: unat_CurrentWritableSize [OF inv])
  then have inv': "buffer_inv (poke (GetWriteData b) bytes b)"
    using inv by (simp add: buffer_inv_def poke_def GetWriteData_def)
  have "unat (size_of bytes) = length bytes"
    using bounds fits by (intro unat_size_of) linarith
  then show ?thesis
    using fits by (simp add: PaddingData_cases [OF inv'] commit_def) (simp add: poke_def GetWriteData_def)
qed

lemma unat_nWritePos_reorganized:
  assumes "buffer_inv b"
  shows "unat (nWritePos (ReorganizeData b)) = length (unread b)"
  using unat_GetReadableSize [OF ReorganizeData_inv [OF assms]] length_unread [OF ReorganizeData_inv [OF assms]]
  by (simp add: unread_ReorganizeData [OF assms] nReadPos_ReorganizeData)

lemma buffer_ok_ReorganizeData: "buffer_ok b \<Longrightarrow> buffer_ok (ReorganizeData b)"
  by (auto simp: buffer_ok_def ReorganizeData_inv ReorganizeData_nonempty nMaxBuffSize_ReorganizeData)

lemma make_room_fits:
  assumes ok: "buffer_ok b" and len: "unat len \<ge> 1" "length (unread b) + unat len \<le> unat (nMaxBuffSize b)"
    and cap: "2 \<le> length (vecData b)"
  obtains b' where "make_room len b = Some b'" "buffer_ok b'" "unread b' = unread b"
    "nMaxBuffSize b' = nMaxBuffSize b" "1 \<le> unat (CurrentWritableSize b')" "length (vecData b) \<le> length (vecData b')"
proof (cases "CurrentWritableSize b < Capacity b div k_reorganize_rate")
  case False
  have inv: "buffer_inv b" using ok by (simp add: buffer_ok_def)
  have "unat (Capacity b div k_reorganize_rate) = length (vecData b) div 2"
    by (simp add: unat_div unat_Capacity [OF inv] k_reorganize_rate_def)
  then have "1 \<le> unat (CurrentWritableSize b)"
    using False cap by (simp add: sz_order)
  with False ok show thesis by (intro that [of b]) (simp_all add: make_room_def)
next
  case True
  let ?r = "ReorganizeData b"
  have inv: "buffer_inv b" and r: "buffer_inv ?r" "vecData ?r \<noteq> []"
    using ok buffer_ok_ReorganizeData [OF ok] by (auto simp: buffer_ok_def)
  have fits: "unat (nWritePos ?r) + unat len \<le> unat (nMaxBuffSize ?r)"
    using len by (simp add: unat_nWritePos_reorganized [OF inv] nMaxBuffSize_ReorganizeData)
  obtain b' where b': "ShrinkByLength len ?r = Some b'" "unat len \<le> unat (CurrentWritableSize b')"
      "length (vecData ?r) \<le> length (vecData b')"
    using ShrinkByLength_fits [OF r fits] .
  note f = ShrinkByLength_Some [OF r b'(1)]
  show thesis
    using True b' f ok len(1) inv
    by (intro that [of b']) (simp_all add: make_room_def buffer_ok_def unread_ReorganizeData
        nMaxBuffSize_ReorganizeData length_vecData_ReorganizeData)
qed

lemma make_room_diverges:
  assumes ok: "buffer_ok b" and full: "CurrentWritableSize b < Capacity b div k_reorganize_rate"
    and over: "unat (nMaxBuffSize b) < length (unread b) + unat len"
  shows "make_room len b = None"
proof -
  have inv: "buffer_inv b" using ok by (simp add: buffer_ok_def)
  show ?thesis
    using full over ShrinkByLength_diverges [OF ReorganizeData_inv [OF inv], of len]
    by (simp add: make_room_def unat_nWritePos_reorganized [OF inv] nMaxBuffSize_ReorganizeData)
qed

lemma commit_ok:
  assumes "buffer_ok b" "length bytes \<le> unat (CurrentWritableSize b)"
  shows "buffer_ok (commit bytes b)" "unread (commit bytes b) = unread b @ bytes"
    "length (vecData (commit bytes b)) = length (vecData b)"
  using assms commit_facts [of b bytes]
  by (auto simp: buffer_ok_def unat_CurrentWritableSize dest: arg_cong [where f = length])

text \<open>
  A read of \<open>bytes\<close> on a session whose buffer can take them hands the read callback a buffer
  whose unread bytes are the old ones followed by the new ones.
\<close>

lemma read_completion_calls:
  assumes ok: "buffer_ok (buffRead ses)" "2 \<le> length (vecData (buffRead ses))"
    and bytes: "bytes \<noteq> []" "length bytes \<le> unat (CurrentWritableSize (buffRead ses))"
    and fits: "length (unread (buffRead ses)) + 2 * length bytes \<le> unat (nMaxBuffSize (buffRead ses))"
  obtains b where "buffer_ok b" "unread b = unread (buffRead ses) @ bytes" "2 \<le> length (vecData b)"
    "nMaxBuffSize b = nMaxBuffSize (buffRead ses)" "1 \<le> unat (CurrentWritableSize b)"
    "DoSessionRead_completion (IoBytes bytes) ses s =
      map_option (\<lambda>(close, ses', s'). \<lparr>closeAsked = close, readAgain = True, resSession = ses', resState = s'\<rparr>)
        (HandleSessionRead (ses\<lparr>buffRead := b\<rparr>) s)"
proof -
  let ?b = "buffRead ses" and ?c = "commit bytes (buffRead ses)"
  have inv: "buffer_inv ?b" using ok by (simp add: buffer_ok_def)
  note c = commit_ok [OF ok(1) bytes(2)]
  have len: "unat (size_of bytes) = length bytes"
    using bytes(2) unat_sz_lt [of "CurrentWritableSize ?b"] by (intro unat_size_of) linarith
  have "1 \<le> unat (size_of bytes)" using bytes(1) by (simp add: len Suc_le_eq)
  moreover have "length (unread ?c) + unat (size_of bytes) \<le> unat (nMaxBuffSize ?c)"
    using fits by (simp add: c len)
  ultimately obtain b where b: "make_room (size_of bytes) ?c = Some b" "buffer_ok b" "unread b = unread ?c"
      "nMaxBuffSize b = nMaxBuffSize ?c" "1 \<le> unat (CurrentWritableSize b)" "length (vecData ?c) \<le> length (vecData b)"
    using make_room_fits [OF c(1)] c(3) ok(2) by metis
  show thesis
    using b c ok(2) padded_is_commit [OF inv bytes(2)]
    by (intro that [of b]) (auto split: option.splits)
qed

section \<open>Read callbacks that consume a prefix\<close>

text \<open>A buffer from which a read callback consumed bytes: the same vector, no later write position, fewer unread bytes.\<close>

definition drained :: "session_buffer \<Rightarrow> session_buffer \<Rightarrow> bool" where
  "drained b b' \<longleftrightarrow> buffer_inv b' \<and> length (vecData b') = length (vecData b) \<and>
     nMaxBuffSize b' = nMaxBuffSize b \<and> unat (nWritePos b') \<le> unat (nWritePos b)"

lemma drained_refl: "buffer_inv b \<Longrightarrow> drained b b"
  by (simp add: drained_def)

lemma drained_trans: "drained a b \<Longrightarrow> drained b c \<Longrightarrow> drained a c"
  by (simp add: drained_def)

lemma drained_RemoveData: "buffer_inv b \<Longrightarrow> drained b (RemoveData n b)"
  by (simp add: drained_def RemoveData_inv vecData_RemoveData nMaxBuffSize_RemoveData)
    (simp add: RemoveData_def Let_def)

text \<open>
  The contract of a protocol's read callback: on every buffer it returns, and what it does depends
  on the unread bytes only. It is described by a decoder on byte strings that tells whether the
  session stays open, which bytes are left and the new state. The client fact is what one read of a
  session does, whatever part of the stream it delivers.
\<close>

definition reader_ok :: "'s fun_session_read \<Rightarrow> nat \<Rightarrow> 's session \<Rightarrow> bool" where
  "reader_ok cb M ses \<longleftrightarrow> buffer_ok (buffRead ses) \<and> 2 \<le> length (vecData (buffRead ses)) \<and>
     unat (nMaxBuffSize (buffRead ses)) = M \<and> 1 \<le> unat (CurrentWritableSize (buffRead ses)) \<and>
     funSessionRead ses = Some cb"

locale stream_reader =
  fixes cb :: "'s fun_session_read"
    and decode :: "session_id_t \<Rightarrow> string \<Rightarrow> 's \<Rightarrow> bool \<times> string \<times> 's"
  assumes cb_decodes: "buffer_inv buf \<Longrightarrow> length (unread buf) < 2 ^ 32 \<Longrightarrow>
      \<exists>buf'. cb sid buf s = (case decode sid (unread buf) s of (ok, rest, s') \<Rightarrow> Some (ok, buf', s')) \<and>
        unread buf' = fst (snd (decode sid (unread buf) s)) \<and> drained buf buf'"
    and decode_append: "decode sid u s = (ok, r, s') \<Longrightarrow>
      decode sid (u @ v) s = (if ok then decode sid (r @ v) s' else (False, r @ v, s'))"
begin

lemma read_chunk:
  assumes ok: "reader_ok cb M ses" and c: "c \<noteq> []" "length c \<le> unat (CurrentWritableSize (buffRead ses))"
    and fits: "length (unread (buffRead ses)) + 2 * length c \<le> M" "M < 2 ^ 32"
    and dec: "decode (nSessionId ses) (unread (buffRead ses) @ c) s = (open, r, s')"
  obtains ses' where "DoSessionRead_completion (IoBytes c) ses s =
      Some \<lparr>closeAsked = \<not> open, readAgain = True, resSession = ses', resState = s'\<rparr>"
    "reader_ok cb M ses'" "unread (buffRead ses') = r" "nSessionId ses' = nSessionId ses"
proof -
  let ?b = "buffRead ses"
  obtain b where b: "buffer_ok b" "unread b = unread ?b @ c" "2 \<le> length (vecData b)"
      "nMaxBuffSize b = nMaxBuffSize ?b" "1 \<le> unat (CurrentWritableSize b)"
      "DoSessionRead_completion (IoBytes c) ses s =
        map_option (\<lambda>(close, ses', s'). \<lparr>closeAsked = close, readAgain = True, resSession = ses', resState = s'\<rparr>)
          (HandleSessionRead (ses\<lparr>buffRead := b\<rparr>) s)"
    using read_completion_calls [of ses c s] ok c fits by (auto simp: reader_ok_def)
  have bi: "buffer_inv b" "length (unread b) < 2 ^ 32"
    using b(1,2) fits by (auto simp: buffer_ok_def)
  obtain b' where b': "cb (nSessionId ses) b s = Some (open, b', s')" "unread b' = r" "drained b b'"
    using cb_decodes [OF bi, of "nSessionId ses" s] dec by (auto simp: b(2))
  have inv': "buffer_inv b'" using b'(3) by (simp add: drained_def)
  have cw: "1 \<le> unat (CurrentWritableSize b')"
    using b(5) b'(3) unat_CurrentWritableSize [OF bi(1)] unat_CurrentWritableSize [OF inv']
    unfolding drained_def by linarith
  have "buffer_ok b'" using b(1,3) b'(3) by (auto simp: buffer_ok_def drained_def dest: arg_cong [where f = length])
  then show thesis
    using ok b b' cw by (intro that [of "ses\<lparr>buffRead := b'\<rparr>"]) (auto simp: reader_ok_def HandleSessionRead_def drained_def)
qed

text \<open>Bytes that keep the session open when they arrive at once keep it open in any prefix.\<close>

lemma decode_prefix_open: "decode sid (u @ v) s = (True, r, s') \<Longrightarrow> fst (decode sid u s)"
  using decode_append [of sid u s _ _ _ v] by (cases "decode sid u s") (auto split: if_splits)

end

section \<open>Reads of arbitrary sizes\<close>

text \<open>
  The operating system chooses how many bytes each read returns; \<open>receive\<close> runs the read
  completions for a schedule of such choices (at least one byte each) over the bytes the peer
  sent, until the schedule ends, no byte is left or the handler asks for the session to close.
\<close>

fun receive :: "nat list \<Rightarrow> string \<Rightarrow> 's session \<Rightarrow> 's \<Rightarrow> (bool \<times> string \<times> 's session \<times> 's) option" where
  "receive [] pending ses s = Some (False, pending, ses, s)"
| "receive (n # ns) pending ses s =
     (let c = take (min (Suc n) (unat (CurrentWritableSize (buffRead ses)))) pending
      in if c = [] then Some (False, pending, ses, s)
         else case DoSessionRead_completion (IoBytes c) ses s of
                None \<Rightarrow> None
              | Some r \<Rightarrow>
                  if closeAsked r then Some (True, drop (length c) pending, resSession r, resState r)
                  else receive ns (drop (length c) pending) (resSession r) (resState r))"

section \<open>Properties\<close>

text \<open>
  C21: the write side of a session is a reliable stream. In every state reachable from a fresh
  session by appends, refused appends, partial and complete transfers and transfer errors, the
  accepted bytes are the bytes already sent followed by the bytes still buffered, although the
  system reads the buffer only when a transfer completes; and unless a transfer has failed, bytes
  never wait without a transfer under way. There is never more than one transfer at a time.
\<close>

theorem session_writes_in_order:
  assumes "write_init w0" "write_step\<^sup>*\<^sup>* w0 w"
  shows "wAccepted w = wSent w @ unread (buffWrite (wSession w)) \<and>
    (unread (buffWrite (wSession w)) \<noteq> [] \<longrightarrow> wFailed w \<or> wTransfers w \<noteq> []) \<and>
    length (wTransfers w) \<le> 1"
  using wr.reachable_inv [OF assms] by (auto simp: write_inv_def Let_def split: if_splits)

lemma write_step_appendI:
  assumes "WriteAppend_string data (wSession w) = (True, ses)" "DoSessionWrite ses = (ses', t)"
    "length data < 2 ^ 64"
    "w' = w\<lparr>wSession := ses', wTransfers := start_transfer t (wTransfers w), wAccepted := wAccepted w @ data\<rparr>"
  shows "write_step w w'"
  using append [OF assms(1-3)] assms(4) by simp

lemma onWriting_Session [simp]: "\<not> onWriting (Session n)"
  by (simp add: Session_def)

definition sample_writer :: "unit writer" where
  "sample_writer = \<lparr>wSession = (Session 1)\<lparr>buffWrite := SessionBuffer 64\<rparr>, wTransfers = [],
     wAccepted = [], wSent = [], wFailed = False\<rparr>"

theorem session_writes_in_order_witness:
  "\<exists>w. write_step\<^sup>*\<^sup>* sample_writer w \<and> wAccepted w = ''ab'' \<and>
     wAccepted w = wSent w @ unread (buffWrite (wSession w)) \<and> wTransfers w \<noteq> []"
proof -
  let ?ses = "wSession sample_writer\<lparr>buffWrite := snd (Write ''ab'' 2 (SessionBuffer 64)), onWriting := True\<rparr>"
  let ?w = "sample_writer\<lparr>wSession := ?ses, wTransfers := [(0, 2)], wAccepted := ''ab''\<rparr>"
  have init: "write_init sample_writer"
    by (simp add: write_init_def sample_writer_def buffer_ok_SessionBuffer)
  have step: "write_step sample_writer ?w"
    by (rule write_step_appendI [where data = "''ab''" and t = "Some (0, 2)" and ses' = ?ses and
          ses = "wSession sample_writer\<lparr>buffWrite := snd (Write ''ab'' 2 (SessionBuffer 64))\<rparr>"])
      (simp_all add: sample_writer_def WriteAppend_string_def WriteAppend_def DoSessionWrite_def
        buffer_eval start_transfer_def)
  then have "write_step\<^sup>*\<^sup>* sample_writer ?w" by blast
  from this session_writes_in_order [OF init this] show ?thesis
    by (intro exI [of _ ?w]) simp
qed

text \<open>
  The read completion hangs the network loop. When a read leaves less than half of the
  buffer free and the unread bytes plus the length of that read exceed the maximum size, the
  growth loop never ends and the handler never returns.
\<close>

theorem read_completion_hangs:
  assumes "buffer_ok (buffRead ses)" "length bytes \<le> unat (CurrentWritableSize (buffRead ses))"
    and "CurrentWritableSize (commit bytes (buffRead ses)) < Capacity (commit bytes (buffRead ses)) div 2"
    and "unat (nMaxBuffSize (buffRead ses)) < length (unread (buffRead ses)) + 2 * length bytes"
  shows "DoSessionRead_completion (IoBytes bytes) ses s = None"
proof -
  let ?b = "buffRead ses"
  have inv: "buffer_inv ?b" using assms(1) by (simp add: buffer_ok_def)
  have len: "unat (size_of bytes) = length bytes"
    using assms(2) unat_sz_lt [of "CurrentWritableSize ?b"] by (intro unat_size_of) linarith
  have "make_room (size_of bytes) (commit bytes ?b) = None"
    using assms commit_ok [OF assms(1,2)]
    by (intro make_room_diverges) (simp_all add: len k_reorganize_rate_def)
  then show ?thesis by (simp add: padded_is_commit [OF inv assms(2)])
qed

theorem read_completion_hangs_witness:
  "DoSessionRead_completion (IoBytes (replicate 14 (CHR ''x'')))
     ((Session 1)\<lparr>buffRead := (SessionBuffer 16)\<lparr>vecData := replicate 16 (CHR 0x00)\<rparr>\<rparr>) () = None"
proof (rule read_completion_hangs, goal_cases)
  case 1
  show ?case by (simp add: buffer_ok_def buffer_inv_def buffer_eval)
qed (simp_all add: buffer_eval commit_def Capacity_def)

text \<open>
  The two-part \<open>WriteAppend\<close> checks the maximum size but writes into the current vector,
  which the write buffer never grows: when neither part fits the vector it reports success
  although no byte was appended.
\<close>

theorem WriteAppend_two_drops:
  assumes "buffer_inv (buffWrite ses)" "unat lenHead \<le> length dataHead" "unat len \<le> length data"
    and "CurrentWritableSize (buffWrite ses) < lenHead" "CurrentWritableSize (buffWrite ses) < len"
    and "lenHead + len \<le> MaxWritableSize (buffWrite ses)"
  shows "WriteAppend_two dataHead lenHead data len ses = (True, ses)"
  using assms by (simp add: WriteAppend_two_def WriteAppend_def Write_eq sz_order unat_CurrentWritableSize)

theorem WriteAppend_two_drops_witness:
  "WriteAppend_two ''headhead'' 8 ''bodybody'' 8 ((Session 1)\<lparr>buffWrite := SessionBuffer 64\<rparr>) =
     (True, (Session 1)\<lparr>buffWrite := SessionBuffer 64\<rparr>)"
  by (rule WriteAppend_two_drops) (simp add: SessionBuffer_inv, simp_all add: buffer_eval MaxWritableSize_def)

end
