(* ===== verification/Cpp_Std.thy ===== *)
theory Cpp_Std
  imports Cat_Prelude
begin

text \<open>
  The parts of the C and C++ standard library the sources use on text: \<open>std::to_string\<close> on
  integers, \<open>atoi\<close> and \<open>atoll\<close> (glibc: \<open>strtoll\<close> saturates, \<open>atoi\<close> keeps its low 32 bits),
  the \<open>%d\<close> conversion of \<open>sscanf\<close>, \<open>c_str\<close> (a C string ends at the first NUL) and
  searching. The lemmas are the round trips between printing and reading numbers.
\<close>

type_synonym int32 = int
type_synonym int64 = int

definition to_int32 :: "int \<Rightarrow> int32" where
  "to_int32 i = signed_take_bit 31 i"

definition to_int64 :: "int \<Rightarrow> int64" where
  "to_int64 i = signed_take_bit 63 i"

definition is_int32 :: "int \<Rightarrow> bool" where
  "is_int32 i \<longleftrightarrow> - (2 ^ 31) \<le> i \<and> i < 2 ^ 31"

definition is_int64 :: "int \<Rightarrow> bool" where
  "is_int64 i \<longleftrightarrow> - (2 ^ 63) \<le> i \<and> i < 2 ^ 63"

definition c_str :: "string \<Rightarrow> string" where
  "c_str s = takeWhile (\<lambda>c. c \<noteq> CHR 0x00) s"

section \<open>Printing\<close>

definition digit_char :: "nat \<Rightarrow> char" where
  "digit_char d = char_of (48 + d)"

fun nat_to_string :: "nat \<Rightarrow> string" where
  "nat_to_string n = (if n < 10 then [digit_char n] else nat_to_string (n div 10) @ [digit_char (n mod 10)])"

declare nat_to_string.simps [simp del]

definition to_string :: "int \<Rightarrow> string" where
  "to_string i = (if i < 0 then CHR ''-'' # nat_to_string (nat (- i)) else nat_to_string (nat i))"

section \<open>Reading\<close>

definition is_space :: "char \<Rightarrow> bool" where
  "is_space c \<longleftrightarrow> c = CHR '' '' \<or> (9 \<le> (of_char c :: nat) \<and> (of_char c :: nat) \<le> 13)"

definition is_digit :: "char \<Rightarrow> bool" where
  "is_digit c \<longleftrightarrow> 48 \<le> (of_char c :: nat) \<and> (of_char c :: nat) \<le> 57"

definition digit_value :: "char \<Rightarrow> nat" where
  "digit_value c = of_char c - 48"

definition digits_value :: "string \<Rightarrow> nat" where
  "digits_value ds = foldl (\<lambda>v c. 10 * v + digit_value c) 0 ds"

fun split_sign :: "string \<Rightarrow> bool \<times> string" where
  "split_sign (c # s) = (if c = CHR ''-'' then (True, s) else if c = CHR ''+'' then (False, s) else (False, c # s))"
| "split_sign [] = (False, [])"

definition clamp_int64 :: "int \<Rightarrow> int64" where
  "clamp_int64 i = max (- (2 ^ 63)) (min (2 ^ 63 - 1) i)"

definition atoll :: "string \<Rightarrow> int64" where
  "atoll s =
     (case split_sign (dropWhile is_space s) of
        (neg, t) \<Rightarrow> let v = int (digits_value (takeWhile is_digit t))
                     in clamp_int64 (if neg then - v else v))"

definition atoi :: "string \<Rightarrow> int32" where
  "atoi s = to_int32 (atoll s)"

text \<open>\<open>%d\<close>: white space, a sign, at least one digit; the rest of the input on success.\<close>

definition scan_int :: "string \<Rightarrow> (int \<times> string) option" where
  "scan_int s =
     (case split_sign (dropWhile is_space s) of
        (neg, t) \<Rightarrow>
          let ds = takeWhile is_digit t; v = clamp_int64 (if neg then - int (digits_value ds) else int (digits_value ds))
          in if ds = [] then None else Some (to_int32 v, dropWhile is_digit t))"

section \<open>Searching\<close>

fun find_char :: "char \<Rightarrow> string \<Rightarrow> nat option" where
  "find_char c [] = None"
| "find_char c (x # xs) = (if x = c then Some 0 else map_option Suc (find_char c xs))"

section \<open>Round trips\<close>

lemma of_char_digit_char [simp]: "d < 10 \<Longrightarrow> (of_char (digit_char d) :: nat) = 48 + d"
  by (simp add: digit_char_def)

lemma digit_char_facts [simp]:
  assumes "d < 10"
  shows "is_digit (digit_char d)" "\<not> is_space (digit_char d)" "digit_value (digit_char d) = d"
    "digit_char d \<noteq> CHR ''-''" "digit_char d \<noteq> CHR ''+''" "digit_char d \<noteq> CHR 0x00"
proof -
  have ne: "digit_char d \<noteq> c" if "\<not> is_digit c" for c
    using assms that by (auto simp: is_digit_def)
  show "is_digit (digit_char d)" "\<not> is_space (digit_char d)" "digit_value (digit_char d) = d"
    using assms ne [of "CHR '' ''"] by (simp_all add: is_digit_def is_space_def digit_value_def)
  show "digit_char d \<noteq> CHR ''-''" "digit_char d \<noteq> CHR ''+''" "digit_char d \<noteq> CHR 0x00"
    by (rule ne, simp add: is_digit_def)+
qed

lemma nat_to_string_digits: "\<forall>c \<in> set (nat_to_string n). is_digit c"
  by (induction n rule: nat_to_string.induct) (subst nat_to_string.simps, auto)

lemma nat_to_string_not_Nil [simp]: "nat_to_string n \<noteq> []"
  by (subst nat_to_string.simps) simp

lemma digits_value_nat_to_string [simp]: "digits_value (nat_to_string n) = n"
  by (induction n rule: nat_to_string.induct) (subst nat_to_string.simps, auto simp: digits_value_def)

lemma is_digit_special: "is_digit c \<Longrightarrow> \<not> is_space c \<and> c \<noteq> CHR ''-'' \<and> c \<noteq> CHR ''+'' \<and> c \<noteq> CHR 0x00"
  by (auto simp: is_digit_def is_space_def)

lemma split_sign_nat [simp]:
  "split_sign (dropWhile is_space (nat_to_string n @ rest)) = (False, nat_to_string n @ rest)"
proof (cases "nat_to_string n")
  case (Cons c cs)
  then have "is_digit c" using nat_to_string_digits [of n] by simp
  then show ?thesis using Cons is_digit_special [of c] by simp
qed simp

lemma takeWhile_digits [simp]:
  assumes "rest = [] \<or> \<not> is_digit (hd rest)"
  shows "takeWhile is_digit (nat_to_string n @ rest) = nat_to_string n"
  using nat_to_string_digits [of n] assms by (cases rest) (auto simp: takeWhile_append2)

lemma clamp_int64_id [simp]: "is_int64 i \<Longrightarrow> clamp_int64 i = i"
  by (auto simp: is_int64_def clamp_int64_def)

lemma atoll_to_string:
  assumes "is_int64 i" "rest = [] \<or> \<not> is_digit (hd rest)"
  shows "atoll (to_string i @ rest) = i"
  using assms by (auto simp: atoll_def to_string_def Let_def is_space_def)

lemma to_int32_id [simp]: "is_int32 i \<Longrightarrow> to_int32 i = i"
  by (auto simp: is_int32_def to_int32_def signed_take_bit_int_eq_self)

lemma is_int64_int32 [simp]: "is_int32 i \<Longrightarrow> is_int64 i"
  by (auto simp: is_int32_def is_int64_def)

lemma atoi_to_string:
  assumes "is_int32 i" "rest = [] \<or> \<not> is_digit (hd rest)"
  shows "atoi (to_string i @ rest) = i"
  using assms by (simp add: atoi_def atoll_to_string)

lemma to_string_chars: "\<forall>c \<in> set (to_string i). is_digit c \<or> c = CHR ''-''"
  using nat_to_string_digits by (auto simp: to_string_def)

lemma to_string_not_Nil [simp]: "to_string i \<noteq> []"
  by (simp add: to_string_def)

lemma split_sign_nat_to_string [simp]: "split_sign (nat_to_string n) = (False, nat_to_string n)"
proof (cases "nat_to_string n")
  case (Cons c cs)
  then have "is_digit c" using nat_to_string_digits [of n] by simp
  then show ?thesis using Cons is_digit_special [of c] by simp
qed simp

definition string_value :: "string \<Rightarrow> int" where
  "string_value s =
     (case split_sign s of (neg, t) \<Rightarrow> if neg then - int (digits_value t) else int (digits_value t))"

lemma string_value_to_string: "string_value (to_string i) = i"
  by (simp add: string_value_def to_string_def)

lemma to_string_inj: "to_string i = to_string j \<longleftrightarrow> i = j"
  using string_value_to_string by metis

lemma c_str_id [simp]: "CHR 0x00 \<notin> set s \<Longrightarrow> c_str s = s"
  by (auto simp: c_str_def takeWhile_eq_all_conv)

end
