(* ===== verification/Net_Pb.thy ===== *)
theory Net_Pb
  imports Net_Session Crc Cpp_Std
begin

text \<open>
  \<open>NetPbModule\<close> (common/net/net_pb_module.h, net_pb_module.cpp): the packet layer. A packet on
  the wire is \<open>checkCode | packetLen | msgType | payload\<close>, the payload of a message is
  \<open>headLen | head | body\<close>, and all numbers are big-endian whatever the endianness of the host,
  which is an argument of the definitions that load or store a word. A pair of a pointer and a
  length is the string of these bytes. The messages are protobuf messages: their serialisation
  and parsing are arguments. A packet handler acts on the rest of the program's state.
\<close>

section \<open>Wire format\<close>

definition kHeadLen :: size_t where
  "kHeadLen = 12"

fun SwapUint32 :: "endian \<Rightarrow> u32 \<Rightarrow> u32" where
  "SwapUint32 BigEndian v = v"
| "SwapUint32 LittleEndian v =
     drop_bit 24 v OR drop_bit 8 (v AND 0x00ff0000) OR push_bit 8 (v AND 0x0000ff00) OR push_bit 24 v"

definition CheckCode :: "string \<Rightarrow> size_t \<Rightarrow> u32 option" where
  "CheckCode data len = CRC32 data len"

definition CheckCode_two :: "string \<Rightarrow> size_t \<Rightarrow> string \<Rightarrow> size_t \<Rightarrow> u32 option" where
  "CheckCode_two dataHead lenHead data len = CRC32_two dataHead lenHead data len"

definition GetPacketHeadLength :: "endian \<Rightarrow> string \<Rightarrow> u32" where
  "GetPacketHeadLength e pData = SwapUint32 e (load_u32 e pData)"

definition SetPacketHeadLength :: "endian \<Rightarrow> u32 \<Rightarrow> string" where
  "SetPacketHeadLength e lenHead = store_u32 e (SwapUint32 e lenHead)"

section \<open>Receiving\<close>

type_synonym 's packet_handler = "session_id_t \<Rightarrow> u32 \<Rightarrow> string \<Rightarrow> 's \<Rightarrow> 's"

record 's net_pb_module =
  mapPackethandle :: "u32 \<rightharpoonup> 's packet_handler"
  funDefaultPacketHandle :: "'s packet_handler option"

definition RegisterPacketHandle ::
    "u32 \<Rightarrow> 's packet_handler option \<Rightarrow> 's net_pb_module \<Rightarrow> 's net_pb_module" where
  "RegisterPacketHandle msgType func m =
     (case func of
        None \<Rightarrow> m
      | Some f \<Rightarrow> m\<lparr>mapPackethandle := (mapPackethandle m)(msgType \<mapsto> f)\<rparr>)"

definition SetDefaultPacketHandle ::
    "'s packet_handler option \<Rightarrow> 's net_pb_module \<Rightarrow> 's net_pb_module" where
  "SetDefaultPacketHandle func m = m\<lparr>funDefaultPacketHandle := func\<rparr>"

definition ReadPbPacket ::
    "'s net_pb_module \<Rightarrow> session_id_t \<Rightarrow> u32 \<Rightarrow> string \<Rightarrow> 's \<Rightarrow> bool \<times> 's" where
  "ReadPbPacket m sessionId msgType data s =
     (case mapPackethandle m msgType of
        Some f \<Rightarrow> (True, f sessionId msgType data s)
      | None \<Rightarrow>
          (case funDefaultPacketHandle m of
             Some f \<Rightarrow> (True, f sessionId msgType data s)
           | None \<Rightarrow> (False, s)))"

partial_function (option) ReadData ::
    "endian \<Rightarrow> 's net_pb_module \<Rightarrow> session_id_t \<Rightarrow> session_buffer \<Rightarrow> 's \<Rightarrow> (bool \<times> session_buffer \<times> 's) option" where
  "ReadData e m sessionId buf s =
     (if GetReadableSize buf \<ge> kHeadLen then
        let readBuff = GetReadData buf;
            checkCode = SwapUint32 e (load_u32 e readBuff);
            packetLen = ucast (SwapUint32 e (load_u32 e (drop 4 readBuff)));
            msgType = SwapUint32 e (load_u32 e (drop 8 readBuff))
        in if GetReadableSize buf < packetLen + kHeadLen then Some (True, buf, s)
           else case CheckCode (drop 4 readBuff) (packetLen + kHeadLen - 4) of
                  None \<Rightarrow> None
                | Some remoteCheck \<Rightarrow>
                    if checkCode \<noteq> remoteCheck then Some (False, buf, s)
                    else case ReadPbPacket m sessionId msgType
                                (take (unat packetLen) (drop (unat kHeadLen) readBuff)) s of
                           (ok, s') \<Rightarrow>
                             if \<not> ok then Some (False, buf, s')
                             else ReadData e m sessionId (RemoveData (packetLen + kHeadLen) buf) s'
      else Some (True, buf, s))"

section \<open>Parsing a message\<close>

definition PaserPbHead ::
    "endian \<Rightarrow> (string \<Rightarrow> 'h option) \<Rightarrow> string \<Rightarrow> ('h \<times> string) option" where
  "PaserPbHead e parse data =
     (let len = size_of data
      in if len < 4 then None
         else let pbPacketHeadLen = GetPacketHeadLength e data
              in if len < ucast pbPacketHeadLen + 4 then None
                 else let pbPacketBodyLen = ucast len - pbPacketHeadLen - 4 :: u32;
                          pData = drop 4 data
                      in case parse (take (unat pbPacketHeadLen) pData) of
                           None \<Rightarrow> None
                         | Some pbHead \<Rightarrow>
                             Some (pbHead, take (unat pbPacketBodyLen) (drop (unat pbPacketHeadLen) pData)))"

text \<open>
  The queue of parsed messages waiting for the main loop, \<open>m_vecMsgFunction\<close>: each entry is the
  closure that calls the registered function on the main thread, a state transformer.
\<close>

type_synonym 'w event = "'w \<Rightarrow> 'w"

definition GeneratePaserPacketFunc ::
    "endian \<Rightarrow> (string \<Rightarrow> 'h option) \<Rightarrow> ('h \<Rightarrow> bool) \<Rightarrow> (string \<Rightarrow> 'b option) \<Rightarrow>
     (session_id_t \<Rightarrow> 'h \<Rightarrow> 'b \<Rightarrow> 'w event) \<Rightarrow> 'w event list packet_handler" where
  "GeneratePaserPacketFunc e parseHead checkTTL parseBody funReadPacket =
     (\<lambda>sessionId msgType data queue.
        case PaserPbHead e parseHead data of
          None \<Rightarrow> queue
        | Some (head, bodyData) \<Rightarrow>
            if \<not> checkTTL head then queue
            else case parseBody bodyData of
                   None \<Rightarrow> queue
                 | Some body \<Rightarrow> queue @ [funReadPacket sessionId head body])"

definition RegisterHandleHelper ::
    "endian \<Rightarrow> (string \<Rightarrow> 'h option) \<Rightarrow> ('h \<Rightarrow> bool) \<Rightarrow> (string \<Rightarrow> 'b option) \<Rightarrow> u32 \<Rightarrow>
     (session_id_t \<Rightarrow> 'h \<Rightarrow> 'b \<Rightarrow> 'w event) \<Rightarrow> 'w event list net_pb_module \<Rightarrow> 'w event list net_pb_module" where
  "RegisterHandleHelper e parseHead checkTTL parseBody msgType func m =
     RegisterPacketHandle msgType (Some (GeneratePaserPacketFunc e parseHead checkTTL parseBody func)) m"

definition NetPb_OnUpdate :: "'w event list \<Rightarrow> 'w \<Rightarrow> 'w event list \<times> 'w" where
  "NetPb_OnUpdate vecMsgFunction w = ([], fold (\<lambda>cb w. cb w) vecMsgFunction w)"

section \<open>Message heads\<close>

record client_head =
  ch_query_id :: int64
  ch_req_time :: int64
  ch_error_code :: int32

record server_head =
  sh_trans_id :: string
  sh_req_time :: int64
  sh_src_server_type :: int32
  sh_src_server_index :: int32
  sh_user_id :: string
  sh_query_id :: int64
  sh_error_code :: int32
  sh_ttl :: int32

definition kPacketTTLDefaultvalue :: int32 where
  "kPacketTTLDefaultvalue = 30"

text \<open>
  The transaction id generator: the server's type and id and the time of the first call make up
  the prefix that is fixed at that call, the counter makes every id different.
\<close>

record trans_gen =
  strTransIdPrefix :: "string option"
  nSuffix :: int64

definition GenTransId :: "int32 \<Rightarrow> int32 \<Rightarrow> int64 \<Rightarrow> trans_gen \<Rightarrow> string \<times> trans_gen" where
  "GenTransId serverType serverId now g =
     (let prefix = (case strTransIdPrefix g of
                      Some p \<Rightarrow> p
                    | None \<Rightarrow> to_string serverType @ '' - '' @ to_string serverId @ to_string now);
          n = nSuffix g + 1
      in (prefix @ to_string n, g\<lparr>strTransIdPrefix := Some prefix, nSuffix := n\<rparr>))"

definition FillHeadCommon_client :: "client_head \<Rightarrow> client_head" where
  "FillHeadCommon_client h = h"

definition FillHeadCommon_server ::
    "int32 \<Rightarrow> int32 \<Rightarrow> int64 \<Rightarrow> server_head \<Rightarrow> trans_gen \<Rightarrow> server_head \<times> trans_gen" where
  "FillHeadCommon_server serverType serverId now h g =
     (let h = h\<lparr>sh_src_server_type := serverType, sh_src_server_index := serverId\<rparr>;
          h = (if sh_ttl h = 0 then h\<lparr>sh_ttl := kPacketTTLDefaultvalue\<rparr>
               else h\<lparr>sh_ttl := sh_ttl h - 1\<rparr>)
      in if sh_trans_id h = [] then
           (case GenTransId serverType serverId now g of (t, g') \<Rightarrow> (h\<lparr>sh_trans_id := t\<rparr>, g'))
         else (h, g))"

definition CheckHeadTTLError_client :: "client_head \<Rightarrow> bool" where
  "CheckHeadTTLError_client h = True"

definition CheckHeadTTLError_server :: "server_head \<Rightarrow> bool" where
  "CheckHeadTTLError_server h \<longleftrightarrow> sh_ttl h > 0"

section \<open>Sending\<close>

text \<open>\<open>SerializeToArray\<close> stores the message's bytes when the length is the message's size.\<close>

definition SerializeToArray :: "size_t \<Rightarrow> size_t \<Rightarrow> string \<Rightarrow> session_buffer \<Rightarrow> bool \<times> session_buffer" where
  "SerializeToArray p len strData b =
     (if len \<noteq> size_of strData then (False, b) else (True, poke p strData b))"

definition WriteDataOnSessionThread ::
    "endian \<Rightarrow> u32 \<Rightarrow> string \<Rightarrow> string \<Rightarrow> 's session option \<Rightarrow> (bool \<times> 's session option \<times> transfer option) option" where
  "WriteDataOnSessionThread e msgType packetHead packetBody pSession =
     (case pSession of
        None \<Rightarrow> Some (False, None, None)
      | Some ses \<Rightarrow>
          let pbPacketHeadLen = ucast (size_of packetHead) :: u32;
              pbPacketBodyLen = ucast (size_of packetBody) :: u32
          in if pbPacketHeadLen + pbPacketBodyLen > 0xffffff then Some (False, Some ses, None)
             else let nPbPacketLen = pbPacketHeadLen + pbPacketBodyLen + 4;
                      nAllDataLen = nPbPacketLen + 12
                  in case SessionGetWriteData (ucast nAllDataLen) ses of
                       None \<Rightarrow> Some (False, Some ses, None)
                     | Some pData \<Rightarrow>
                         let b = buffWrite ses;
                             b = poke (pData + kHeadLen) (store_u32 e (SwapUint32 e pbPacketHeadLen)) b;
                             b = snd (SerializeToArray (pData + kHeadLen + 4) (ucast pbPacketHeadLen) packetHead b);
                             b = snd (SerializeToArray (pData + kHeadLen + 4 + ucast pbPacketHeadLen)
                                        (ucast pbPacketBodyLen) packetBody b);
                             b = poke (pData + 4) (store_u32 e (SwapUint32 e nPbPacketLen)) b;
                             b = poke (pData + 8) (store_u32 e (SwapUint32 e msgType)) b
                         in case CheckCode (drop (unat (pData + 4)) (vecData b)) (ucast (nPbPacketLen + 12) - 4) of
                              None \<Rightarrow> None
                            | Some code \<Rightarrow>
                                let b = poke pData (store_u32 e (SwapUint32 e code)) b;
                                    ses = snd (SessionMoveWritePos (ucast nAllDataLen) (ses\<lparr>buffWrite := b\<rparr>))
                                in (case DoSessionWrite ses of (ses', t) \<Rightarrow> Some (True, Some ses', t)))"

section \<open>Byte order\<close>

abbreviation be32 :: "u32 \<Rightarrow> string" where
  "be32 w \<equiv> store_u32 BigEndian w"

abbreviation get32 :: "string \<Rightarrow> u32" where
  "get32 s \<equiv> load_u32 BigEndian s"

definition join4 :: "u32 \<Rightarrow> u32 \<Rightarrow> u32 \<Rightarrow> u32 \<Rightarrow> u32" where
  "join4 a b c d = take_bit 8 a OR push_bit 8 (take_bit 8 b) OR push_bit 16 (take_bit 8 c) OR push_bit 24 (take_bit 8 d)"

lemma bit_join4:
  "n < 8 \<Longrightarrow> bit (join4 a b c d) n = bit a n"
  "n < 8 \<Longrightarrow> bit (join4 a b c d) (8 + n) = bit b n"
  "n < 8 \<Longrightarrow> bit (join4 a b c d) (16 + n) = bit c n"
  "n < 8 \<Longrightarrow> bit (join4 a b c d) (24 + n) = bit d n"
  by (auto simp: join4_def bit_simps)

lemma less_32_cases:
  assumes "(n :: nat) < 32"
  obtains k where "k < 8" "n = k" | k where "k < 8" "n = 8 + k" | k where "k < 8" "n = 16 + k" | k where "k < 8" "n = 24 + k"
proof -
  have "n < 8 \<or> (n - 8 < 8 \<and> n = 8 + (n - 8)) \<or> (n - 16 < 8 \<and> n = 16 + (n - 16)) \<or> (n - 24 < 8 \<and> n = 24 + (n - 24))"
    using assms by arith
  then show thesis using that by blast
qed

lemma join4_eqI:
  assumes "take_bit 8 v = take_bit 8 a" "take_bit 8 (drop_bit 8 v) = take_bit 8 b"
    "take_bit 8 (drop_bit 16 v) = take_bit 8 c" "take_bit 8 (drop_bit 24 v) = take_bit 8 d"
  shows "v = join4 a b c d"
proof (rule bit_word_eqI)
  fix n assume "n < LENGTH(32)"
  then have "n < 32" by simp
  then show "bit v n = bit (join4 a b c d) n"
  proof (cases rule: less_32_cases)
    case (1 k)
    then show ?thesis using arg_cong [OF assms(1), of "\<lambda>w. bit w k"] by (simp add: bit_join4 bit_take_bit_iff)
  next
    case (2 k)
    then show ?thesis using arg_cong [OF assms(2), of "\<lambda>w. bit w k"] by (simp add: bit_join4 bit_take_bit_iff bit_drop_bit_eq)
  next
    case (3 k)
    then show ?thesis using arg_cong [OF assms(3), of "\<lambda>w. bit w k"] by (simp add: bit_join4 bit_take_bit_iff bit_drop_bit_eq)
  next
    case (4 k)
    then show ?thesis using arg_cong [OF assms(4), of "\<lambda>w. bit w k"] by (simp add: bit_join4 bit_take_bit_iff bit_drop_bit_eq)
  qed
qed

lemma bytes_word_join4: "bytes_word a b c d = join4 (of_char a) (of_char b) (of_char c) (of_char d)"
  by (simp add: bytes_word_def join4_def)

lemma swap_masks:
  "(v AND 0x00ff0000 :: u32) = push_bit 16 (take_bit 8 (drop_bit 16 v))"
  "(v AND 0x0000ff00 :: u32) = push_bit 8 (take_bit 8 (drop_bit 8 v))"
proof -
  have m: "(0x00ff0000 :: u32) = push_bit 16 (mask 8)" "(0x0000ff00 :: u32) = push_bit 8 (mask 8)"
    by (simp_all add: mask_eq_exp_minus_1)
  show "(v AND 0x00ff0000 :: u32) = push_bit 16 (take_bit 8 (drop_bit 16 v))"
    "(v AND 0x0000ff00 :: u32) = push_bit 8 (take_bit 8 (drop_bit 8 v))"
    unfolding m by (rule bit_word_eqI, auto simp: bit_simps)+
qed

lemma swap_join4: "SwapUint32 LittleEndian v = join4 (drop_bit 24 v) (drop_bit 16 v) (drop_bit 8 v) v"
  unfolding SwapUint32.simps swap_masks join4_def
  by (rule bit_word_eqI) (auto simp: bit_simps dest: bit_imp_le_length)

lemma join4_parts:
  "take_bit 8 (join4 a b c d) = take_bit 8 a" "take_bit 8 (drop_bit 8 (join4 a b c d)) = take_bit 8 b"
  "take_bit 8 (drop_bit 16 (join4 a b c d)) = take_bit 8 c" "take_bit 8 (drop_bit 24 (join4 a b c d)) = take_bit 8 d"
  by (rule bit_word_eqI, use bit_join4 [of _ a b c d] in \<open>auto simp: bit_take_bit_iff bit_drop_bit_eq\<close>)+

lemma swap_bytes_word: "SwapUint32 LittleEndian (bytes_word a b c d) = bytes_word d c b a"
  unfolding swap_join4 by (simp only: bytes_word_join4) (rule join4_eqI [symmetric]; simp add: join4_parts)

lemma swap_load: "length s \<ge> 4 \<Longrightarrow> SwapUint32 e (load_u32 e s) = get32 s"
proof -
  assume "length s \<ge> 4"
  then obtain a b c d r where s: "s = a # b # c # d # r"
    by (auto simp: Suc_le_length_iff numeral_eq_Suc)
  show ?thesis
    by (cases e) (simp_all only: s load_u32.simps SwapUint32.simps(1) swap_bytes_word)
qed

lemma store_swap: "store_u32 e (SwapUint32 e w) = be32 w"
proof (cases e)
  case LittleEndian
  note parts = join4_parts [of "drop_bit 24 w" "drop_bit 16 w" "drop_bit 8 w" w, folded swap_join4]
  have "word_byte 0 (SwapUint32 LittleEndian w) = word_byte 3 w"
    "word_byte 1 (SwapUint32 LittleEndian w) = word_byte 2 w"
    "word_byte 2 (SwapUint32 LittleEndian w) = word_byte 1 w"
    "word_byte 3 (SwapUint32 LittleEndian w) = word_byte 0 w"
    using parts by (simp_all add: word_byte_def and_ff del: SwapUint32.simps)
  then show ?thesis by (simp add: LittleEndian del: SwapUint32.simps)
qed simp

section \<open>Frames of a byte stream\<close>

text \<open>
  The abstract view of the protocol: \<open>encode_packet\<close> is the wire format, \<open>split_frame\<close> looks at
  the front of a byte stream, and \<open>decode_stream\<close> dispatches every complete frame and returns
  what is left.
\<close>

definition encode_packet :: "u32 \<Rightarrow> string \<Rightarrow> string" where
  "encode_packet ty payload =
     (let body = be32 (word_of_nat (length payload)) @ be32 ty @ payload
      in be32 (crc32_of body) @ body)"

datatype frame = Incomplete | BadCheck | Frame u32 string string

definition split_frame :: "string \<Rightarrow> frame" where
  "split_frame u =
     (if length u < 12 then Incomplete
      else let n = unat (get32 (drop 4 u))
           in if length u < n + 12 then Incomplete
              else if get32 u \<noteq> crc32_of (take (n + 8) (drop 4 u)) then BadCheck
              else Frame (get32 (drop 8 u)) (take n (drop 12 u)) (drop (n + 12) u))"

lemma split_frame_shorter: "split_frame u = Frame ty p rest \<Longrightarrow> length rest < length u"
  by (auto simp: split_frame_def Let_def split: if_splits)

function decode_stream :: "'s net_pb_module \<Rightarrow> session_id_t \<Rightarrow> string \<Rightarrow> 's \<Rightarrow> bool \<times> string \<times> 's" where
  "decode_stream m sid u s =
     (case split_frame u of
        Incomplete \<Rightarrow> (True, u, s)
      | BadCheck \<Rightarrow> (False, u, s)
      | Frame ty payload rest \<Rightarrow>
          (case ReadPbPacket m sid ty payload s of
             (ok, s') \<Rightarrow> if \<not> ok then (False, u, s') else decode_stream m sid rest s'))"
  by pat_completeness auto
termination
  by (relation "measure (\<lambda>(m, sid, u, s). length u)") (auto dest: split_frame_shorter)

declare decode_stream.simps [simp del]

lemma load_u32_take: "4 \<le> n \<Longrightarrow> load_u32 e (take n s) = load_u32 e s"
proof (cases "(e, s)" rule: load_u32.cases)
  case (1 a b c d r)
  then show "4 \<le> n \<Longrightarrow> ?thesis" by (auto simp: take_Cons' )
next
  case (2 a b c d r)
  then show "4 \<le> n \<Longrightarrow> ?thesis" by (auto simp: take_Cons' )
qed (auto simp: take_Cons' split: if_splits)

lemma load_u32_drop_take: "k + 4 \<le> n \<Longrightarrow> load_u32 e (drop k (take n s)) = load_u32 e (drop k s)"
  by (simp add: drop_take load_u32_take)

text \<open>One iteration of the loop of \<open>ReadData\<close>, over the unread bytes.\<close>

lemma ReadData_unfold:
  assumes inv: "buffer_inv buf" and small: "length (unread buf) < 2 ^ 32"
  shows "ReadData e m sid buf s =
    (case split_frame (unread buf) of
       Incomplete \<Rightarrow> Some (True, buf, s)
     | BadCheck \<Rightarrow> Some (False, buf, s)
     | Frame ty payload rest \<Rightarrow>
         (case ReadPbPacket m sid ty payload s of
            (ok, s') \<Rightarrow> if \<not> ok then Some (False, buf, s')
              else ReadData e m sid (RemoveData (word_of_nat (length payload + 12)) buf) s'))"
proof -
  define u where "u = unread buf"
  define r where "r = GetReadData buf"
  have len: "length u = unat (GetReadableSize buf)" by (simp add: u_def length_unread [OF inv])
  have u: "u = take (length u) r" by (simp add: u_def r_def len [unfolded u_def]) (simp add: unread_def)
  have lr: "length u \<le> length r" using u by (metis length_take min.cobounded2 min.commute)
  show ?thesis
  proof (cases "12 \<le> length u")
    case False
    then have "\<not> kHeadLen \<le> GetReadableSize buf" by (simp add: sz_order kHeadLen_def len)
    then show ?thesis
      using False by (subst ReadData.simps) (simp add: split_frame_def u_def)
  next
    case True
    then have h: "kHeadLen \<le> GetReadableSize buf" by (simp add: sz_order kHeadLen_def len)
    have k12: "unat kHeadLen = 12" by (simp add: kHeadLen_def)
    define n where "n = unat (get32 (drop 4 u))"
    have g: "SwapUint32 e (load_u32 e (drop k r)) = get32 (drop k u)" if "k \<le> 8" for k
      using that True lr load_u32_drop_take [of k "length u" BigEndian r] by (simp add: swap_load u [symmetric])
    define packetLen :: size_t where "packetLen = ucast (get32 (drop 4 u))"
    have pl: "unat packetLen = n" by (simp add: packetLen_def n_def)
    have "n < 2 ^ 32" using unsigned_less [of "get32 (drop 4 u)", where ?'a = nat] by (simp add: n_def)
    then have pk: "unat (packetLen + kHeadLen) = n + 12"
      by (subst unat_sz_add) (simp_all add: pl kHeadLen_def)
    then have pk4: "unat (packetLen + kHeadLen - 4) = n + 8"
      by (subst unat_sz_sub) simp_all
    have wn: "word_of_nat (n + 12) = packetLen + kHeadLen"
      using arg_cong [OF pk, of "word_of_nat :: nat \<Rightarrow> size_t"] by (simp only: of_nat_unat ucast_id)
    show ?thesis
    proof (cases "length u < n + 12")
      case True
      then have "GetReadableSize buf < packetLen + kHeadLen" by (simp add: sz_order pk len)
      then show ?thesis
        using True h g [of 4] \<open>12 \<le> length u\<close>
        by (subst ReadData.simps) (simp add: Let_def r_def [symmetric] packetLen_def [symmetric] split_frame_def u_def [symmetric] n_def [symmetric])
    next
      case False
      then have nl: "\<not> GetReadableSize buf < packetLen + kHeadLen" by (simp add: sz_order pk len)
      have cc: "CheckCode (drop 4 r) (packetLen + kHeadLen - 4) = Some (crc32_of (take (n + 8) (drop 4 u)))"
      proof -
        have "take (n + 8) (drop 4 u) = take (n + 8) (drop 4 r)"
          using False by (subst u) (simp add: drop_take min_def)
        then show ?thesis
          using False small lr unfolding CheckCode_def u_def [symmetric]
          by (subst CRC32_eq) (simp_all add: pk4)
      qed
      have pay: "take n (drop 12 r) = take n (drop 12 u)"
        using False by (subst u) (simp add: drop_take min_def)
      have lp: "length (take n (drop 12 u)) = n" using False by simp
      show ?thesis
        using h nl g [of 0] g [of 4] g [of 8] False \<open>12 \<le> length u\<close> pay
        by (subst ReadData.simps, cases "ReadPbPacket m sid (get32 (drop 8 u)) (take n (drop 12 u)) s")
          (simp add: Let_def r_def [symmetric] packetLen_def [symmetric] split_frame_def u_def [symmetric]
            n_def [symmetric] cc pl wn k12 del: of_nat_add)
    qed
  qed
qed

lemma split_frame_length: "split_frame u = Frame ty p rest \<Longrightarrow> length u = length p + 12 + length rest \<and> rest = drop (length p + 12) u"
  by (auto simp: split_frame_def Let_def split: if_splits)

lemma ReadData_decodes:
  assumes "buffer_inv buf" "length (unread buf) < 2 ^ 32"
  shows "\<exists>buf'. ReadData e m sid buf s =
      (case decode_stream m sid (unread buf) s of (ok, rest, s') \<Rightarrow> Some (ok, buf', s')) \<and>
    unread buf' = fst (snd (decode_stream m sid (unread buf) s)) \<and> drained buf buf'"
  using assms
proof (induction "length (unread buf)" arbitrary: buf s rule: less_induct)
  case less
  note unf = ReadData_unfold [OF less.prems, of e m sid s] and dec = decode_stream.simps [of m sid "unread buf" s]
  show ?case
  proof (cases "split_frame (unread buf)")
    case Incomplete
    have "ReadData e m sid buf s = Some (True, buf, s)" "decode_stream m sid (unread buf) s = (True, unread buf, s)"
      unfolding unf dec Incomplete by simp_all
    then show ?thesis using drained_refl [OF less.prems(1)] by (intro exI [of _ buf]) simp
  next
    case BadCheck
    have "ReadData e m sid buf s = Some (False, buf, s)" "decode_stream m sid (unread buf) s = (False, unread buf, s)"
      unfolding unf dec BadCheck by simp_all
    then show ?thesis using drained_refl [OF less.prems(1)] by (intro exI [of _ buf]) simp
  next
    case (Frame ty payload rest)
    let ?n = "word_of_nat (length payload + 12) :: size_t"
    let ?b = "RemoveData ?n buf"
    obtain ok s' where rp: "ReadPbPacket m sid ty payload s = (ok, s')" by fastforce
    show ?thesis
    proof (cases ok)
      case True
      have sp: "length (unread buf) = length payload + 12 + length rest" "drop (length payload + 12) (unread buf) = rest"
        using split_frame_length [OF Frame] by (blast, blast)
      have rd: "ReadData e m sid buf s = ReadData e m sid ?b s'"
        and dc: "decode_stream m sid (unread buf) s = decode_stream m sid rest s'"
        unfolding unf dec Frame using True rp by simp_all
      have "length payload + 12 < 2 ^ 64" using sp(1) less.prems(2) by simp
      then have "unat ?n = length payload + 12"
        by (rule unat_of_nat_size)
      then have rest: "unread ?b = rest"
        using sp(2) unread_RemoveData [OF less.prems(1), of ?n] by (simp only:)
      then have "length (unread ?b) < length (unread buf)" "length (unread ?b) < 2 ^ 32" "buffer_inv ?b"
        using sp(1) less.prems RemoveData_inv [of buf ?n] by (simp_all del: of_nat_add)
      from less.hyps [OF this(1,3,2), of s'] obtain buf' where
        "ReadData e m sid ?b s' = (case decode_stream m sid rest s' of (ok, _, s'') \<Rightarrow> Some (ok, buf', s''))"
        "unread buf' = fst (snd (decode_stream m sid rest s'))" "drained ?b buf'"
        unfolding rest by blast
      then show ?thesis
        unfolding rd dc using drained_trans [OF drained_RemoveData [OF less.prems(1)]] by blast
    next
      case False
      have "ReadData e m sid buf s = Some (False, buf, s')" "decode_stream m sid (unread buf) s = (False, unread buf, s')"
        unfolding unf dec Frame using False rp by simp_all
      then show ?thesis using drained_refl [OF less.prems(1)] by (intro exI [of _ buf]) simp
    qed
  qed
qed

section \<open>Fragmentation\<close>

lemma split_frame_append:
  assumes "split_frame u \<noteq> Incomplete"
  shows "split_frame (u @ v) =
    (case split_frame u of Incomplete \<Rightarrow> Incomplete | BadCheck \<Rightarrow> BadCheck | Frame ty p rest \<Rightarrow> Frame ty p (rest @ v))"
proof -
  have len: "12 \<le> length u" "unat (get32 (drop 4 u)) + 12 \<le> length u"
    using assms by (auto simp: split_frame_def Let_def split: if_splits)
  have g: "get32 (drop k (u @ v)) = get32 (drop k u)" if "k \<le> 8" for k
  proof -
    have "get32 (drop k (take (length u) (u @ v))) = get32 (drop k (u @ v))"
      using that len(1) by (intro load_u32_drop_take) simp
    then show ?thesis by simp
  qed
  show ?thesis
    using len g [of 0] g [of 4] g [of 8] by (simp add: split_frame_def Let_def)
qed

lemma decode_stream_append:
  "decode_stream m sid u s = (ok, r, s') \<Longrightarrow>
   decode_stream m sid (u @ v) s = (if ok then decode_stream m sid (r @ v) s' else (False, r @ v, s'))"
proof (induction m sid u s rule: decode_stream.induct)
  case (1 m sid u s)
  show ?case
  proof (cases "split_frame u")
    case Incomplete
    with 1 show ?thesis by (simp add: decode_stream.simps [of m sid u s])
  next
    case BadCheck
    then have "split_frame (u @ v) = BadCheck" by (simp add: split_frame_append)
    with BadCheck 1 show ?thesis by (simp add: decode_stream.simps)
  next
    case (Frame ty p rest)
    then have f: "split_frame (u @ v) = Frame ty p (rest @ v)" by (simp add: split_frame_append)
    obtain ok' s1 where rp: "ReadPbPacket m sid ty p s = (ok', s1)" by fastforce
    show ?thesis
    proof (cases ok')
      case True
      then have "decode_stream m sid u s = decode_stream m sid rest s1"
        "decode_stream m sid (u @ v) s = decode_stream m sid (rest @ v) s1"
        using Frame f rp by (simp_all add: decode_stream.simps [of m sid u s] decode_stream.simps [of m sid "u @ v" s])
      with 1 Frame rp True show ?thesis by simp
    next
      case False
      then have "decode_stream m sid u s = (False, u, s1)" "decode_stream m sid (u @ v) s = (False, u @ v, s1)"
        using Frame f rp by (simp_all add: decode_stream.simps [of m sid u s] decode_stream.simps [of m sid "u @ v" s])
      with 1(2) show ?thesis by simp
    qed
  qed
qed

text \<open>The packet reader meets the contract of a read callback.\<close>

interpretation pbr: stream_reader "ReadData e m" "decode_stream m" for e m
  by unfold_locales (rule ReadData_decodes, assumption+, rule decode_stream_append)

section \<open>Encoded packets\<close>

lemma get32_be32: "get32 (be32 w @ s) = w"
  by (rule load_store_u32)

lemma split_frame_encode:
  assumes "length p < 2 ^ 32"
  shows "split_frame (encode_packet ty p @ v) = Frame ty p v"
proof -
  have "unat (word_of_nat (length p) :: u32) = length p" using assms by (simp add: unat_of_nat)
  moreover have "drop 4 (be32 a @ s) = s" "drop 8 (be32 a @ be32 b @ s) = s" "drop 12 (be32 a @ be32 b @ be32 c @ s) = s" for a b c s
    by simp_all
  ultimately show ?thesis
    by (simp add: split_frame_def encode_packet_def Let_def get32_be32 del: store_u32.simps)
qed

lemma length_encode_packet: "length (encode_packet ty p) = length p + 12"
  by (simp add: encode_packet_def Let_def del: store_u32.simps)

lemma decode_stream_encode:
  assumes "length p < 2 ^ 32" "ReadPbPacket m sid ty p s = (True, s')"
  shows "decode_stream m sid (encode_packet ty p @ v) s = decode_stream m sid v s'"
  using assms by (subst decode_stream.simps) (simp add: split_frame_encode)

text \<open>
  A stream of encoded packets, and the packets dispatched in order. \<open>handled\<close> says that a message
  type has a handler of its own or falls to the default one.
\<close>

definition encode_packets :: "(u32 \<times> string) list \<Rightarrow> string" where
  "encode_packets ps = concat (map (\<lambda>(ty, p). encode_packet ty p) ps)"

definition dispatch_all :: "'s net_pb_module \<Rightarrow> session_id_t \<Rightarrow> (u32 \<times> string) list \<Rightarrow> 's \<Rightarrow> 's" where
  "dispatch_all m sid ps s = fold (\<lambda>(ty, p) s. snd (ReadPbPacket m sid ty p s)) ps s"

definition handled :: "'s net_pb_module \<Rightarrow> u32 \<Rightarrow> bool" where
  "handled m ty \<longleftrightarrow> mapPackethandle m ty \<noteq> None \<or> funDefaultPacketHandle m \<noteq> None"

definition packets_ok :: "'s net_pb_module \<Rightarrow> nat \<Rightarrow> (u32 \<times> string) list \<Rightarrow> bool" where
  "packets_ok m L ps \<longleftrightarrow> (\<forall>(ty, p) \<in> set ps. handled m ty \<and> length p + 12 \<le> L)"

lemma ReadPbPacket_handled: "handled m ty \<Longrightarrow> ReadPbPacket m sid ty p s = (True, snd (ReadPbPacket m sid ty p s))"
  by (auto simp: handled_def ReadPbPacket_def split: option.splits)

lemma encode_packets_Cons [simp]: "encode_packets ((ty, p) # ps) = encode_packet ty p @ encode_packets ps"
  by (simp add: encode_packets_def)

lemma encode_packets_Nil [simp]: "encode_packets [] = []"
  by (simp add: encode_packets_def)

lemma dispatch_all_simps [simp]:
  "dispatch_all m sid [] s = s"
  "dispatch_all m sid ((ty, p) # ps) s = dispatch_all m sid ps (snd (ReadPbPacket m sid ty p s))"
  by (simp_all add: dispatch_all_def)

lemma split_frame_prefix:
  assumes "c @ d = encode_packet ty p @ v" "length c < length p + 12" "length p < 2 ^ 32"
  shows "split_frame c = Incomplete"
proof (rule ccontr)
  assume "split_frame c \<noteq> Incomplete"
  then have "split_frame (c @ d) =
      (case split_frame c of Incomplete \<Rightarrow> Incomplete | BadCheck \<Rightarrow> BadCheck | Frame ty p rest \<Rightarrow> Frame ty p (rest @ d))"
    and ne: "split_frame c \<noteq> Incomplete"
    by (simp_all add: split_frame_append)
  moreover have "split_frame (c @ d) = Frame ty p v"
    using assms by (simp add: split_frame_encode)
  ultimately obtain rest where "split_frame c = Frame ty p rest"
    by (cases "split_frame c") auto
  then have "length p + 12 \<le> length c" using split_frame_length by fastforce
  with assms(2) show False by simp
qed

text \<open>What \<open>decode_stream\<close> does on a prefix of a stream of encoded packets.\<close>

definition decoded_upto :: "'s net_pb_module \<Rightarrow> session_id_t \<Rightarrow> (u32 \<times> string) list \<Rightarrow> string \<Rightarrow> string \<Rightarrow> 's \<Rightarrow> 's \<Rightarrow> (u32 \<times> string) list \<Rightarrow> bool" where
  "decoded_upto m sid ps r d s s' qs \<longleftrightarrow>
     (\<exists>ds. ps = ds @ qs \<and> s' = dispatch_all m sid ds s) \<and> r @ d = encode_packets qs \<and>
     (case qs of [] \<Rightarrow> r = [] | (ty, p) # _ \<Rightarrow> length r < length p + 12)"

lemma decode_prefix:
  assumes "packets_ok m L ps" "L < 2 ^ 32" "c @ d = encode_packets ps"
  shows "\<exists>r s' qs. decode_stream m sid c s = (True, r, s') \<and> decoded_upto m sid ps r d s s' qs"
  using assms
proof (induction ps arbitrary: c s)
  case Nil
  then have "decode_stream m sid c s = (True, [], s)"
    by (subst decode_stream.simps) (simp add: split_frame_def)
  then show ?case using Nil by (auto simp: decoded_upto_def)
next
  case (Cons tp ps)
  obtain ty p where tp: "tp = (ty, p)" by fastforce
  have ok: "handled m ty" "length p < 2 ^ 32" "packets_ok m L ps"
    using Cons.prems by (auto simp: tp packets_ok_def)
  show ?case
  proof (cases "length c < length p + 12")
    case True
    have "split_frame c = Incomplete"
      using Cons.prems(3) True ok(2) by (intro split_frame_prefix [of c d ty p "encode_packets ps"]) (simp_all add: tp)
    then have "decode_stream m sid c s = (True, c, s)" by (subst decode_stream.simps) simp
    moreover have "decoded_upto m sid (tp # ps) c d s s (tp # ps)"
      using Cons.prems(3) True by (auto simp: decoded_upto_def tp)
    ultimately show ?thesis by blast
  next
    case False
    let ?s1 = "snd (ReadPbPacket m sid ty p s)"
    obtain c' where c: "c = encode_packet ty p @ c'" "c' @ d = encode_packets ps"
    proof
      have "length (encode_packet ty p) \<le> length c" using False by (simp add: length_encode_packet)
      then have "take (length (encode_packet ty p)) c = encode_packet ty p"
        "drop (length (encode_packet ty p)) c @ d = encode_packets ps"
        using arg_cong [OF Cons.prems(3), of "take (length (encode_packet ty p))"]
          arg_cong [OF Cons.prems(3), of "drop (length (encode_packet ty p))"] by (simp_all add: tp)
      then show "c = encode_packet ty p @ drop (length (encode_packet ty p)) c"
        "drop (length (encode_packet ty p)) c @ d = encode_packets ps"
        by (metis append_take_drop_id, simp)
    qed
    have "decode_stream m sid c s = decode_stream m sid c' ?s1"
      unfolding c(1) by (rule decode_stream_encode [OF ok(2) ReadPbPacket_handled [OF ok(1)]])
    moreover obtain r s' qs where "decode_stream m sid c' ?s1 = (True, r, s')" "decoded_upto m sid ps r d ?s1 s' qs"
      using Cons.IH [OF ok(3) Cons.prems(2) c(2)] by blast
    moreover from this(2) have "decoded_upto m sid (tp # ps) r d s s' qs"
      unfolding decoded_upto_def tp by (metis append_Cons dispatch_all_simps(2))
    ultimately show ?thesis by auto
  qed
qed

section \<open>A session under any fragmentation\<close>

lemma decoded_upto_trans:
  assumes "decoded_upto m sid ps r d s s1 qs" "decoded_upto m sid qs r' d' s1 s2 qs'"
  shows "decoded_upto m sid ps r' d' s s2 qs'"
proof -
  obtain ds where ds: "ps = ds @ qs" "s1 = dispatch_all m sid ds s" using assms(1) by (auto simp: decoded_upto_def)
  obtain ds' where ds': "qs = ds' @ qs'" "s2 = dispatch_all m sid ds' s1" using assms(2) by (auto simp: decoded_upto_def)
  have "ps = (ds @ ds') @ qs'" "s2 = dispatch_all m sid (ds @ ds') s"
    using ds ds' by (simp_all add: dispatch_all_def)
  then show ?thesis using assms(2) unfolding decoded_upto_def by blast
qed

lemma receive_packets:
  assumes "reader_ok (ReadData e m) M ses" "packets_ok m L ps" "L + 2 * K \<le> M" "M < 2 ^ 32"
    and "\<forall>n \<in> set ns. Suc n \<le> K" "unread (buffRead ses) @ pending = encode_packets ps"
    and "case ps of [] \<Rightarrow> unread (buffRead ses) = [] | (ty, p) # _ \<Rightarrow> length (unread (buffRead ses)) < length p + 12"
  shows "\<exists>pending' ses' s' qs. receive ns pending ses s = Some (False, pending', ses', s') \<and>
    decoded_upto m (nSessionId ses) ps (unread (buffRead ses')) pending' s s' qs \<and>
    length pending' \<le> length pending - length ns"
  using assms
proof (induction ns arbitrary: pending ses s ps)
  case Nil
  then show ?case
    by (intro exI [of _ pending] exI [of _ ses] exI [of _ s] exI [of _ ps]) (auto simp: decoded_upto_def split: list.splits)
next
  case (Cons n ns)
  let ?u = "unread (buffRead ses)"
  define c where "c = take (min (Suc n) (unat (CurrentWritableSize (buffRead ses)))) pending"
  show ?case
  proof (cases "c = []")
    case True
    moreover from this have "pending = []" using Cons.prems(1) by (auto simp: c_def reader_ok_def)
    moreover have "decoded_upto m (nSessionId ses) ps ?u [] s s ps"
      using Cons.prems(6,7) \<open>pending = []\<close> by (auto simp: decoded_upto_def split: list.splits)
    ultimately show ?thesis by (auto simp: c_def Let_def)
  next
    case False
    let ?rest = "drop (length c) pending"
    have c: "length c \<le> unat (CurrentWritableSize (buffRead ses))" "length c \<le> K"
      using Cons.prems(5) by (auto simp: c_def)
    have pend: "pending = c @ ?rest" unfolding c_def by (rule take_append_drop_length [symmetric])
    have "length ?u \<le> L"
      using Cons.prems(2,7) by (auto simp: packets_ok_def split: list.splits)
    then have fits: "length ?u + 2 * length c \<le> M" using Cons.prems(3) c(2) by linarith
    have L32: "L < 2 ^ 32" using Cons.prems(3,4) by linarith
    have "(?u @ c) @ ?rest = encode_packets ps" using Cons.prems(6) pend by simp
    then obtain r s1 qs where dec: "decode_stream m (nSessionId ses) (?u @ c) s = (True, r, s1)"
        "decoded_upto m (nSessionId ses) ps r ?rest s s1 qs"
      using decode_prefix [OF Cons.prems(2) L32] by blast
    obtain ses1 where s1: "DoSessionRead_completion (IoBytes c) ses s =
        Some \<lparr>closeAsked = False, readAgain = True, resSession = ses1, resState = s1\<rparr>"
        "reader_ok (ReadData e m) M ses1" "unread (buffRead ses1) = r" "nSessionId ses1 = nSessionId ses"
      using pbr.read_chunk [OF Cons.prems(1) False c(1) fits Cons.prems(4) dec(1)] by auto
    have qs: "packets_ok m L qs" "r @ ?rest = encode_packets qs"
        "case qs of [] \<Rightarrow> r = [] | (ty, p) # _ \<Rightarrow> length r < length p + 12"
      using dec(2) Cons.prems(2) by (auto simp: decoded_upto_def packets_ok_def)
    obtain pending' ses' s' qs' where
      rec: "receive ns ?rest ses1 s1 = Some (False, pending', ses', s')"
        "decoded_upto m (nSessionId ses) qs (unread (buffRead ses')) pending' s1 s' qs'"
        "length pending' \<le> length ?rest - length ns"
      using Cons.IH [OF s1(2) qs(1) Cons.prems(3,4) _ _ , of ?rest s1] Cons.prems(5) qs(2,3) s1(3,4) by auto
    have "decoded_upto m (nSessionId ses) ps (unread (buffRead ses')) pending' s s' qs'"
      using dec(2) rec(2) by (rule decoded_upto_trans)
    moreover have "length pending' \<le> length pending - length (n # ns)"
      using rec(3) False by (cases c) auto
    moreover have "receive (n # ns) pending ses s = Some (False, pending', ses', s')"
      using False s1(1) rec(1) by (simp add: c_def [symmetric] Let_def)
    ultimately show ?thesis by blast
  qed
qed

section \<open>Sending produces encoded packets\<close>

definition message_payload :: "string \<Rightarrow> string \<Rightarrow> string" where
  "message_payload head body = be32 (word_of_nat (length head)) @ head @ body"

lemma poke_layout:
  assumes "p + 16 + length head + length body \<le> length v"
  shows "overwrite (p + 8) (be32 ty) (overwrite (p + 4) (be32 n) (overwrite (p + 16 + length head) body
      (overwrite (p + 16) head (overwrite (p + 12) (be32 h) v)))) =
    overwrite (p + 4) (be32 n @ be32 ty @ be32 h @ head @ body) v"
proof -
  let ?pay = "be32 h @ head @ body"
  have "overwrite (p + 16) head (overwrite (p + 12) (be32 h) v) = overwrite (p + 12) (be32 h @ head) v"
    using overwrite_append [of "p + 12" "be32 h" head v] assms by (simp add: ac_simps del: store_u32.simps)
  moreover have "overwrite (p + 16 + length head) body (overwrite (p + 12) (be32 h @ head) v) = overwrite (p + 12) ?pay v"
    using overwrite_append [of "p + 12" "be32 h @ head" body v] assms by (simp add: ac_simps del: store_u32.simps)
  moreover have "overwrite (p + 8) (be32 ty) (overwrite (p + 4) (be32 n) w) = overwrite (p + 4) (be32 n @ be32 ty) w"
    if "length w = length v" for w
    using overwrite_append [of "p + 4" "be32 n" "be32 ty" w] assms that by (simp add: ac_simps del: store_u32.simps)
  moreover have "overwrite (p + 4) (be32 n @ be32 ty) (overwrite (p + 12) ?pay v) = overwrite (p + 4) ((be32 n @ be32 ty) @ ?pay) v"
    using overwrite_before [of "p + 4" "be32 n @ be32 ty" ?pay v] assms by (simp add: ac_simps del: store_u32.simps)
  ultimately show ?thesis using assms by (simp del: store_u32.simps)
qed

lemma length_message_payload [simp]: "length (message_payload head body) = 4 + length head + length body"
  by (simp add: message_payload_def del: store_u32.simps)

lemma WriteDataOnSessionThread_ok:
  assumes inv: "buffer_inv (buffWrite ses)"
    and size: "length head + length body \<le> 0xffffff"
    and room: "length head + length body + 16 \<le> unat (CurrentWritableSize (buffWrite ses))"
  shows "WriteDataOnSessionThread e ty head body (Some ses) =
    (case DoSessionWrite (ses\<lparr>buffWrite := commit (encode_packet ty (message_payload head body)) (buffWrite ses)\<rparr>) of
       (ses', t) \<Rightarrow> Some (True, Some ses', t))"
proof -
  define b where "b = buffWrite ses"
  define n where "n = length head + length body + 4"
  define h :: u32 where "h = ucast (size_of head)"
  define l :: u32 where "l = ucast (size_of body)"
  define P where "P = encode_packet ty (message_payload head body)"
  note bounds = buffer_inv_bounds [OF inv, folded b_def]
  have sz: "unat (size_of head) = length head" "unat (size_of body) = length body"
    using size by (simp_all add: unat_size_of)
  have cast: "unat (ucast w :: u32) = unat w" if "unat w < 2 ^ 32" for w :: size_t
    using that by (simp add: unsigned_ucast_eq take_bit_nat_eq_self_iff)
  have h: "unat h = length head" and l: "unat l = length body"
    using size by (simp_all add: h_def l_def cast sz)
  have hw: "h = word_of_nat (length head)" "ucast h = size_of head" "ucast l = size_of body"
    using h l sz size by (simp_all add: word_unat_eq_iff unat_of_nat_u32)
  have hl: "unat (h + l) = length head + length body"
    using size h l by (simp add: unat_word_ariths)
  have n32: "n + 12 < 2 ^ 32" using size by (simp add: n_def)
  define N where "N = h + l + 4"
  have n4: "unat N = n"
    using size hl unfolding N_def by (subst unat_word_ariths) (simp add: n_def)
  define A where "A = N + 12"
  have n16: "unat A = n + 12"
    using n32 n4 unfolding A_def by (subst unat_word_ariths) simp
  have nw: "N = word_of_nat n"
    using n4 n32 by (simp add: word_unat_eq_iff unat_of_nat_u32)
  note nl = nw n4 n16
  have guard: "\<not> 0xffffff < h + l" using hl size by (simp add: word_less_nat_alt)
  have wr: "unat (nWritePos b) + n + 12 \<le> length (vecData b)"
    using room bounds unat_CurrentWritableSize [OF inv] by (simp add: b_def n_def)
  have gw: "SessionGetWriteData (ucast A) ses = Some (nWritePos b)"
    using room by (simp add: SessionGetWriteData_def GetWriteDataLen_def GetWriteData_def b_def sz_order n16 not_less)
      (simp add: n_def)
  have off: "unat (v + w) = unat (nWritePos b) + k + unat w"
    if "unat v = unat (nWritePos b) + k" "k + unat w \<le> n + 12" for v w :: size_t and k
  proof -
    have "unat v + unat w < 2 ^ 64" using wr bounds that by linarith
    from unat_sz_add [OF this] show ?thesis using that(1) by (simp only:)
  qed
  have o1: "unat (nWritePos b + kHeadLen) = unat (nWritePos b) + 12"
    using off [of "nWritePos b" 0 kHeadLen] by (simp add: kHeadLen_def)
  have o2: "unat (nWritePos b + kHeadLen + 4) = unat (nWritePos b) + 16"
    using off [OF o1, of 4] by (simp add: n_def)
  have o3: "unat (nWritePos b + kHeadLen + 4 + ucast h) = unat (nWritePos b) + 16 + length head"
    using off [OF o2, of "ucast h"] h by (simp add: n_def)
  have o4: "unat (nWritePos b + 4) = unat (nWritePos b) + 4" "unat (nWritePos b + 8) = unat (nWritePos b) + 8"
    using off [of "nWritePos b" 0 4] off [of "nWritePos b" 0 8] by (simp_all add: n_def)
  note o = o1 o2 o3 [unfolded hw(2)] o4
  define tail where "tail = be32 (word_of_nat n) @ be32 ty @ message_payload head body"
  have lt: "length tail = n + 8" by (simp add: tail_def n_def del: store_u32.simps)
  define c where "c = b\<lparr>vecData := overwrite (unat (nWritePos b) + 4) tail (vecData b)\<rparr>"
  have c: "poke (nWritePos b + 8) (store_u32 e (SwapUint32 e ty))
        (poke (nWritePos b + 4) (store_u32 e (SwapUint32 e N))
          (snd (SerializeToArray (nWritePos b + kHeadLen + 4 + ucast h) (ucast l) body
            (snd (SerializeToArray (nWritePos b + kHeadLen + 4) (ucast h) head
              (poke (nWritePos b + kHeadLen) (store_u32 e (SwapUint32 e h)) b)))))) = c"
    using poke_layout [of "unat (nWritePos b)" head body "vecData b" ty N h] wr
    by (simp add: store_swap poke_def SerializeToArray_def o hw(2,3) c_def tail_def message_payload_def
        hw(1) [symmetric] nw [symmetric] del: store_u32.simps) (simp add: n_def)
  have code: "CheckCode (drop (unat (nWritePos b + 4)) (vecData c)) (ucast A - 4) = Some (crc32_of tail)"
  proof -
    have "drop (unat (nWritePos b) + 4) (vecData c) = tail @ drop (unat (nWritePos b) + 4 + length tail) (vecData b)"
      using wr by (simp add: c_def drop_overwrite)
    moreover have "unat (ucast A - 4 :: size_t) = n + 8"
      by (subst unat_sz_sub) (simp_all add: nl)
    ultimately show ?thesis
      using size by (simp add: CheckCode_def o CRC32_eq lt n_def)
  qed
  have P: "P = be32 (crc32_of tail) @ tail"
    by (simp add: P_def encode_packet_def Let_def tail_def n_def ac_simps del: store_u32.simps)
  have lP: "length P = n + 12" by (simp add: P lt del: store_u32.simps)
  have fin: "snd (SessionMoveWritePos (ucast A)
      (ses\<lparr>buffWrite := poke (nWritePos b) (store_u32 e (SwapUint32 e (crc32_of tail))) c\<rparr>)) =
    ses\<lparr>buffWrite := commit P b\<rparr>"
  proof -
    have v: "overwrite (unat (nWritePos b)) (be32 (crc32_of tail)) (vecData c) = overwrite (unat (nWritePos b)) P (vecData b)"
      using overwrite_before [of "unat (nWritePos b)" "be32 (crc32_of tail)" tail "vecData b"] wr
      by (simp add: c_def P lt del: store_u32.simps)
    have sP: "size_of P = ucast A"
      using size by (simp add: word_unat_eq_iff nl unat_size_of lP n_def)
    have inv': "buffer_inv (b\<lparr>vecData := overwrite (unat (nWritePos b)) P (vecData b)\<rparr>)"
      using inv wr by (simp add: buffer_inv_def b_def lP)
    have pk: "poke (nWritePos b) (store_u32 e (SwapUint32 e (crc32_of tail))) c =
        b\<lparr>vecData := overwrite (unat (nWritePos b)) P (vecData b)\<rparr>"
      using v by (simp add: poke_def store_swap c_def del: store_u32.simps)
    have "unat (ucast A :: size_t) \<le> length (vecData b) - unat (nWritePos b)"
      using wr by (simp add: nl)
    then have "MoveWritePos (ucast A) (b\<lparr>vecData := overwrite (unat (nWritePos b)) P (vecData b)\<rparr>) = (True, commit P b)"
      using MoveWritePos_in_range [OF inv'] wr by (simp add: commit_def poke_def sP lP)
    then show ?thesis by (simp add: SessionMoveWritePos_def pk)
  qed
  show ?thesis
    unfolding WriteDataOnSessionThread_def
    by (simp only: option.case Let_def h_def [symmetric] l_def [symmetric] N_def [symmetric] A_def [symmetric]
        b_def [symmetric] P_def [symmetric] guard if_False gw c code fin)
qed

section \<open>A message end to end\<close>

lemma PaserPbHead_payload:
  assumes "length head + length body + 4 < 2 ^ 32" "parse head = Some h"
  shows "PaserPbHead e parse (message_payload head body) = Some (h, body)"
proof -
  let ?d = "message_payload head body"
  have sz: "unat (size_of ?d) = length head + length body + 4"
    using assms(1) by (subst unat_size_of) simp_all
  have "GetPacketHeadLength e ?d = get32 ?d"
    unfolding GetPacketHeadLength_def by (rule swap_load) simp
  also have "\<dots> = word_of_nat (length head)"
    by (simp only: message_payload_def get32_be32)
  finally have hl: "GetPacketHeadLength e ?d = word_of_nat (length head)" .
  have uh: "unat (word_of_nat (length head) :: u32) = length head"
    using assms(1) by (intro unat_of_nat_u32) simp
  have len4: "unat (ucast (word_of_nat (length head) :: u32) + 4 :: size_t) = length head + 4"
    using assms(1) by (subst unat_sz_add) (simp_all add: uh)
  have "unat (ucast (size_of ?d) :: u32) = length head + length body + 4"
    using assms(1) sz by (simp add: unsigned_ucast_eq take_bit_nat_eq_self_iff)
  then have "ucast (size_of ?d) = (word_of_nat (length head + length body + 4) :: u32)"
    using assms(1) by (simp add: word_unat_eq_iff unat_of_nat_u32 del: of_nat_add)
  then have "ucast (size_of ?d) - word_of_nat (length head) - 4 = (word_of_nat (length body) :: u32)"
    by simp
  moreover have "unat (word_of_nat (length body) :: u32) = length body"
    using assms(1) by (intro unat_of_nat_u32) simp
  moreover have "drop 4 ?d = head @ body"
    by (simp add: message_payload_def del: store_u32.simps)
  ultimately show ?thesis
    using assms(2) by (simp add: PaserPbHead_def Let_def hl sz_order sz len4 uh)
qed

lemma decode_registered:
  assumes "length head + length body + 4 < 2 ^ 32" "parseHead head = Some h" "parseBody body = Some b" "checkTTL h"
  shows "decode_stream (RegisterHandleHelper e' parseHead checkTTL parseBody ty func m) sid
      (encode_packet ty (message_payload head body)) q = (True, [], q @ [func sid h b])"
proof -
  let ?m = "RegisterHandleHelper e' parseHead checkTTL parseBody ty func m"
  have rp: "ReadPbPacket ?m sid ty (message_payload head body) q = (True, q @ [func sid h b])"
    using assms by (simp add: RegisterHandleHelper_def RegisterPacketHandle_def ReadPbPacket_def
        GeneratePaserPacketFunc_def PaserPbHead_payload)
  have "decode_stream ?m sid (encode_packet ty (message_payload head body) @ []) q =
      decode_stream ?m sid [] (q @ [func sid h b])"
    using assms(1) by (intro decode_stream_encode [OF _ rp]) simp
  also have "\<dots> = (True, [], q @ [func sid h b])"
    by (subst decode_stream.simps) (simp add: split_frame_def)
  finally show ?thesis by simp
qed

section \<open>Corruption\<close>

lemma be32_append_eq: "be32 a @ x = be32 b @ y \<longleftrightarrow> be32 a = be32 b \<and> x = y"
  by (simp add: append_eq_append_conv del: store_u32.simps)

lemma split_frame_corrupted:
  assumes "be32 ty @ p = pre @ w @ post" "length w' = length w" "length w \<le> 4" "w' \<noteq> w" "length p < 2 ^ 32"
  shows "split_frame (be32 (crc32_of (be32 (word_of_nat (length p)) @ be32 ty @ p)) @
      be32 (word_of_nat (length p)) @ (pre @ w' @ post) @ v) = BadCheck"
proof -
  let ?l = "be32 (word_of_nat (length p))"
  have len: "length (pre @ w' @ post) = length p + 4"
    using arg_cong [OF assms(1), of length] assms(2) by (simp del: store_u32.simps)
  have u: "unat (word_of_nat (length p) :: u32) = length p" using assms(5) by (rule unat_of_nat_u32)
  have ne: "crc32_of (?l @ be32 ty @ p) \<noteq> crc32_of (?l @ pre @ w' @ post)"
    using crc32_burst [of w w' "?l @ pre" post] assms by (simp del: store_u32.simps)
  have t: "take (length p + 8) (?l @ (pre @ w' @ post) @ v) = ?l @ pre @ w' @ post"
  proof -
    have "length p + 8 = length (?l @ pre @ w' @ post)" using len by (simp del: store_u32.simps)
    moreover have "?l @ (pre @ w' @ post) @ v = (?l @ pre @ w' @ post) @ v" by simp
    ultimately show ?thesis by (metis append_eq_conv_conj)
  qed
  have d4: "drop 4 (be32 c @ x) = x" for c x by simp
  have "split_frame (be32 c @ ?l @ (pre @ w' @ post) @ v) = BadCheck" if "c \<noteq> crc32_of (?l @ pre @ w' @ post)" for c
    unfolding split_frame_def d4 get32_be32 Let_def u t using len that by (simp del: store_u32.simps)
  from this [OF ne] show ?thesis .
qed

section \<open>Properties\<close>

text \<open>
  C1: the protocol survives any fragmentation. A peer's stream of encoded packets, delivered to
  a session in reads of arbitrary sizes chosen by the operating system, dispatches exactly these
  packets, in order, each once, and leaves the read buffer empty: no read handler diverges and
  the session is never asked to close. It holds for every schedule with enough reads, when no
  read exceeds K bytes, no packet L bytes and L + 2 K is within the buffer's maximum.
\<close>

theorem receive_any_fragmentation:
  assumes "reader_ok (ReadData e m) M ses" "unread (buffRead ses) = []"
    and "packets_ok m L ps" "L + 2 * K \<le> M" "M < 2 ^ 32"
    and "\<forall>n \<in> set ns. Suc n \<le> K" "length (encode_packets ps) \<le> length ns"
  shows "\<exists>ses'. receive ns (encode_packets ps) ses s =
      Some (False, [], ses', dispatch_all m (nSessionId ses) ps s) \<and> unread (buffRead ses') = []"
proof -
  have "case ps of [] \<Rightarrow> unread (buffRead ses) = [] | (ty, p) # _ \<Rightarrow> length (unread (buffRead ses)) < length p + 12"
    using assms(2) by (auto split: list.splits)
  then obtain pending' ses' s' qs where r: "receive ns (encode_packets ps) ses s = Some (False, pending', ses', s')"
      and d: "decoded_upto m (nSessionId ses) ps (unread (buffRead ses')) pending' s s' qs" and "pending' = []"
    using receive_packets [OF assms(1,3-6), of "encode_packets ps" s] assms(2,7) by auto
  have "qs = []"
  proof (cases qs)
    case (Cons q qs')
    then have "length (encode_packets qs) < length (snd q) + 12" "length (snd q) + 12 \<le> length (encode_packets qs)"
      using d \<open>pending' = []\<close> by (auto simp: decoded_upto_def length_encode_packet split: prod.splits)
    then show ?thesis by simp
  qed
  with r d \<open>pending' = []\<close> show ?thesis by (auto simp: decoded_upto_def)
qed


definition log_handler :: "(u32 \<times> string) list packet_handler" where
  "log_handler sid ty data = (\<lambda>s. s @ [(ty, data)])"

definition log_module :: "(u32 \<times> string) list net_pb_module" where
  "log_module = \<lparr>mapPackethandle = Map.empty, funDefaultPacketHandle = Some log_handler\<rparr>"

definition log_session :: "(u32 \<times> string) list session" where
  "log_session = (Session 5)\<lparr>buffRead := SessionBuffer 256, funSessionRead := Some (ReadData LittleEndian log_module)\<rparr>"

lemma reader_ok_log: "reader_ok (ReadData LittleEndian log_module) 256 log_session"
proof -
  have "buffer_ok (SessionBuffer 256)" by (rule buffer_ok_SessionBuffer) simp_all
  moreover have "length (vecData (SessionBuffer 256)) = 16" by (simp add: SessionBuffer_def k_init_buffer_size_div_number_def)
  moreover have "unat (CurrentWritableSize (SessionBuffer 256)) = 16"
    by (simp add: SessionBuffer_def CurrentWritableSize_def size_of_def k_init_buffer_size_div_number_def)
  ultimately show ?thesis
    by (simp add: reader_ok_def log_session_def) (simp add: SessionBuffer_def)
qed

theorem receive_any_fragmentation_witness:
  "\<exists>ses'. receive (replicate 30 4) (encode_packets [(7, ''hi''), (9, [])]) log_session [] =
     Some (False, [], ses', [(7, ''hi''), (9, [])])"
proof -
  have "\<exists>ses'. receive (replicate 30 4) (encode_packets [(7, ''hi''), (9, [])]) log_session [] =
      Some (False, [], ses', dispatch_all log_module (nSessionId log_session) [(7, ''hi''), (9, [])] []) \<and>
    unread (buffRead ses') = []"
    by (rule receive_any_fragmentation [OF reader_ok_log, of 14 _ 5])
      (simp_all add: log_session_def packets_ok_def handled_def log_module_def length_encode_packet)
  then show ?thesis by (auto simp: ReadPbPacket_def log_module_def log_handler_def)
qed

text \<open>
  C3: a corrupted packet never reaches a handler. When up to four consecutive bytes of the
  message type and payload of an encoded packet are changed in transit, \<open>ReadData\<close> returns false
  (the caller then closes the session), calls no handler and leaves the buffer as it was,
  whatever follows the packet.
\<close>

theorem corrupted_packet_rejected:
  assumes "buffer_inv buf" "length (unread buf) < 2 ^ 32"
    and "encode_packet ty p = be32 code @ be32 len @ pre @ w @ post"
    and "unread buf = be32 code @ be32 len @ pre @ w' @ post @ v"
    and "length w' = length w" "length w \<le> 4" "w' \<noteq> w"
  shows "ReadData e m sid buf s = Some (False, buf, s)"
proof -
  have "be32 (crc32_of (be32 (word_of_nat (length p)) @ be32 ty @ p)) @ be32 (word_of_nat (length p)) @ be32 ty @ p =
      be32 code @ be32 len @ pre @ w @ post"
    using assms(3) by (simp only: encode_packet_def Let_def)
  then have parts: "be32 (crc32_of (be32 (word_of_nat (length p)) @ be32 ty @ p)) = be32 code"
      "be32 (word_of_nat (length p)) = be32 len" "be32 ty @ p = pre @ w @ post"
    unfolding be32_append_eq by blast+
  have "length (be32 ty @ p) \<le> length (unread buf)"
    unfolding parts(3) assms(4) using assms(5) by (simp del: store_u32.simps)
  then have "length p < 2 ^ 32" using assms(2) by (simp del: store_u32.simps)
  then have "split_frame (unread buf) = BadCheck"
    using split_frame_corrupted [OF parts(3) assms(5-7), of v, unfolded parts(1), unfolded parts(2)]
    unfolding assms(4) by (simp del: store_u32.simps)
  then show ?thesis by (simp add: ReadData_unfold [OF assms(1,2)])
qed

text \<open>
  C2: sending and receiving are inverse. On a session with room, \<open>WriteDataOnSessionThread\<close>
  returns true and appends one packet to the write buffer; when these bytes arrive in the read
  buffer of a peer of either endianness that registered a handler for the message type, the peer
  queues exactly one call of that handler, with the head and the body that were sent, and the next
  \<open>OnUpdate\<close> makes it. The parsers are only assumed to undo the serialisation of this head and
  this body.
\<close>

theorem send_receive_round_trip:
  assumes "buffer_inv (buffWrite ses)" "unread (buffWrite ses) = []"
    and "length (serH h) + length (serB b) \<le> 0xffffff"
    and "length (serH h) + length (serB b) + 16 \<le> unat (CurrentWritableSize (buffWrite ses))"
    and "parseH (serH h) = Some h" "parseB (serB b) = Some b" "checkTTL h"
  shows "\<exists>ses' t. WriteDataOnSessionThread e ty (serH h) (serB b) (Some ses) = Some (True, Some ses', t) \<and>
    (\<forall>buf. buffer_inv buf \<longrightarrow> unread buf = unread (buffWrite ses') \<longrightarrow>
      (\<exists>buf'. ReadData e' (RegisterHandleHelper e' parseH checkTTL parseB ty func m) sid buf [] =
          Some (True, buf', [func sid h b]) \<and> unread buf' = [])) \<and>
    NetPb_OnUpdate [func sid h b] w = ([], func sid h b w)"
proof -
  let ?P = "encode_packet ty (message_payload (serH h) (serB b))"
  let ?m = "RegisterHandleHelper e' parseH checkTTL parseB ty func m"
  obtain ses' t where w: "DoSessionWrite (ses\<lparr>buffWrite := commit ?P (buffWrite ses)\<rparr>) = (ses', t)" by fastforce
  have room: "length ?P \<le> length (vecData (buffWrite ses)) - unat (nWritePos (buffWrite ses))"
    using assms(4) by (simp add: length_encode_packet unat_CurrentWritableSize [OF assms(1)])
  have sent: "unread (buffWrite ses') = ?P"
    using w unread_commit [OF assms(1) room] assms(2) by (auto simp: DoSessionWrite_def split: if_splits)
  have "\<exists>buf'. ReadData e' ?m sid buf [] = Some (True, buf', [func sid h b]) \<and> unread buf' = []"
    if "buffer_inv buf" "unread buf = unread (buffWrite ses')" for buf
  proof -
    have "length (unread buf) < 2 ^ 32" using assms(3) that(2) sent by (simp add: length_encode_packet)
    from ReadData_decodes [OF that(1) this, of e' ?m sid "[]"] show ?thesis
      using decode_registered [of "serH h" "serB b" parseH h parseB b checkTTL e' ty func m sid "[]", OF _ assms(5-7)] assms(3) that(2) sent by auto
  qed
  then show ?thesis
    using WriteDataOnSessionThread_ok [OF assms(1,3,4), of e ty] w by (auto simp: NetPb_OnUpdate_def)
qed

definition packet_buffer :: "string \<Rightarrow> session_buffer" where
  "packet_buffer s = \<lparr>nMaxBuffSize = 4096, vecData = s, nReadPos = 0, nWritePos = size_of s\<rparr>"

lemma packet_buffer_ok: "length s \<le> 4096 \<Longrightarrow> buffer_inv (packet_buffer s) \<and> unread (packet_buffer s) = s"
  by (simp add: packet_buffer_def buffer_inv_def unread_def GetReadableSize_def GetReadData_def unat_size_of)

theorem corrupted_packet_rejected_witness:
  "ReadData BigEndian log_module 1 (packet_buffer (be32 (crc32_of (be32 3 @ be32 7 @ ''abc'')) @ be32 3 @ be32 7 @ ''aXc'')) [] =
     Some (False, packet_buffer (be32 (crc32_of (be32 3 @ be32 7 @ ''abc'')) @ be32 3 @ be32 7 @ ''aXc''), [])"
proof -
  let ?c = "crc32_of (be32 3 @ be32 7 @ ''abc'')"
  let ?s = "be32 ?c @ be32 3 @ be32 7 @ ''aXc''"
  have len: "length ?s = 15" by (simp del: store_u32.simps)
  then have "length ?s \<le> 4096" by (simp only:)
  note b = packet_buffer_ok [OF this]
  show ?thesis
  proof (rule corrupted_packet_rejected [where ty = 7 and p = "''abc''" and w = "''b''" and w' = "''X''" and pre = "be32 7 @ ''a''" and post = "''c''" and v = "[]" and code = ?c and len = 3])
    show "length (unread (packet_buffer ?s)) < 2 ^ 32" using b len by (simp only:) simp
    show "encode_packet 7 ''abc'' = be32 ?c @ be32 3 @ (be32 7 @ ''a'') @ ''b'' @ ''c''"
      by (simp add: encode_packet_def Let_def del: store_u32.simps)
    show "unread (packet_buffer ?s) = be32 ?c @ be32 3 @ (be32 7 @ ''a'') @ ''X'' @ ''c'' @ []"
      using b by (simp del: store_u32.simps)
  qed (use b in simp_all)
qed

theorem send_receive_round_trip_witness:
  "\<exists>ses' t buf buf'. WriteDataOnSessionThread LittleEndian 7 ''head'' ''body'' (Some ((Session 1 :: unit session)\<lparr>buffWrite := SessionBuffer 4096\<rparr>)) =
      Some (True, Some ses', t) \<and> unread buf = unread (buffWrite ses') \<and>
    ReadData BigEndian (RegisterHandleHelper BigEndian Some (\<lambda>_. True) Some 7 (\<lambda>sid h b w. w @ [(sid, h, b)])
        \<lparr>mapPackethandle = Map.empty, funDefaultPacketHandle = None\<rparr>) 9 buf [] =
      Some (True, buf', [\<lambda>w. w @ [(9, ''head'', ''body'')]])"
proof -
  let ?b = "SessionBuffer 4096" and ?m = "\<lparr>mapPackethandle = Map.empty, funDefaultPacketHandle = None\<rparr>"
  let ?f = "\<lambda>sid h b w. w @ [(sid :: int, h :: string, b :: string)]"
  have b: "buffer_inv ?b" by (rule SessionBuffer_inv) simp
  have room: "unat (CurrentWritableSize ?b) = 256"
    by (simp add: CurrentWritableSize_def SessionBuffer_def size_of_def k_init_buffer_size_div_number_def)
  obtain ses' t where w: "WriteDataOnSessionThread LittleEndian 7 ''head'' ''body'' (Some ((Session 1 :: unit session)\<lparr>buffWrite := ?b\<rparr>)) =
      Some (True, Some ses', t)"
    and r: "\<forall>buf. buffer_inv buf \<longrightarrow> unread buf = unread (buffWrite ses') \<longrightarrow>
      (\<exists>buf'. ReadData BigEndian (RegisterHandleHelper BigEndian Some (\<lambda>_. True) Some 7 ?f ?m) 9 buf [] =
         Some (True, buf', [?f 9 ''head'' ''body'']) \<and> unread buf' = [])"
    using send_receive_round_trip [of "(Session 1 :: unit session)\<lparr>buffWrite := ?b\<rparr>" id "''head''" id "''body''" Some Some "\<lambda>_. True"
        LittleEndian 7 BigEndian ?f ?m 9 "[]"] b room by auto
  let ?P = "encode_packet 7 (message_payload ''head'' ''body'')"
  have "length ?P \<le> length (vecData ?b) - unat (nWritePos ?b)"
    using room unat_CurrentWritableSize [OF b] by (simp add: length_encode_packet)
  from unread_commit [OF b this] have "unread (buffWrite ses') = ?P"
    using WriteDataOnSessionThread_ok [of "(Session 1 :: unit session)\<lparr>buffWrite := ?b\<rparr>" "''head''" "''body''" LittleEndian 7] w b room
    by (auto simp: DoSessionWrite_def)
  then have "buffer_inv (packet_buffer ?P)" "unread (packet_buffer ?P) = unread (buffWrite ses')"
    using packet_buffer_ok [of ?P] by (simp_all add: length_encode_packet)
  with w r show ?thesis by blast
qed

text \<open>
  A message that cannot be sent changes nothing. \<open>WriteDataOnSessionThread\<close> returns false
  with the session untouched when the head and body together exceed 0xffffff bytes or the packet
  does not fit the free part of the write buffer.
\<close>

theorem send_refused:
  assumes "length head + length body < 2 ^ 32" "buffer_inv (buffWrite ses)"
    and "0xffffff < length head + length body \<or>
         unat (CurrentWritableSize (buffWrite ses)) < length head + length body + 16"
  shows "WriteDataOnSessionThread e ty head body (Some ses) = Some (False, Some ses, None)"
proof -
  define h :: u32 where "h = ucast (size_of head)"
  define l :: u32 where "l = ucast (size_of body)"
  have cast: "unat (ucast (size_of x) :: u32) = length x" if "length x < 2 ^ 32" for x :: string
    using that by (simp add: unsigned_ucast_eq unat_size_of take_bit_nat_eq_self_iff)
  have hl: "unat (h + l) = length head + length body"
    using assms(1) cast [of head] cast [of body] by (simp add: h_def l_def unat_word_ariths)
  show ?thesis
  proof (cases "0xffffff < length head + length body")
    case True
    then have "0xffffff < h + l" by (simp add: word_less_nat_alt hl)
    then show ?thesis by (simp add: WriteDataOnSessionThread_def Let_def h_def l_def)
  next
    case False
    then have "unat (h + l + 4) = length head + length body + 4"
      using hl by (subst unat_word_ariths) simp
    then have "unat (h + l + 4 + 12) = length head + length body + 16"
      using False by (subst unat_word_ariths) simp
    then have "SessionGetWriteData (ucast (h + l + 4 + 12)) ses = None"
      using False assms(3) by (simp add: SessionGetWriteData_def GetWriteDataLen_def sz_order del: add_ac)
    then show ?thesis
      unfolding WriteDataOnSessionThread_def
      by (simp only: option.case Let_def h_def [symmetric] l_def [symmetric] if_cancel)
  qed
qed

theorem send_refused_witness:
  "WriteDataOnSessionThread LittleEndian 7 ''head'' (replicate 250 (CHR ''x'')) (Some ((Session 1 :: unit session)\<lparr>buffWrite := SessionBuffer 4096\<rparr>)) =
     Some (False, Some ((Session 1 :: unit session)\<lparr>buffWrite := SessionBuffer 4096\<rparr>), None)"
proof -
  have b: "buffer_inv (SessionBuffer 4096)" by (rule SessionBuffer_inv) simp
  have room: "unat (CurrentWritableSize (SessionBuffer 4096)) = 256"
    by (simp add: CurrentWritableSize_def SessionBuffer_def size_of_def k_init_buffer_size_div_number_def)
  show ?thesis by (rule send_refused) (simp_all add: b room)
qed

definition sample_head :: server_head where
  "sample_head = \<lparr>sh_trans_id = [], sh_req_time = 0, sh_src_server_type = 0, sh_src_server_index = 0,
     sh_user_id = [], sh_query_id = 0, sh_error_code = 0, sh_ttl = 0\<rparr>"

fun forward :: "(int32 \<times> int32 \<times> int64) list \<Rightarrow> server_head \<Rightarrow> trans_gen \<Rightarrow> server_head" where
  "forward [] h g = h"
| "forward ((ty, sid, now) # hops) h g =
     (case FillHeadCommon_server ty sid now h g of (h', g') \<Rightarrow> forward hops h' g')"

lemma FillHeadCommon_server_ttl:
  "sh_ttl (fst (FillHeadCommon_server ty sid now h g)) = (if sh_ttl h = 0 then 30 else sh_ttl h - 1)"
  by (simp add: FillHeadCommon_server_def Let_def kPacketTTLDefaultvalue_def split: prod.splits)

lemma forward_ttl:
  "0 \<le> sh_ttl h \<Longrightarrow> int (length hops) \<le> sh_ttl h \<Longrightarrow> sh_ttl (forward hops h g) = sh_ttl h - int (length hops)"
proof (induction hops arbitrary: h g)
  case (Cons hop hops)
  obtain ty sid now where "hop = (ty, sid, now)" by (cases hop) auto
  then show ?case
    using Cons FillHeadCommon_server_ttl [of ty sid now h g] by (auto split: prod.splits)
qed simp

text \<open>
  C30: time to live. A message that starts without a time to live and is forwarded from server to
  server is accepted by the first thirty receivers and dropped by the thirty-first, so a routing
  loop forwards a message at most thirty times.
\<close>

theorem ttl_bounds_forwarding:
  assumes "sh_ttl h = 0" "hops \<noteq> []" "length hops \<le> 31"
  shows "CheckHeadTTLError_server (forward hops h g) \<longleftrightarrow> length hops \<le> 30"
proof -
  obtain ty sid now hops' where hops: "hops = (ty, sid, now) # hops'"
    using assms(2) by (cases hops) (auto simp: split_paired_all)
  show ?thesis
    using assms FillHeadCommon_server_ttl [of ty sid now h g]
      forward_ttl [of "fst (FillHeadCommon_server ty sid now h g)" hops' "snd (FillHeadCommon_server ty sid now h g)"]
    by (auto simp: hops CheckHeadTTLError_server_def split: prod.splits)
qed

theorem ttl_bounds_forwarding_witness:
  "CheckHeadTTLError_server (forward (replicate 30 (1, 1, 0)) sample_head \<lparr>strTransIdPrefix = None, nSuffix = 0\<rparr>) \<and>
   \<not> CheckHeadTTLError_server (forward (replicate 31 (1, 1, 0)) sample_head \<lparr>strTransIdPrefix = None, nSuffix = 0\<rparr>)"
  using ttl_bounds_forwarding [of sample_head "replicate 30 (1, 1, 0)"] ttl_bounds_forwarding [of sample_head "replicate 31 (1, 1, 0)"]
  by (simp add: sample_head_def)

fun gen_ids :: "nat \<Rightarrow> int32 \<Rightarrow> int32 \<Rightarrow> (nat \<Rightarrow> int64) \<Rightarrow> trans_gen \<Rightarrow> string list" where
  "gen_ids 0 ty sid clock g = []"
| "gen_ids (Suc n) ty sid clock g =
     (case GenTransId ty sid (clock n) g of (t, g') \<Rightarrow> t # gen_ids n ty sid clock g')"

lemma gen_ids_eq:
  "strTransIdPrefix g = Some p \<Longrightarrow> gen_ids n ty sid clock g = map (\<lambda>i. p @ to_string (nSuffix g + 1 + int i)) [0..<n]"
proof (induction n arbitrary: g)
  case (Suc n)
  then show ?case
    by (simp add: GenTransId_def Let_def upt_conv_Cons map_Suc_upt [symmetric] ac_simps del: upt_Suc)
qed simp

text \<open>
  Transaction ids generated by one process are pairwise different, whatever the clock says:
  the prefix is fixed by the first call and the counter changes at every call.
\<close>

theorem trans_ids_distinct: "distinct (gen_ids n ty sid clock g)"
proof (cases n)
  case (Suc k)
  obtain p where "GenTransId ty sid (clock k) g = (p @ to_string (nSuffix g + 1), g\<lparr>strTransIdPrefix := Some p, nSuffix := nSuffix g + 1\<rparr>)"
    by (auto simp: GenTransId_def Let_def)
  then show ?thesis
    using gen_ids_eq [of "g\<lparr>strTransIdPrefix := Some p, nSuffix := nSuffix g + 1\<rparr>" p k ty sid clock]
    by (auto simp: Suc distinct_map inj_on_def to_string_inj)
qed simp

end
