(* ===== verification/Config_Field.thy ===== *)
theory Config_Field
  imports Cpp_Std
begin

text \<open>
  Field parsers of the configuration files (common/utility/config_field_paser.cpp): splitting on
  one and on two separators and the \<open>ConfigValueTo...\<close> conversions. A \<open>const char*\<close> is an
  optional C string (\<open>None\<close> is the null pointer), an output parameter is an argument and a
  result. \<open>ConfigValueToDouble\<close> (\<open>atof\<close>) is not modelled; \<open>mktime\<close> depends on the time zone of
  the machine and is an argument of the time stamp parsers.
\<close>

section \<open>Splitting\<close>

fun split_loop :: "char \<Rightarrow> string \<Rightarrow> string \<Rightarrow> string list" where
  "split_loop cSplit field [] = [field]"
| "split_loop cSplit field (c # rest) =
     (if cSplit = c then field # split_loop cSplit [] rest else split_loop cSplit (field @ [c]) rest)"

definition SplitString :: "string option \<Rightarrow> string list \<Rightarrow> char \<Rightarrow> string list" where
  "SplitString pData vecResult cSplit =
     (case pData of
        None \<Rightarrow> vecResult
      | Some s \<Rightarrow> let t = c_str s
                   in if t \<noteq> [] then vecResult @ split_loop cSplit [] t else vecResult)"

definition SplitStringString ::
    "string option \<Rightarrow> string list list \<Rightarrow> char \<Rightarrow> char \<Rightarrow> string list list" where
  "SplitStringString pData vecResult cSplitFirst cSplitSecond =
     (case pData of
        None \<Rightarrow> vecResult
      | Some s \<Rightarrow>
          vecResult @ map (\<lambda>elem. SplitString (Some (c_str elem)) [] cSplitFirst)
            (SplitString (Some s) [] cSplitSecond))"

section \<open>Scalars\<close>

definition ConfigValueToInt32 :: "string \<Rightarrow> bool \<times> int32" where
  "ConfigValueToInt32 pData = (True, atoi (c_str pData))"

definition ConfigValueToInt64 :: "string \<Rightarrow> bool \<times> int64" where
  "ConfigValueToInt64 pData = (True, atoll (c_str pData))"

definition ConfigValueToString :: "string option \<Rightarrow> string \<Rightarrow> bool \<times> string" where
  "ConfigValueToString pData strResult =
     (case pData of None \<Rightarrow> (False, strResult) | Some s \<Rightarrow> (True, c_str s))"

text \<open>
  \<open>sscanf(pData, "%d-%d-%d %d.%d.%d", ...)\<close>: each conversion that succeeds assigns the next
  field, the first failure stops the scan and leaves the remaining fields zero.
\<close>

fun scan_fields :: "(string \<Rightarrow> string option) list \<Rightarrow> string \<Rightarrow> int list" where
  "scan_fields seps s =
     (case scan_int s of
        None \<Rightarrow> []
      | Some (v, rest) \<Rightarrow>
          v # (case seps of
                 [] \<Rightarrow> []
               | sep # seps' \<Rightarrow> (case sep rest of None \<Rightarrow> [] | Some rest' \<Rightarrow> scan_fields seps' rest')))"

fun match_char :: "char \<Rightarrow> string \<Rightarrow> string option" where
  "match_char c (x # xs) = (if x = c then Some xs else None)"
| "match_char c [] = None"

definition match_space :: "string \<Rightarrow> string option" where
  "match_space s = Some (dropWhile is_space s)"

record tm =
  tm_year :: int
  tm_mon :: int
  tm_mday :: int
  tm_hour :: int
  tm_min :: int
  tm_sec :: int

definition scan_tm :: "string \<Rightarrow> tm" where
  "scan_tm s =
     (let v = scan_fields [match_char (CHR ''-''), match_char (CHR ''-''), match_space,
                           match_char (CHR ''.''), match_char (CHR ''.'')] s @ replicate 6 0
      in \<lparr>tm_year = v ! 0, tm_mon = v ! 1, tm_mday = v ! 2, tm_hour = v ! 3, tm_min = v ! 4, tm_sec = v ! 5\<rparr>)"

definition ConfigValueToTimestamp :: "(tm \<Rightarrow> int64) \<Rightarrow> string option \<Rightarrow> int64 \<Rightarrow> bool \<times> int64" where
  "ConfigValueToTimestamp mktime pData tResult =
     (case pData of
        None \<Rightarrow> (False, tResult)
      | Some s \<Rightarrow>
          let t = scan_tm (c_str s)
          in (True, mktime (t\<lparr>tm_year := tm_year t - 1900, tm_mon := tm_mon t - 1\<rparr>)))"

section \<open>Vectors\<close>

definition ConfigValueToVecInt32 :: "string option \<Rightarrow> int32 list \<Rightarrow> bool \<times> int32 list" where
  "ConfigValueToVecInt32 pData vecResult =
     (True, vecResult @ map (\<lambda>e. snd (ConfigValueToInt32 e)) (SplitString pData [] (CHR '':'')))"

definition ConfigValueToVecInt64 :: "string option \<Rightarrow> int64 list \<Rightarrow> bool \<times> int64 list" where
  "ConfigValueToVecInt64 pData vecResult =
     (True, vecResult @ map (\<lambda>e. snd (ConfigValueToInt64 e)) (SplitString pData [] (CHR '':'')))"

definition ConfigValueToVecString :: "string option \<Rightarrow> string list \<Rightarrow> bool \<times> string list" where
  "ConfigValueToVecString pData vecResult = (True, SplitString pData vecResult (CHR '':''))"

definition ConfigValueToVecTimestamp ::
    "(tm \<Rightarrow> int64) \<Rightarrow> string option \<Rightarrow> int64 list \<Rightarrow> bool \<times> int64 list" where
  "ConfigValueToVecTimestamp mktime pData vecResult =
     (True, vecResult @
        map (\<lambda>e. snd (ConfigValueToTimestamp mktime (Some (c_str e)) 0)) (SplitString pData [] (CHR '':'')))"

section \<open>Maps\<close>

text \<open>The body the nine map parsers share: key and value readers with their initial values.\<close>

definition config_elem :: "(string \<Rightarrow> 'a) \<Rightarrow> 'a \<Rightarrow> nat \<Rightarrow> string list \<Rightarrow> 'a" where
  "config_elem read dflt n elem = (if length elem > n then read (elem ! n) else dflt)"

definition ConfigValueToMap ::
    "(string \<Rightarrow> 'k) \<Rightarrow> 'k \<Rightarrow> (string \<Rightarrow> 'v) \<Rightarrow> 'v \<Rightarrow> string option \<Rightarrow> ('k \<rightharpoonup> 'v) \<Rightarrow> bool \<times> ('k \<rightharpoonup> 'v)" where
  "ConfigValueToMap readK dfltK readV dfltV pData mapResult =
     (True, foldl (\<lambda>m elem. m(config_elem readK dfltK 0 elem \<mapsto> config_elem readV dfltV 1 elem))
        mapResult (SplitStringString pData [] (CHR '':'') (CHR ''|'')))"

abbreviation read_int32 :: "string \<Rightarrow> int32" where
  "read_int32 s \<equiv> snd (ConfigValueToInt32 s)"

abbreviation read_int64 :: "string \<Rightarrow> int64" where
  "read_int64 s \<equiv> snd (ConfigValueToInt64 s)"

definition ConfigValueToInt32MapInt32 :: "string option \<Rightarrow> (int32 \<rightharpoonup> int32) \<Rightarrow> bool \<times> (int32 \<rightharpoonup> int32)" where
  "ConfigValueToInt32MapInt32 = ConfigValueToMap read_int32 0 read_int32 0"

definition ConfigValueToInt32MapInt64 :: "string option \<Rightarrow> (int32 \<rightharpoonup> int64) \<Rightarrow> bool \<times> (int32 \<rightharpoonup> int64)" where
  "ConfigValueToInt32MapInt64 = ConfigValueToMap read_int32 0 read_int64 0"

definition ConfigValueToInt32MapString :: "string option \<Rightarrow> (int32 \<rightharpoonup> string) \<Rightarrow> bool \<times> (int32 \<rightharpoonup> string)" where
  "ConfigValueToInt32MapString = ConfigValueToMap read_int32 0 id []"

definition ConfigValueToInt64MapInt32 :: "string option \<Rightarrow> (int64 \<rightharpoonup> int32) \<Rightarrow> bool \<times> (int64 \<rightharpoonup> int32)" where
  "ConfigValueToInt64MapInt32 = ConfigValueToMap read_int64 0 read_int32 0"

definition ConfigValueToInt64MapInt64 :: "string option \<Rightarrow> (int64 \<rightharpoonup> int64) \<Rightarrow> bool \<times> (int64 \<rightharpoonup> int64)" where
  "ConfigValueToInt64MapInt64 = ConfigValueToMap read_int64 0 read_int64 0"

definition ConfigValueToInt64MapString :: "string option \<Rightarrow> (int64 \<rightharpoonup> string) \<Rightarrow> bool \<times> (int64 \<rightharpoonup> string)" where
  "ConfigValueToInt64MapString = ConfigValueToMap read_int64 0 id []"

definition ConfigValueToStringMapInt32 :: "string option \<Rightarrow> (string \<rightharpoonup> int32) \<Rightarrow> bool \<times> (string \<rightharpoonup> int32)" where
  "ConfigValueToStringMapInt32 = ConfigValueToMap id [] read_int32 0"

definition ConfigValueToStringMapInt64 :: "string option \<Rightarrow> (string \<rightharpoonup> int64) \<Rightarrow> bool \<times> (string \<rightharpoonup> int64)" where
  "ConfigValueToStringMapInt64 = ConfigValueToMap id [] read_int64 0"

definition ConfigValueToStringMapString ::
    "string option \<Rightarrow> (string \<rightharpoonup> string) \<Rightarrow> bool \<times> (string \<rightharpoonup> string)" where
  "ConfigValueToStringMapString = ConfigValueToMap id [] id []"

section \<open>Splitting undoes joining\<close>

fun join :: "char \<Rightarrow> string list \<Rightarrow> string" where
  "join c [] = []"
| "join c [x] = x"
| "join c (x # y # ys) = x @ c # join c (y # ys)"

lemma split_loop_no_sep: "c \<notin> set x \<Longrightarrow> split_loop c f (x @ rest) = split_loop c (f @ x) rest"
  by (induction x arbitrary: f) auto

lemma split_loop_join:
  "xs \<noteq> [] \<Longrightarrow> \<forall>x \<in> set xs. c \<notin> set x \<Longrightarrow> split_loop c [] (join c xs) = xs"
proof (induction c xs rule: join.induct)
  case (2 c x)
  then show ?case using split_loop_no_sep [of c x "[]" "[]"] by simp
next
  case (3 c x y ys)
  then show ?case by (simp add: split_loop_no_sep)
qed simp

lemma split_loop_not_Nil [simp]: "split_loop c f s \<noteq> []"
  by (induction s arbitrary: f) auto

lemma join_split_loop: "join c (split_loop c f s) = f @ s"
proof (induction s arbitrary: f)
  case (Cons x s)
  obtain y ys where ys: "split_loop c [] s = y # ys"
    by (cases "split_loop c [] s") auto
  then have "join c (f # split_loop c [] s) = f @ c # join c (split_loop c [] s)" by simp
  then show ?case using Cons by auto
qed simp

lemma join_eq_Nil: "xs \<noteq> [] \<Longrightarrow> join c xs = [] \<longleftrightarrow> xs = [[]]"
  by (cases "(c, xs)" rule: join.cases) auto

lemma join_no_NUL: "c \<noteq> CHR 0x00 \<Longrightarrow> \<forall>x \<in> set xs. CHR 0x00 \<notin> set x \<Longrightarrow> CHR 0x00 \<notin> set (join c xs)"
  by (induction c xs rule: join.induct) auto

lemma SplitString_join:
  assumes "xs \<noteq> []" "xs \<noteq> [[]]" "c \<noteq> CHR 0x00" "\<forall>x \<in> set xs. c \<notin> set x \<and> CHR 0x00 \<notin> set x"
  shows "SplitString (Some (join c xs)) vec c = vec @ xs"
  using assms by (simp add: SplitString_def Let_def join_eq_Nil join_no_NUL split_loop_join)

lemma to_string_clean: "c \<notin> set (to_string i)" if "\<not> is_digit c" "c \<noteq> CHR ''-''"
  using to_string_chars [of i] that by auto

definition print_pair :: "int \<times> int \<Rightarrow> string" where
  "print_pair kv = join (CHR '':'') [to_string (fst kv), to_string (snd kv)]"

lemma print_pair_clean:
  "c \<notin> set (print_pair kv)" if "\<not> is_digit c" "c \<noteq> CHR ''-''" "c \<noteq> CHR '':''"
  using that by (simp add: print_pair_def to_string_clean)

lemma SplitString_print_pair:
  "SplitString (Some (print_pair (k, v))) [] (CHR '':'') = [to_string k, to_string v]"
  unfolding print_pair_def
  by (subst SplitString_join) (auto simp: to_string_clean is_digit_def)

lemma SplitStringString_pairs:
  assumes "kvs \<noteq> []"
  shows "SplitStringString (Some (join (CHR ''|'') (map print_pair kvs))) [] (CHR '':'') (CHR ''|'') =
    map (\<lambda>(k, v). [to_string k, to_string v]) kvs"
proof -
  have bar: "CHR ''|'' \<notin> set (print_pair kv)" and nul: "CHR 0x00 \<notin> set (print_pair kv)" for kv
    by (simp_all add: print_pair_clean is_digit_def)
  have "print_pair kv \<noteq> []" for kv by (simp add: print_pair_def)
  then have "SplitString (Some (join (CHR ''|'') (map print_pair kvs))) [] (CHR ''|'') = map print_pair kvs"
    using assms bar nul by (subst SplitString_join) (auto simp: map_eq_Cons_conv)
  then show ?thesis
    by (auto simp: SplitStringString_def nul SplitString_print_pair)
qed

lemma c_str_to_string [simp]: "c_str (to_string i) = to_string i"
  by (simp add: to_string_clean is_digit_def)

section \<open>Properties\<close>

text \<open>
  \<open>SplitString\<close> loses nothing: joining the fields it returns with the separator gives the C
  string back, and splitting a joined list of fields that contain neither the separator nor NUL
  gives exactly those fields, empty ones and a trailing one included (an input that is empty as a
  whole gives no field).
\<close>

theorem SplitString_round_trip:
  "join c (SplitString (Some s) [] c) = c_str s \<and>
   (xs \<noteq> [] \<longrightarrow> xs \<noteq> [[]] \<longrightarrow> c \<noteq> CHR 0x00 \<longrightarrow> (\<forall>x \<in> set xs. c \<notin> set x \<and> CHR 0x00 \<notin> set x) \<longrightarrow>
    SplitString (Some (join c xs)) [] c = xs)"
proof -
  have "join c (SplitString (Some s) [] c) = c_str s"
    by (auto simp: SplitString_def Let_def join_split_loop)
  then show ?thesis
    using SplitString_join [of xs c "[]"] by simp
qed

theorem SplitString_round_trip_witness:
  "join (CHR '':'') (SplitString (Some ''1::2'') [] (CHR '':'')) = ''1::2'' \<and>
   SplitString (Some ''1::2'') [] (CHR '':'') = [''1'', [], ''2'']"
  using SplitString_round_trip [of "CHR '':''" "''1::2''" "[''1'', [], ''2'']"] by simp

text \<open>
  A map written as \<open>k:v|k:v|...\<close> is read back: \<open>ConfigValueToInt32MapInt32\<close> stores every
  pair, in order, so the last binding of a key wins and keys not mentioned keep their value.
\<close>

theorem config_map_round_trip:
  assumes "kvs \<noteq> []" "\<forall>(k, v) \<in> set kvs. is_int32 k \<and> is_int32 v"
  shows "ConfigValueToInt32MapInt32 (Some (join (CHR ''|'') (map print_pair kvs))) m =
    (True, m ++ map_of (rev kvs))"
proof -
  have val: "read_int32 (to_string i) = i" if "is_int32 i" for i
    using that atoi_to_string [of i "[]"] by (simp add: ConfigValueToInt32_def)
  have "foldl (\<lambda>m elem. m(config_elem read_int32 0 0 elem \<mapsto> config_elem read_int32 0 1 elem)) m
      (map (\<lambda>(k, v). [to_string k, to_string v]) kvs) = m ++ map_of (rev kvs)"
    using assms(2) by (induction kvs arbitrary: m) (auto simp: config_elem_def val map_add_def fun_eq_iff split: option.splits)
  then show ?thesis
    by (simp add: ConfigValueToInt32MapInt32_def ConfigValueToMap_def SplitStringString_pairs [OF assms(1)])
qed

theorem config_map_round_trip_witness:
  "ConfigValueToInt32MapInt32 (Some (join (CHR ''|'') (map print_pair [(1, 10), (-2, 20), (1, 30)]))) Map.empty =
     (True, [1 \<mapsto> 30, -2 \<mapsto> 20])"
  by (subst config_map_round_trip) (auto simp: is_int32_def)

end
