(* ===== verification/Xml_Config.thy ===== *)
theory Xml_Config
  imports Config_Field
begin

text \<open>
  Configuration tables (common/config/xml_config_module.h, xml_config_module.cpp and the table
  rows under common/config/data). The XML library is not part of the sources: what the loader
  uses of it is the parsed document, here a value: whether the file loaded, the root element if
  there is one, and its child elements with their attributes in document order.
\<close>

section \<open>Documents\<close>

record xml_element =
  el_name :: string
  el_attributes :: "(string \<times> string) list"

record xml_document =
  doc_loaded :: bool
  doc_root :: "xml_element list option"

text \<open>
  \<open>FirstSiblingElement\<close> asks the root for its first child called "element";
  \<open>NextSiblingElement\<close> takes the next child of any name. The rows of a document are what the
  loop over both visits.
\<close>

definition FirstSiblingElement :: "xml_document \<Rightarrow> xml_element list" where
  "FirstSiblingElement doc =
     (case doc_root doc of None \<Rightarrow> [] | Some els \<Rightarrow> dropWhile (\<lambda>e. el_name e \<noteq> ''element'') els)"

section \<open>Table rows\<close>

record server_list_config_data =
  slNId :: int64
  slServerType :: int32
  slServerName :: string
  slServerIndex :: int32
  slPublicIp :: string
  slServerIp :: string
  slConnectList :: "int32 list"
  slNetThreadsNum :: int32
  slHttpIp :: string
  slHttpThreadsNum :: int32

definition ServerListConfigData :: server_list_config_data where
  "ServerListConfigData = \<lparr>slNId = 0, slServerType = 0, slServerName = [], slServerIndex = 0,
     slPublicIp = [], slServerIp = [], slConnectList = [], slNetThreadsNum = 0, slHttpIp = [],
     slHttpThreadsNum = 0\<rparr>"

definition ServerList_LoadXmlElement ::
    "string \<times> string \<Rightarrow> server_list_config_data \<Rightarrow> bool \<times> server_list_config_data" where
  "ServerList_LoadXmlElement attr d =
     (case attr of (name, value) \<Rightarrow>
       if name = ''Id'' then
         (case ConfigValueToInt64 value of (ok, n) \<Rightarrow> (ok, d\<lparr>slNId := n\<rparr>))
       else if name = ''ServerType'' then
         (case ConfigValueToInt32 value of (ok, n) \<Rightarrow> (ok, d\<lparr>slServerType := n\<rparr>))
       else if name = ''ServerName'' then
         (case ConfigValueToString (Some value) (slServerName d) of (ok, s) \<Rightarrow> (ok, d\<lparr>slServerName := s\<rparr>))
       else if name = ''ServerIndex'' then
         (case ConfigValueToInt32 value of (ok, n) \<Rightarrow> (ok, d\<lparr>slServerIndex := n\<rparr>))
       else if name = ''PublicIp'' then
         (case ConfigValueToString (Some value) (slPublicIp d) of (ok, s) \<Rightarrow> (ok, d\<lparr>slPublicIp := s\<rparr>))
       else if name = ''ServerIp'' then
         (case ConfigValueToString (Some value) (slServerIp d) of (ok, s) \<Rightarrow> (ok, d\<lparr>slServerIp := s\<rparr>))
       else if name = ''ConnectList'' then
         (case ConfigValueToVecInt32 (Some value) (slConnectList d) of (ok, v) \<Rightarrow> (ok, d\<lparr>slConnectList := v\<rparr>))
       else if name = ''NetThreadsNum'' then
         (case ConfigValueToInt32 value of (ok, n) \<Rightarrow> (ok, d\<lparr>slNetThreadsNum := n\<rparr>))
       else if name = ''HttpIp'' then
         (case ConfigValueToString (Some value) (slHttpIp d) of (ok, s) \<Rightarrow> (ok, d\<lparr>slHttpIp := s\<rparr>))
       else if name = ''HttpThreadsNum'' then
         (case ConfigValueToInt32 value of (ok, n) \<Rightarrow> (ok, d\<lparr>slHttpThreadsNum := n\<rparr>))
       else (True, d))"

record data_base_config_data =
  dbStrId :: string
  dbAddress :: string
  dbPort :: int64
  dbUser :: string
  dbPassword :: string
  dbShardNum :: int64

definition DataBaseConfigData :: data_base_config_data where
  "DataBaseConfigData =
     \<lparr>dbStrId = [], dbAddress = [], dbPort = 0, dbUser = [], dbPassword = [], dbShardNum = 0\<rparr>"

definition DataBase_LoadXmlElement ::
    "string \<times> string \<Rightarrow> data_base_config_data \<Rightarrow> bool \<times> data_base_config_data" where
  "DataBase_LoadXmlElement attr d =
     (case attr of (name, value) \<Rightarrow>
       if name = ''Id'' then
         (case ConfigValueToString (Some value) (dbStrId d) of (ok, s) \<Rightarrow> (ok, d\<lparr>dbStrId := s\<rparr>))
       else if name = ''Address'' then
         (case ConfigValueToString (Some value) (dbAddress d) of (ok, s) \<Rightarrow> (ok, d\<lparr>dbAddress := s\<rparr>))
       else if name = ''Port'' then
         (case ConfigValueToInt64 value of (ok, n) \<Rightarrow> (ok, d\<lparr>dbPort := n\<rparr>))
       else if name = ''User'' then
         (case ConfigValueToString (Some value) (dbUser d) of (ok, s) \<Rightarrow> (ok, d\<lparr>dbUser := s\<rparr>))
       else if name = ''Password'' then
         (case ConfigValueToString (Some value) (dbPassword d) of (ok, s) \<Rightarrow> (ok, d\<lparr>dbPassword := s\<rparr>))
       else if name = ''ShardNum'' then
         (case ConfigValueToInt64 value of (ok, n) \<Rightarrow> (ok, d\<lparr>dbShardNum := n\<rparr>))
       else (True, d))"

section \<open>Loading a table\<close>

fun load_attributes :: "(string \<times> string \<Rightarrow> 'd \<Rightarrow> bool \<times> 'd) \<Rightarrow> (string \<times> string) list \<Rightarrow> 'd \<Rightarrow> 'd option" where
  "load_attributes load [] d = Some d"
| "load_attributes load (a # as) d =
     (case load a d of (False, _) \<Rightarrow> None | (True, d') \<Rightarrow> load_attributes load as d')"

fun load_rows ::
    "(string \<times> string \<Rightarrow> 'd \<Rightarrow> bool \<times> 'd) \<Rightarrow> ('d \<Rightarrow> 'k) \<Rightarrow> 'd \<Rightarrow> xml_element list \<Rightarrow> ('k \<rightharpoonup> 'd) \<Rightarrow> bool \<times> ('k \<rightharpoonup> 'd)" where
  "load_rows load key dflt [] mapData = (True, mapData)"
| "load_rows load key dflt (e # es) mapData =
     (case load_attributes load (el_attributes e) dflt of
        None \<Rightarrow> (False, mapData)
      | Some d \<Rightarrow> load_rows load key dflt es (mapData(key d \<mapsto> d)))"

definition LoadXmlFile ::
    "(string \<times> string \<Rightarrow> 'd \<Rightarrow> bool \<times> 'd) \<Rightarrow> ('d \<Rightarrow> 'k) \<Rightarrow> 'd \<Rightarrow> xml_document \<Rightarrow> ('k \<rightharpoonup> 'd) \<Rightarrow> bool \<times> ('k \<rightharpoonup> 'd)" where
  "LoadXmlFile load key dflt doc mapData =
     (if \<not> doc_loaded doc then (False, mapData)
      else load_rows load key dflt (FirstSiblingElement doc) mapData)"

record xml_config_module =
  mapServerListConfigData :: "int64 \<rightharpoonup> server_list_config_data"
  mapDataBaseConfigData :: "string \<rightharpoonup> data_base_config_data"

definition LoadServerListConfigData :: "xml_document \<Rightarrow> xml_config_module \<Rightarrow> bool \<times> xml_config_module" where
  "LoadServerListConfigData doc m =
     (case LoadXmlFile ServerList_LoadXmlElement slNId ServerListConfigData doc Map.empty of
        (ok, t) \<Rightarrow> (ok, m\<lparr>mapServerListConfigData := t\<rparr>))"

definition LoadDataBaseConfigData :: "xml_document \<Rightarrow> xml_config_module \<Rightarrow> bool \<times> xml_config_module" where
  "LoadDataBaseConfigData doc m =
     (case LoadXmlFile DataBase_LoadXmlElement dbStrId DataBaseConfigData doc Map.empty of
        (ok, t) \<Rightarrow> (ok, m\<lparr>mapDataBaseConfigData := t\<rparr>))"

definition XmlConfig_BeforeInit :: "xml_document \<Rightarrow> xml_document \<Rightarrow> xml_config_module \<Rightarrow> xml_config_module" where
  "XmlConfig_BeforeInit serverList dataBase m =
     (case LoadServerListConfigData serverList m of
        (False, m') \<Rightarrow> m'
      | (True, m') \<Rightarrow> snd (LoadDataBaseConfigData dataBase m'))"

definition GetServerListConfigDataById :: "int64 \<Rightarrow> xml_config_module \<Rightarrow> server_list_config_data option" where
  "GetServerListConfigDataById keyId m = mapServerListConfigData m keyId"

definition GetDataBaseConfigDataById :: "string \<Rightarrow> xml_config_module \<Rightarrow> data_base_config_data option" where
  "GetDataBaseConfigDataById keyId m = mapDataBaseConfigData m keyId"

section \<open>What a loaded table holds\<close>

lemma ServerList_LoadXmlElement_True: "fst (ServerList_LoadXmlElement a d)"
  by (auto simp: ServerList_LoadXmlElement_def ConfigValueToInt64_def ConfigValueToInt32_def
      ConfigValueToString_def ConfigValueToVecInt32_def split: prod.splits)

lemma DataBase_LoadXmlElement_True: "fst (DataBase_LoadXmlElement a d)"
  by (auto simp: DataBase_LoadXmlElement_def ConfigValueToInt64_def ConfigValueToString_def split: prod.splits)

lemma load_attributes_fold:
  assumes "\<And>a d. fst (load a d)"
  shows "load_attributes load as d = Some (foldl (\<lambda>d a. snd (load a d)) d as)"
proof (induction as arbitrary: d)
  case (Cons a as)
  then show ?case using assms [of a d] by (auto split: prod.splits bool.splits)
qed simp

definition row_of :: "(string \<times> string \<Rightarrow> 'd \<Rightarrow> bool \<times> 'd) \<Rightarrow> 'd \<Rightarrow> xml_element \<Rightarrow> 'd" where
  "row_of load dflt e = foldl (\<lambda>d a. snd (load a d)) dflt (el_attributes e)"

lemma load_rows_last:
  assumes "\<And>a d. fst (load a d)"
  shows "load_rows load key dflt es m =
    (True, m ++ map_of (rev (map (\<lambda>e. (key (row_of load dflt e), row_of load dflt e)) es)))"
  by (induction es arbitrary: m)
    (auto simp: load_attributes_fold [OF assms(1)] row_of_def map_add_def fun_eq_iff split: option.splits)

definition server_row :: "xml_element \<Rightarrow> server_list_config_data" where
  "server_row = row_of ServerList_LoadXmlElement ServerListConfigData"

definition database_row :: "xml_element \<Rightarrow> data_base_config_data" where
  "database_row = row_of DataBase_LoadXmlElement DataBaseConfigData"

lemma load_server_rows:
  "load_rows ServerList_LoadXmlElement key ServerListConfigData es m =
    (True, m ++ map_of (rev (map (\<lambda>e. (key (server_row e), server_row e)) es)))"
  unfolding server_row_def by (rule load_rows_last) (rule ServerList_LoadXmlElement_True)

lemma load_database_rows:
  "load_rows DataBase_LoadXmlElement key DataBaseConfigData es m =
    (True, m ++ map_of (rev (map (\<lambda>e. (key (database_row e), database_row e)) es)))"
  unfolding database_row_def by (rule load_rows_last) (rule DataBase_LoadXmlElement_True)

lemma find_map_of_rev:
  "map_of (rev (map (\<lambda>e. (key e, e)) es)) k = find (\<lambda>d. key d = k) (rev es)"
proof -
  have "map_of (map (\<lambda>e. (key e, e)) xs) k = find (\<lambda>d. key d = k) xs" for xs
    by (induction xs) auto
  then show ?thesis by (simp add: rev_map)
qed

section \<open>Properties\<close>

text \<open>
  after start-up, a look-up by id returns exactly the last row of the file with that id, with
  every attribute applied in order, in both tables; an id without a row gives a null pointer. It
  needs only that both files were loaded by the XML library.
\<close>

theorem xml_tables_loaded:
  assumes "doc_loaded serverList" "doc_loaded dataBase"
  shows "GetServerListConfigDataById sid (XmlConfig_BeforeInit serverList dataBase m) =
      find (\<lambda>d. slNId d = sid) (rev (map server_row (FirstSiblingElement serverList))) \<and>
    GetDataBaseConfigDataById did (XmlConfig_BeforeInit serverList dataBase m) =
      find (\<lambda>d. dbStrId d = did) (rev (map database_row (FirstSiblingElement dataBase)))"
  using assms find_map_of_rev [of slNId "map server_row (FirstSiblingElement serverList)" sid]
    find_map_of_rev [of dbStrId "map database_row (FirstSiblingElement dataBase)" did]
  by (simp add: GetServerListConfigDataById_def GetDataBaseConfigDataById_def XmlConfig_BeforeInit_def
      LoadServerListConfigData_def LoadDataBaseConfigData_def LoadXmlFile_def load_server_rows
      load_database_rows comp_def)

definition sample_server_list :: xml_document where
  "sample_server_list = \<lparr>doc_loaded = True, doc_root = Some
     [\<lparr>el_name = ''element'', el_attributes = [(''Id'', ''7''), (''ServerType'', ''2'')]\<rparr>]\<rparr>"

theorem xml_tables_loaded_witness:
  "map_option slServerType (GetServerListConfigDataById 7 (XmlConfig_BeforeInit sample_server_list
     \<lparr>doc_loaded = True, doc_root = None\<rparr> \<lparr>mapServerListConfigData = Map.empty, mapDataBaseConfigData = Map.empty\<rparr>)) = Some 2"
proof -
  have "atoll ''7'' = 7" "atoi ''2'' = 2"
    by (simp_all add: atoi_def atoll_def is_space_def is_digit_def digits_value_def digit_value_def
        clamp_int64_def to_int32_def)
  then show ?thesis
    by (simp add: xml_tables_loaded sample_server_list_def FirstSiblingElement_def server_row_def row_of_def
        ServerList_LoadXmlElement_def ServerListConfigData_def ConfigValueToInt64_def ConfigValueToInt32_def)
qed

end
