(* ===== verification/Spin_Lock.thy ===== *)
theory Spin_Lock
  imports Cat_Prelude
begin

text \<open>
  \<open>SpinLock\<close> (common/utility/spin_lock.h) as a transition system of any number of threads. Every
  step is one atomic operation on \<open>m_atomic_bool\<close>: the exchange of \<open>lock\<close> and \<open>try_lock\<close>, the
  load of the inner waiting loop, the store of \<open>unlock\<close>. The property is mutual exclusion.
\<close>

section \<open>The atomic operations and the threads\<close>

datatype lock_pc = Outside | WantExchange | Waiting | Holding

record spin_lock =
  atomicBool :: bool
  lockPc :: "nat \<Rightarrow> lock_pc"

definition SpinLock :: spin_lock where
  "SpinLock = \<lparr>atomicBool = False, lockPc = (\<lambda>_. Outside)\<rparr>"

definition exchange_true :: "spin_lock \<Rightarrow> bool \<times> spin_lock" where
  "exchange_true l = (atomicBool l, l\<lparr>atomicBool := True\<rparr>)"

definition move :: "nat \<Rightarrow> lock_pc \<Rightarrow> spin_lock \<Rightarrow> spin_lock" where
  "move t pc l = l\<lparr>lockPc := (lockPc l)(t := pc)\<rparr>"

definition lock_exchange :: "nat \<Rightarrow> spin_lock \<Rightarrow> spin_lock" where
  "lock_exchange t l =
     (case exchange_true l of (old, l') \<Rightarrow> move t (if old then Waiting else Holding) l')"

definition lock_wait :: "nat \<Rightarrow> spin_lock \<Rightarrow> spin_lock" where
  "lock_wait t l = (if \<not> atomicBool l then move t WantExchange l else l)"

definition try_lock :: "nat \<Rightarrow> spin_lock \<Rightarrow> bool \<times> spin_lock" where
  "try_lock t l =
     (case exchange_true l of (old, l') \<Rightarrow> (\<not> old, if old then l' else move t Holding l'))"

definition unlock :: "nat \<Rightarrow> spin_lock \<Rightarrow> spin_lock" where
  "unlock t l = move t Outside (l\<lparr>atomicBool := False\<rparr>)"

text \<open>A thread only unlocks what it holds, as every use in the sources (\<open>lock_guard\<close>) does.\<close>

inductive lock_step :: "spin_lock \<Rightarrow> spin_lock \<Rightarrow> bool" where
  call_lock: "lockPc l t = Outside \<Longrightarrow> lock_step l (move t WantExchange l)"
| do_exchange: "lockPc l t = WantExchange \<Longrightarrow> lock_step l (lock_exchange t l)"
| do_wait: "lockPc l t = Waiting \<Longrightarrow> lock_step l (lock_wait t l)"
| do_try: "lockPc l t = Outside \<Longrightarrow> try_lock t l = (r, l') \<Longrightarrow> lock_step l l'"
| do_unlock: "lockPc l t = Holding \<Longrightarrow> lock_step l (unlock t l)"

inductive_cases lock_stepE: "lock_step l l'"

section \<open>Mutual exclusion\<close>

definition lock_inv :: "spin_lock \<Rightarrow> bool" where
  "lock_inv l \<longleftrightarrow> (\<forall>t u. lockPc l t = Holding \<longrightarrow> lockPc l u = Holding \<longrightarrow> t = u) \<and>
     (atomicBool l \<longleftrightarrow> (\<exists>t. lockPc l t = Holding))"

lemma move_holding:
  "lockPc (move t pc l) u = Holding \<longleftrightarrow> (if u = t then pc = Holding else lockPc l u = Holding)"
  "atomicBool (move t pc l) = atomicBool l"
  by (simp_all add: move_def)

lemma move_same:
  "lockPc l t \<noteq> Holding \<Longrightarrow> pc \<noteq> Holding \<Longrightarrow> (lockPc (move t pc l) u = Holding) = (lockPc l u = Holding)"
  by (simp add: move_def)

lemma lock_inv_step: "lock_step l l' \<Longrightarrow> lock_inv l \<Longrightarrow> lock_inv l'"
proof (induction rule: lock_step.induct)
  case (call_lock l t)
  then show ?case by (auto simp: lock_inv_def move_same move_holding(2))
next
  case (do_exchange l t)
  then show ?case
    by (cases "atomicBool l")
      (auto simp: lock_inv_def lock_exchange_def exchange_true_def move_same move_holding(2), auto simp: move_def split: if_splits)
next
  case (do_wait l t)
  then show ?case by (auto simp: lock_inv_def lock_wait_def move_same move_holding(2))
next
  case (do_try l t r l')
  then show ?case
    by (cases "atomicBool l") (auto simp: lock_inv_def try_lock_def exchange_true_def move_holding split: if_splits)
next
  case (do_unlock l t)
  then show ?case by (auto simp: lock_inv_def unlock_def move_holding split: if_splits)
qed

interpretation sl: invariant_system "\<lambda>l. l = SpinLock" lock_step lock_inv
  by unfold_locales (simp add: SpinLock_def lock_inv_def, rule lock_inv_step)

section \<open>Properties\<close>

text \<open>
  C25: mutual exclusion. In every state reachable from an unlocked lock by any interleaving of the
  threads' atomic steps, at most one thread holds the lock, and the flag is set exactly while one
  does, so a waiting thread always proceeds once the holder has released it.
\<close>

theorem spin_lock_mutual_exclusion:
  assumes "lock_step\<^sup>*\<^sup>* SpinLock l"
  shows "(\<forall>t u. lockPc l t = Holding \<and> lockPc l u = Holding \<longrightarrow> t = u) \<and>
    (atomicBool l \<longleftrightarrow> (\<exists>t. lockPc l t = Holding))"
  using sl.reachable_inv [OF refl assms] by (auto simp: lock_inv_def)

theorem spin_lock_mutual_exclusion_witness:
  "atomicBool (lock_exchange 1 (move 1 WantExchange SpinLock)) =
     (\<exists>t. lockPc (lock_exchange 1 (move 1 WantExchange SpinLock)) t = Holding)"
proof -
  have "lock_step SpinLock (move 1 WantExchange SpinLock)"
    by (rule call_lock) (simp add: SpinLock_def)
  moreover have "lock_step (move 1 WantExchange SpinLock) (lock_exchange 1 (move 1 WantExchange SpinLock))"
    by (rule do_exchange) (simp add: move_def)
  ultimately have "lock_step\<^sup>*\<^sup>* SpinLock (lock_exchange 1 (move 1 WantExchange SpinLock))"
    by (meson converse_rtranclp_into_rtranclp r_into_rtranclp)
  from spin_lock_mutual_exclusion [OF this] show ?thesis by blast
qed

end
