(* ===== verification/Module_Manager.thy ===== *)
theory Module_Manager
  imports Cat_Prelude
begin

text \<open>
  \<open>ModuleManager\<close> (common/module_manager.h, module_manager.cpp) and the life cycle hooks of
  \<open>ModuleBase\<close> (common/module_base.h). A module is an opaque value; what a hook of a module does to
  the rest of the program is the argument \<open>call\<close>.
\<close>

section \<open>Data and operations\<close>

datatype hook = BeforeInit | OnInit | AfterInit | BeforeStop | OnStop | AfterStop | OnUpdate
  | OnLoadConfig | AfterLoadConfig

record 'm module_manager =
  vecModules :: "(string \<times> 'm) list"
  onStop :: bool
  updateTimerArmed :: bool
  mainLoopRunning :: bool

definition ModuleManager :: "'m module_manager" where
  "ModuleManager = \<lparr>vecModules = [], onStop = False, updateTimerArmed = False, mainLoopRunning = False\<rparr>"

definition FindModule :: "string \<Rightarrow> 'm module_manager \<Rightarrow> 'm option" where
  "FindModule strModuleName m = map_option snd (find (\<lambda>info. fst info = strModuleName) (vecModules m))"

definition RegisterModule :: "string \<Rightarrow> 'm \<Rightarrow> 'm module_manager \<Rightarrow> bool \<times> 'm module_manager" where
  "RegisterModule strModuleName pModule m =
     (case find (\<lambda>info. fst info = strModuleName) (vecModules m) of
        Some _ \<Rightarrow> (False, m)
      | None \<Rightarrow> (True, m\<lparr>vecModules := vecModules m @ [(strModuleName, pModule)]\<rparr>))"

definition for_modules :: "(hook \<Rightarrow> 'm \<Rightarrow> 'w \<Rightarrow> 'w) \<Rightarrow> hook \<Rightarrow> (string \<times> 'm) list \<Rightarrow> 'w \<Rightarrow> 'w" where
  "for_modules call h ms = fold (\<lambda>info. call h (snd info)) ms"

definition Init :: "(hook \<Rightarrow> 'm \<Rightarrow> 'w \<Rightarrow> 'w) \<Rightarrow> 'm module_manager \<Rightarrow> 'w \<Rightarrow> 'w" where
  "Init call m w =
     for_modules call AfterInit (vecModules m)
       (for_modules call OnInit (vecModules m)
         (for_modules call BeforeInit (vecModules m) w))"

definition Stop :: "'m module_manager \<Rightarrow> 'm module_manager" where
  "Stop m = m\<lparr>onStop := True\<rparr>"

definition StopModules :: "(hook \<Rightarrow> 'm \<Rightarrow> 'w \<Rightarrow> 'w) \<Rightarrow> 'm module_manager \<Rightarrow> 'w \<Rightarrow> 'w" where
  "StopModules call m w =
     for_modules call AfterStop (rev (vecModules m))
       (for_modules call OnStop (rev (vecModules m))
         (for_modules call BeforeStop (rev (vecModules m)) w))"

definition LoadConfig :: "(hook \<Rightarrow> 'm \<Rightarrow> 'w \<Rightarrow> 'w) \<Rightarrow> 'm module_manager \<Rightarrow> 'w \<Rightarrow> 'w" where
  "LoadConfig call m w =
     for_modules call AfterLoadConfig (vecModules m) (for_modules call OnLoadConfig (vecModules m) w)"

definition UpdateModules ::
    "(hook \<Rightarrow> 'm \<Rightarrow> 'w \<Rightarrow> 'w) \<Rightarrow> 'm module_manager \<Rightarrow> 'w \<Rightarrow> 'm module_manager \<times> 'w" where
  "UpdateModules call m w =
     (if onStop m
      then (m\<lparr>updateTimerArmed := False, mainLoopRunning := False, onStop := False\<rparr>, StopModules call m w)
      else (m, for_modules call OnUpdate (vecModules m) w))"

definition Run :: "'m module_manager \<Rightarrow> 'm module_manager" where
  "Run m = m\<lparr>updateTimerArmed := True, mainLoopRunning := True\<rparr>"

section \<open>The registry\<close>

definition manager_inv :: "'m module_manager \<Rightarrow> bool" where
  "manager_inv m \<longleftrightarrow> distinct (map fst (vecModules m))"

lemma find_none_iff: "find (\<lambda>info. fst info = n) ms = None \<longleftrightarrow> n \<notin> fst ` set ms"
  by (force simp: find_None_iff)

lemma find_append: "find P (xs @ ys) = (case find P xs of None \<Rightarrow> find P ys | Some x \<Rightarrow> Some x)"
  by (induction xs) auto

lemma RegisterModule_inv: "manager_inv m \<Longrightarrow> manager_inv (snd (RegisterModule n p m))"
  using find_none_iff [of n "vecModules m"]
  by (auto simp: manager_inv_def RegisterModule_def split: option.splits)

lemma FindModule_RegisterModule:
  "FindModule n' (snd (RegisterModule n p m)) =
     (if n' = n \<and> FindModule n m = None then Some p else FindModule n' m)"
  by (auto simp: FindModule_def RegisterModule_def find_append split: option.splits)

text \<open>The registry as an interface: what a look-up returns after a registration.\<close>

locale registry =
  fixes insert_new :: "'k \<Rightarrow> 'v \<Rightarrow> 'r \<Rightarrow> bool \<times> 'r"
    and look :: "'k \<Rightarrow> 'r \<Rightarrow> 'v option"
  assumes look_insert: "look k' (snd (insert_new k v r)) = (if k' = k \<and> look k r = None then Some v else look k' r)"
    and insert_ok: "fst (insert_new k v r) \<longleftrightarrow> look k r = None"
begin

fun insert_all :: "('k \<times> 'v) list \<Rightarrow> 'r \<Rightarrow> 'r" where
  "insert_all [] r = r"
| "insert_all ((k, v) # kvs) r = insert_all kvs (snd (insert_new k v r))"

lemma look_insert_all:
  "look k (insert_all kvs r) = (case look k r of Some v \<Rightarrow> Some v | None \<Rightarrow> map_of kvs k)"
  by (induction kvs r rule: insert_all.induct) (auto simp: look_insert split: option.splits)

end

interpretation mm: registry RegisterModule FindModule
  by unfold_locales (rule FindModule_RegisterModule, auto simp: RegisterModule_def FindModule_def split: option.splits)

text \<open>All \<open>REGISTER_MODULE\<close> lines of a server application, in order.\<close>

definition register_all :: "(string \<times> 'm) list \<Rightarrow> 'm module_manager \<Rightarrow> 'm module_manager" where
  "register_all ms m = fold (\<lambda>(n, p) m. snd (RegisterModule n p m)) ms m"

lemma register_all_insert_all: "register_all ms m = mm.insert_all ms m"
  by (induction ms m rule: mm.insert_all.induct) (auto simp: register_all_def)

section \<open>Hook order\<close>

definition log_call :: "hook \<Rightarrow> 'm \<Rightarrow> (hook \<times> 'm) list \<Rightarrow> (hook \<times> 'm) list" where
  "log_call h p log = log @ [(h, p)]"

lemma for_modules_log: "for_modules log_call h ms log = log @ map (\<lambda>info. (h, snd info)) ms"
  unfolding for_modules_def by (induction ms arbitrary: log) (simp_all add: log_call_def)

section \<open>Properties\<close>

text \<open>
  The registry keeps the first module registered under a name. After any sequence of
  registrations on a fresh manager, \<open>FindModule\<close> returns the first module registered under the
  name and null for a name never registered.
\<close>

theorem FindModule_first_registered: "FindModule n (register_all ms ModuleManager) = map_of ms n"
proof -
  have "FindModule n (ModuleManager :: 'a module_manager) = None"
    by (simp add: FindModule_def ModuleManager_def)
  then show ?thesis by (simp add: register_all_insert_all mm.look_insert_all)
qed

text \<open>
  Life cycle order. \<open>Init\<close> runs \<open>BeforeInit\<close> on all modules in registration order, then
  \<open>OnInit\<close> on all, then \<open>AfterInit\<close> on all; the first update after \<open>Stop\<close> runs \<open>BeforeStop\<close>,
  \<open>OnStop\<close> and \<open>AfterStop\<close> on all modules in reverse order, ends the update timer and the main
  loop, and calls no \<open>OnUpdate\<close>; every other update calls each \<open>OnUpdate\<close> once, in order.
\<close>

theorem module_life_cycle:
  "Init log_call m log = log @ map (\<lambda>i. (BeforeInit, snd i)) (vecModules m) @
     map (\<lambda>i. (OnInit, snd i)) (vecModules m) @ map (\<lambda>i. (AfterInit, snd i)) (vecModules m) \<and>
   UpdateModules log_call (Stop m) log =
     (m\<lparr>updateTimerArmed := False, mainLoopRunning := False, onStop := False\<rparr>,
      log @ map (\<lambda>i. (BeforeStop, snd i)) (rev (vecModules m)) @
        map (\<lambda>i. (OnStop, snd i)) (rev (vecModules m)) @ map (\<lambda>i. (AfterStop, snd i)) (rev (vecModules m))) \<and>
   UpdateModules log_call (m\<lparr>onStop := False\<rparr>) log =
     (m\<lparr>onStop := False\<rparr>, log @ map (\<lambda>i. (OnUpdate, snd i)) (vecModules m))"
  by (simp add: Init_def UpdateModules_def Stop_def StopModules_def for_modules_log)

end
