(* ===== verification/Loop_Pool.thy ===== *)
theory Loop_Pool
  imports Cat_Prelude
begin

text \<open>
  Event loops (common/loop/loop.h, loop.cpp) and pools of them (loop_pool.h, loop_pool.cpp). A loop
  is one thread that runs the functions posted to its \<open>io_context\<close> in posting order; a posted
  function is a label here. \<open>asio\<close> is not part of the sources: what is used of it is that posted
  functions run one at a time in order, that a stopped context runs nothing more until it is
  restarted, and that cancelling a timer removes its pending wait. Threads interleave arbitrarily.
\<close>

section \<open>One loop\<close>

record 'a timer =
  tmId :: nat
  tmDeadline :: nat
  tmPeriod :: "nat option"
  tmFunc :: 'a

record 'a loop =
  ioQueue :: "'a list"
  ioStopped :: bool
  bRunning :: bool
  hasThread :: bool
  timers :: "'a timer list"
  nextTimer :: nat
  clock :: nat

definition Loop :: "'a loop" where
  "Loop = \<lparr>ioQueue = [], ioStopped = False, bRunning = False, hasThread = False, timers = [], nextTimer = 0, clock = 0\<rparr>"

definition Loop_Exec :: "'a \<Rightarrow> 'a loop \<Rightarrow> 'a loop" where
  "Loop_Exec f l = l\<lparr>ioQueue := ioQueue l @ [f]\<rparr>"

definition Loop_RunInThread :: "'a loop \<Rightarrow> 'a loop" where
  "Loop_RunInThread l = l\<lparr>bRunning := True\<rparr>"

definition Loop_Start :: "'a loop \<Rightarrow> 'a loop" where
  "Loop_Start l = (if bRunning l then l else l\<lparr>hasThread := True, bRunning := True\<rparr>)"

definition Loop_StartWith :: "'a \<Rightarrow> 'a loop \<Rightarrow> 'a loop" where
  "Loop_StartWith f l = (if bRunning l then l else Loop_Exec f (Loop_Start l))"

definition Loop_Stop :: "'a loop \<Rightarrow> 'a loop" where
  "Loop_Stop l =
     (if \<not> bRunning l then l
      else l\<lparr>ioStopped := True, hasThread := False, bRunning := False\<rparr>)"

text \<open>The thread of a running loop takes the next posted function.\<close>

definition Loop_RunOne :: "'a loop \<Rightarrow> ('a \<times> 'a loop) option" where
  "Loop_RunOne l =
     (if bRunning l \<and> \<not> ioStopped l then
        (case ioQueue l of [] \<Rightarrow> None | f # fs \<Rightarrow> Some (f, l\<lparr>ioQueue := fs\<rparr>))
      else None)"

definition Loop_ExecAfter :: "nat \<Rightarrow> 'a \<Rightarrow> 'a loop \<Rightarrow> nat \<times> 'a loop" where
  "Loop_ExecAfter millSeconds f l =
     (nextTimer l,
      l\<lparr>timers := timers l @ [\<lparr>tmId = nextTimer l, tmDeadline = clock l + millSeconds, tmPeriod = None, tmFunc = f\<rparr>],
        nextTimer := nextTimer l + 1\<rparr>)"

definition Loop_ExecEveryHelper :: "nat \<Rightarrow> nat \<Rightarrow> 'a \<Rightarrow> 'a loop \<Rightarrow> 'a loop" where
  "Loop_ExecEveryHelper timerHandle millSeconds f l =
     l\<lparr>timers := timers l @
        [\<lparr>tmId = timerHandle, tmDeadline = clock l + millSeconds, tmPeriod = Some millSeconds, tmFunc = f\<rparr>]\<rparr>"

definition Loop_ExecEvery :: "nat \<Rightarrow> 'a \<Rightarrow> 'a loop \<Rightarrow> nat \<times> 'a loop" where
  "Loop_ExecEvery millSeconds f l =
     (nextTimer l, Loop_ExecEveryHelper (nextTimer l) millSeconds f (l\<lparr>nextTimer := nextTimer l + 1\<rparr>))"

definition Loop_Cancel :: "nat \<Rightarrow> 'a loop \<Rightarrow> 'a loop" where
  "Loop_Cancel timerHandle l = l\<lparr>timers := filter (\<lambda>t. tmId t \<noteq> timerHandle) (timers l)\<rparr>"

text \<open>
  An expired timer: its wait is over, the function runs (its effect on the loop is an argument),
  and a periodic timer is armed again after the function has returned.
\<close>

definition Loop_Fire :: "('a \<Rightarrow> 'a loop \<Rightarrow> 'a loop) \<Rightarrow> 'a timer \<Rightarrow> 'a loop \<Rightarrow> 'a loop" where
  "Loop_Fire run t l =
     (let l = run (tmFunc t) (l\<lparr>timers := remove1 t (timers l)\<rparr>)
      in case tmPeriod t of
           None \<Rightarrow> l
         | Some millSeconds \<Rightarrow> Loop_ExecEveryHelper (tmId t) millSeconds (tmFunc t) l)"

section \<open>A pool of loops\<close>

type_synonym 'a pool = "'a loop list"

definition Pool_Start :: "(nat \<Rightarrow> 'a) \<Rightarrow> nat \<Rightarrow> 'a pool \<Rightarrow> 'a pool" where
  "Pool_Start setIndex workerNum loops =
     (let resized = take workerNum loops @ replicate (workerNum - length loops) Loop
      in map (\<lambda>i. Loop_StartWith (setIndex i) (resized ! i)) [0..<workerNum])"

definition Pool_Stop :: "'a pool \<Rightarrow> 'a pool" where
  "Pool_Stop loops = []"

definition GetLoop :: "size_t \<Rightarrow> 'a pool \<Rightarrow> nat option" where
  "GetLoop index loops = (if loops \<noteq> [] then Some (unat index mod length loops) else None)"

definition Pool_Exec :: "size_t \<Rightarrow> 'a \<Rightarrow> 'a pool \<Rightarrow> 'a pool" where
  "Pool_Exec index f loops =
     (case GetLoop index loops of
        None \<Rightarrow> loops
      | Some i \<Rightarrow> loops[i := Loop_Exec f (loops ! i)])"

definition Broadcast :: "'a option \<Rightarrow> 'a pool \<Rightarrow> 'a pool" where
  "Broadcast func loops = (case func of None \<Rightarrow> loops | Some f \<Rightarrow> map (Loop_Exec f) loops)"

section \<open>Ordered execution per key\<close>

text \<open>
  What the clients of a pool rely on (sessions, users and tables are bound to a loop by a key):
  functions posted under one key run in posting order, each once. The interface is a family of
  queues indexed by slots.
\<close>

datatype ('k, 'j) action = Post 'k 'j | RunSlot nat

locale keyed_executor =
  fixes inv :: "'s \<Rightarrow> bool"
    and slot :: "'k \<Rightarrow> nat"
    and post :: "'k \<Rightarrow> 'j \<Rightarrow> 's \<Rightarrow> 's"
    and pending :: "nat \<Rightarrow> 's \<Rightarrow> 'j list"
    and run_slot :: "nat \<Rightarrow> 's \<Rightarrow> ('j \<times> 's) option"
  assumes post_inv: "inv s \<Longrightarrow> inv (post k j s)"
    and pending_post: "inv s \<Longrightarrow> pending i (post k j s) = (if i = slot k then pending i s @ [j] else pending i s)"
    and run_inv: "inv s \<Longrightarrow> run_slot i s = Some (j, s') \<Longrightarrow> inv s'"
    and pending_run: "inv s \<Longrightarrow> run_slot i s = Some (j, s') \<Longrightarrow>
      pending i' s = (if i' = i then j # pending i' s' else pending i' s')"
begin

fun perform :: "('k, 'j) action list \<Rightarrow> 's \<Rightarrow> (nat \<times> 'j) list \<times> 's" where
  "perform [] s = ([], s)"
| "perform (Post k j # as) s = perform as (post k j s)"
| "perform (RunSlot i # as) s =
     (case run_slot i s of
        None \<Rightarrow> perform as s
      | Some (j, s') \<Rightarrow> (case perform as s' of (trace, s'') \<Rightarrow> ((i, j) # trace, s'')))"

fun posted :: "nat \<Rightarrow> ('k, 'j) action list \<Rightarrow> 'j list" where
  "posted i [] = []"
| "posted i (Post k j # as) = (if slot k = i then j # posted i as else posted i as)"
| "posted i (RunSlot _ # as) = posted i as"

lemma executed_in_order:
  "inv s \<Longrightarrow> perform as s = (trace, s') \<Longrightarrow>
   map snd (filter (\<lambda>(i', _). i' = i) trace) @ pending i s' = pending i s @ posted i as"
proof (induction as s arbitrary: trace rule: perform.induct)
  case (2 k j as s)
  then show ?case by (auto simp: pending_post post_inv)
next
  case (3 i0 as s)
  show ?case
  proof (cases "run_slot i0 s")
    case None
    with 3 show ?thesis by simp
  next
    case (Some r)
    obtain j s1 where r: "r = (j, s1)" by fastforce
    obtain trace1 where t: "perform as s1 = (trace1, s')" "trace = (i0, j) # trace1"
      using 3(4) Some r by (auto split: prod.splits)
    show ?thesis
      using "3.IH"(2) [OF Some r [symmetric] _ t(1)] run_inv [OF "3.prems"(1)] pending_run [OF "3.prems"(1), of i0 j s1 i] Some r t(2)
      by (auto simp: "3.prems"(1))
  qed
qed auto

end

definition pool_ok :: "nat \<Rightarrow> 'a pool \<Rightarrow> bool" where
  "pool_ok n loops \<longleftrightarrow> length loops = n \<and> 0 < n \<and> (\<forall>l \<in> set loops. bRunning l \<and> \<not> ioStopped l)"

definition pool_pending :: "nat \<Rightarrow> 'a pool \<Rightarrow> 'a list" where
  "pool_pending i loops = (if i < length loops then ioQueue (loops ! i) else [])"

definition pool_run :: "nat \<Rightarrow> 'a pool \<Rightarrow> ('a \<times> 'a pool) option" where
  "pool_run i loops =
     (if i < length loops then
        (case Loop_RunOne (loops ! i) of None \<Rightarrow> None | Some (f, l) \<Rightarrow> Some (f, loops[i := l]))
      else None)"

lemma pool_ok_update: "pool_ok n loops \<Longrightarrow> bRunning l \<and> \<not> ioStopped l \<Longrightarrow> pool_ok n (loops[i := l])"
  by (auto simp: pool_ok_def dest: set_update_subset_insert [THEN subsetD])

interpretation lp: keyed_executor "pool_ok n" "\<lambda>k. unat k mod n" Pool_Exec pool_pending pool_run for n
proof unfold_locales
  fix s :: "'a pool" and k :: size_t and j :: 'a
  assume s: "pool_ok n s"
  then have k: "unat k mod n < length s" "GetLoop k s = Some (unat k mod n)"
    by (auto simp: pool_ok_def GetLoop_def)
  then have "bRunning (s ! (unat k mod n)) \<and> \<not> ioStopped (s ! (unat k mod n))"
    using s by (auto simp: pool_ok_def)
  then show "pool_ok n (Pool_Exec k j s)"
    using s k by (simp add: Pool_Exec_def Loop_Exec_def pool_ok_update)
  show "pool_pending i (Pool_Exec k j s) = (if i = unat k mod n then pool_pending i s @ [j] else pool_pending i s)" for i
    using k by (simp add: Pool_Exec_def Loop_Exec_def pool_pending_def nth_list_update)
next
  fix s s' :: "'a pool" and i i' and j :: 'a
  assume s: "pool_ok n s" and r: "pool_run i s = Some (j, s')"
  then obtain l where l: "i < length s" "Loop_RunOne (s ! i) = Some (j, l)" "s' = s[i := l]"
    by (auto simp: pool_run_def split: if_splits option.splits)
  then have q: "ioQueue (s ! i) = j # ioQueue l" "bRunning l \<and> \<not> ioStopped l"
    by (auto simp: Loop_RunOne_def split: if_splits list.splits)
  with s l show "pool_ok n s'" by (simp add: pool_ok_update)
  show "pool_pending i' s = (if i' = i then j # pool_pending i' s' else pool_pending i' s')"
    using l q by (simp add: pool_pending_def nth_list_update)
qed

section \<open>Queues of several loops in one list\<close>

text \<open>
  The database modules keep the functions posted to the loops of their pools in one list of pairs of
  a loop and its task.
\<close>

text \<open>The first task of a loop, and the list without it.\<close>

fun take_task :: "nat \<Rightarrow> (nat \<times> 't) list \<Rightarrow> ('t \<times> (nat \<times> 't) list) option" where
  "take_task i [] = None"
| "take_task i ((j, t) # q) = (if j = i then Some (t, q) else map_option (\<lambda>(t', q'). (t', (j, t) # q')) (take_task i q))"

definition tasks_of :: "nat \<Rightarrow> (nat \<times> 't) list \<Rightarrow> 't list" where
  "tasks_of i q = map snd (filter (\<lambda>x. fst x = i) q)"

lemma tasks_of_simps [simp]: "tasks_of i [] = []" "tasks_of i (x # q) = (if fst x = i then snd x # tasks_of i q else tasks_of i q)"
  "tasks_of i (q @ q') = tasks_of i q @ tasks_of i q'"
  by (simp_all add: tasks_of_def)

lemma take_task_tasks:
  "take_task i q = None \<Longrightarrow> tasks_of i q = []"
  "take_task i q = Some (t, q') \<Longrightarrow> tasks_of i q = t # tasks_of i q' \<and> (\<forall>j. j \<noteq> i \<longrightarrow> tasks_of j q = tasks_of j q')"
  by (induction i q arbitrary: q' rule: take_task.induct) (auto split: if_splits)

section \<open>Broadcast with a completion callback\<close>

text \<open>
  \<open>BroadcastAndDone\<close> shares \<open>funcDo\<close> between the functions it posts; the shared pointer's deleter
  posts \<open>funcFinish\<close> on the calling loop. Each posted function releases its reference when it has
  run, the caller releases its own when \<open>BroadcastAndDone\<close> returns. The state has one queue per
  loop (the calling loop \<open>cur\<close> may be any of them) and a trace of what ran where.
\<close>

datatype 'a task = Other 'a | Do | Finish

record 'a bcast =
  bQueues :: "nat \<Rightarrow> 'a task list"
  bRefs :: nat
  bTrace :: "(nat \<times> 'a task) list"

definition release :: "nat \<Rightarrow> 'a bcast \<Rightarrow> 'a bcast" where
  "release cur b =
     (let b = b\<lparr>bRefs := bRefs b - 1\<rparr>
      in if bRefs b = 0 then b\<lparr>bQueues := (bQueues b)(cur := bQueues b cur @ [Finish])\<rparr> else b)"

definition BroadcastAndDone :: "nat \<Rightarrow> nat \<Rightarrow> (nat \<Rightarrow> 'a task list) \<Rightarrow> 'a bcast" where
  "BroadcastAndDone n cur queues =
     release cur \<lparr>bQueues = (\<lambda>i. if i < n then queues i @ [Do] else queues i), bRefs = n + 1, bTrace = []\<rparr>"

fun bcast_run :: "nat \<Rightarrow> nat \<Rightarrow> 'a bcast \<Rightarrow> 'a bcast" where
  "bcast_run cur i b =
     (case bQueues b i of
        [] \<Rightarrow> b
      | t # ts \<Rightarrow>
          let b = b\<lparr>bQueues := (bQueues b)(i := ts), bTrace := bTrace b @ [(i, t)]\<rparr>
          in if t = Do then release cur b else b)"

definition do_count :: "nat \<Rightarrow> 'a bcast \<Rightarrow> nat" where
  "do_count n b = (\<Sum>i<n. count_list (bQueues b i) Do)"

definition bcast_inv :: "nat \<Rightarrow> nat \<Rightarrow> 'a bcast \<Rightarrow> bool" where
  "bcast_inv n cur b \<longleftrightarrow>
     bRefs b = do_count n b \<and> (\<forall>i \<ge> n. count_list (bQueues b i) Do = 0) \<and>
     do_count n b + count_list (map snd (bTrace b)) Do = n \<and>
     (\<forall>i. i \<noteq> cur \<longrightarrow> count_list (bQueues b i) Finish = 0) \<and>
     count_list (bQueues b cur) Finish + count_list (map snd (bTrace b)) Finish = (if bRefs b = 0 then 1 else 0) \<and>
     (\<forall>xs ys c. bTrace b = xs @ (c, Finish) # ys \<longrightarrow> count_list (map snd xs) Do = n)"

lemma sum_update_nat:
  fixes g :: "nat \<Rightarrow> nat"
  assumes "i < n"
  shows "(\<Sum>j<n. (g(i := v)) j) + g i = (\<Sum>j<n. g j) + v"
proof -
  have "(\<Sum>j<n. h j) = h i + (\<Sum>j\<in>{..<n} - {i}. h j)" for h :: "nat \<Rightarrow> nat"
    using assms by (simp add: sum.remove)
  moreover have "(\<Sum>j\<in>{..<n} - {i}. (g(i := v)) j) = (\<Sum>j\<in>{..<n} - {i}. g j)"
    by (rule sum.cong) auto
  ultimately show ?thesis by simp
qed

lemma do_count_pop:
  assumes "i < n" "bQueues b i = t # ts"
  shows "do_count n (b\<lparr>bQueues := (bQueues b)(i := ts), bTrace := tr\<rparr>) + (if t = Do then 1 else 0) = do_count n b"
proof -
  let ?g = "\<lambda>j. count_list (bQueues b j) Do"
  have "do_count n (b\<lparr>bQueues := (bQueues b)(i := ts), bTrace := tr\<rparr>) = (\<Sum>j<n. (?g(i := count_list ts Do)) j)"
    unfolding do_count_def by (rule sum.cong) auto
  moreover have "do_count n b = (\<Sum>j<n. ?g j)" by (simp add: do_count_def)
  moreover have "?g i = count_list ts Do + (if t = Do then 1 else 0)" using assms(2) by simp
  ultimately show ?thesis
    using sum_update_nat [OF assms(1), of ?g "count_list ts Do"] by linarith
qed

lemma do_count_release [simp]: "do_count n (release cur b) = do_count n b"
  by (auto simp: do_count_def release_def Let_def intro!: sum.cong)

lemma bTrace_release [simp]: "bTrace (release cur b) = bTrace b"
  by (simp add: release_def Let_def)

lemma bRefs_release: "bRefs (release cur b) = bRefs b - 1"
  by (simp add: release_def Let_def)

lemma count_release:
  "count_list (bQueues (release cur b) i) x =
     count_list (bQueues b i) x + (if x = Finish \<and> i = cur \<and> bRefs b \<le> 1 then 1 else 0)"
  by (auto simp: release_def Let_def)

lemma bcast_inv_init:
  assumes "\<forall>i. Do \<notin> set (queues i) \<and> Finish \<notin> set (queues i)"
  shows "bcast_inv n cur (BroadcastAndDone n cur queues)"
proof -
  have "count_list (queues i) Do = 0" "count_list (queues i) Finish = 0" for i
    using assms by (auto simp: count_list_0_iff)
  then show ?thesis
    by (simp add: bcast_inv_def BroadcastAndDone_def bRefs_release count_release) (simp add: do_count_def)
qed

lemma trace_snoc_Finish:
  assumes "\<forall>xs ys c. tr = xs @ (c, Finish) # ys \<longrightarrow> count_list (map snd xs) Do = n"
    and "t = Finish \<longrightarrow> count_list (map snd tr) Do = n"
  shows "\<forall>xs ys c. tr @ [(i, t)] = xs @ (c, Finish) # ys \<longrightarrow> count_list (map snd xs) Do = n"
proof (intro allI impI)
  fix xs ys c
  assume eq: "tr @ [(i, t)] = xs @ (c, Finish) # ys"
  show "count_list (map snd xs) Do = n"
  proof (cases ys rule: rev_cases)
    case Nil
    then show ?thesis using eq assms(2) by simp
  next
    case (snoc zs z)
    then have "tr = xs @ (c, Finish) # zs" using eq by (metis append_Cons append_assoc butlast_snoc)
    with assms(1) show ?thesis by blast
  qed
qed

lemma bcast_inv_run:
  assumes inv: "bcast_inv n cur b"
  shows "bcast_inv n cur (bcast_run cur i b)"
proof (cases "bQueues b i")
  case Nil
  with inv show ?thesis by simp
next
  case (Cons t ts)
  define c where "c = b\<lparr>bQueues := (bQueues b)(i := ts), bTrace := bTrace b @ [(i, t)]\<rparr>"
  have run: "bcast_run cur i b = (if t = Do then release cur c else c)"
    using Cons by (simp add: c_def Let_def)
  have inv': "bRefs b = do_count n b" "\<forall>i \<ge> n. count_list (bQueues b i) Do = 0"
      "do_count n b + count_list (map snd (bTrace b)) Do = n"
      "\<forall>i. i \<noteq> cur \<longrightarrow> count_list (bQueues b i) Finish = 0"
      "count_list (bQueues b cur) Finish + count_list (map snd (bTrace b)) Finish = (if bRefs b = 0 then 1 else 0)"
      "\<forall>xs ys c. bTrace b = xs @ (c, Finish) # ys \<longrightarrow> count_list (map snd xs) Do = n"
    using inv by (auto simp: bcast_inv_def)
  have fin: "t = Finish \<longrightarrow> i = cur \<and> bRefs b = 0 \<and> count_list (map snd (bTrace b)) Do = n"
  proof
    assume t: "t = Finish"
    then have "i = cur" using inv'(4) Cons by (metis count_list.simps(2) add_is_0 zero_neq_one)
    then have "1 \<le> count_list (bQueues b cur) Finish" using Cons t by simp
    then have "bRefs b = 0" using inv'(5) by (cases "bRefs b = 0") simp_all
    then show "i = cur \<and> bRefs b = 0 \<and> count_list (map snd (bTrace b)) Do = n"
      using inv'(1,3) \<open>i = cur\<close> by linarith
  qed
  have dn: "t = Do \<longrightarrow> i < n" using inv'(2) Cons by (metis count_list.simps(2) add_is_0 zero_neq_one not_le)
  have cnt: "do_count n c + (if t = Do then 1 else 0) = do_count n b"
  proof (cases "i < n")
    case False
    then show ?thesis using dn by (auto simp: do_count_def c_def intro: sum.cong)
  qed (use do_count_pop [OF _ Cons] in \<open>simp add: c_def\<close>)
  have ge: "\<forall>j \<ge> n. count_list (bQueues c j) Do = 0"
    using inv'(2) Cons by (auto simp: c_def split: if_splits)
  have oth: "\<forall>j. j \<noteq> cur \<longrightarrow> count_list (bQueues c j) Finish = 0"
    using inv'(4) Cons by (auto simp: c_def split: if_splits)
  have tr: "\<forall>xs ys d. bTrace c = xs @ (d, Finish) # ys \<longrightarrow> count_list (map snd xs) Do = n"
    using trace_snoc_Finish [OF inv'(6), of t i] fin by (simp add: c_def)
  have fc: "count_list (bQueues c cur) Finish + count_list (map snd (bTrace c)) Finish = (if bRefs b = 0 then 1 else 0)"
    using inv'(4,5) Cons fin by (auto simp: c_def split: if_splits)
  have dc: "count_list (map snd (bTrace c)) Do = count_list (map snd (bTrace b)) Do + (if t = Do then 1 else 0)"
    "bRefs c = bRefs b"
    by (simp_all add: c_def)
  show ?thesis
    unfolding run bcast_inv_def
    using inv'(1,3) cnt ge oth tr fc dc by (auto simp: bRefs_release count_release)
qed

interpretation bc: invariant_system "\<lambda>b. \<exists>queues. (\<forall>i. Do \<notin> set (queues i) \<and> Finish \<notin> set (queues i)) \<and> b = BroadcastAndDone n cur queues"
    "\<lambda>b b'. \<exists>i. b' = bcast_run cur i b" "bcast_inv n cur" for n cur
  by unfold_locales (auto intro: bcast_inv_init bcast_inv_run simp del: bcast_run.simps)

section \<open>Properties\<close>

text \<open>
  C23: per-key order. On a running pool of any size, for every interleaving of \<open>Exec\<close> calls and of
  the threads taking functions from their queues: what loop \<open>i\<close> has run, followed by what it still
  has queued, is what was queued before followed by the functions posted under the keys that map
  to \<open>i\<close>, in posting order. So functions posted under one key run in order, each at most once, and
  none is lost.
\<close>

theorem pool_keeps_order_per_key:
  assumes "pool_ok n loops" "lp.perform as loops = (trace, loops')"
  shows "map snd (filter (\<lambda>(i', _). i' = i) trace) @ pool_pending i loops' =
    pool_pending i loops @ lp.posted n i as"
  using lp.executed_in_order [OF assms] .

theorem pool_keeps_order_per_key_witness:
  "map snd (filter (\<lambda>(i', _). i' = 1)
     (fst (lp.perform [Post 3 ''a'', Post 2 ''b'', RunSlot 1, Post 5 ''c'', RunSlot 1] (Pool_Start (\<lambda>_. ''idx'') 2 [])))) @
   pool_pending 1 (snd (lp.perform [Post 3 ''a'', Post 2 ''b'', RunSlot 1, Post 5 ''c'', RunSlot 1] (Pool_Start (\<lambda>_. ''idx'') 2 []))) =
   [''idx'', ''a'', ''c'']"
proof -
  let ?as = "[Post 3 ''a'', Post 2 ''b'', RunSlot 1, Post 5 ''c'', RunSlot 1]" and ?p = "Pool_Start (\<lambda>_. ''idx'') 2 []"
  have p: "?p = [Loop_StartWith ''idx'' Loop, Loop_StartWith ''idx'' Loop]"
    by (simp add: Pool_Start_def numeral_2_eq_2)
  have ok: "pool_ok 2 ?p"
    by (simp add: p pool_ok_def Loop_StartWith_def Loop_Start_def Loop_Exec_def Loop_def)
  show ?thesis
    using pool_keeps_order_per_key [OF ok, of ?as "fst (lp.perform ?as ?p)" "snd (lp.perform ?as ?p)" 1]
    by (simp add: p pool_pending_def Loop_StartWith_def Loop_Start_def Loop_Exec_def Loop_def)
qed

text \<open>
  C24: \<open>BroadcastAndDone\<close> on a pool of \<open>n\<close> loops, for any interleaving of the loops and any other
  queued work, the calling loop inside or outside the pool: \<open>funcDo\<close> runs at most once per posted
  copy, the finish function never runs before all \<open>n\<close> copies have run and never twice, and once
  every queue is empty it has run exactly once after exactly \<open>n\<close> runs of \<open>funcDo\<close> (at once for an
  empty pool).
\<close>

theorem BroadcastAndDone_finishes_once:
  assumes "\<forall>i. Do \<notin> set (queues i) \<and> Finish \<notin> set (queues i)"
    and "(\<lambda>b b'. \<exists>i. b' = bcast_run cur i b)\<^sup>*\<^sup>* (BroadcastAndDone n cur queues) b"
  shows "(\<forall>xs ys c. bTrace b = xs @ (c, Finish) # ys \<longrightarrow> count_list (map snd xs) Do = n) \<and>
    count_list (map snd (bTrace b)) Do \<le> n \<and> count_list (map snd (bTrace b)) Finish \<le> 1 \<and>
    ((\<forall>i. bQueues b i = []) \<longrightarrow>
       count_list (map snd (bTrace b)) Do = n \<and> count_list (map snd (bTrace b)) Finish = 1)"
proof -
  have inv: "bcast_inv n cur b"
    using bc.reachable_inv [OF _ assms(2)] assms(1) by blast
  have empty: "do_count n b = 0" if "\<forall>i. bQueues b i = []" using that by (simp add: do_count_def)
  show ?thesis
    using inv empty unfolding bcast_inv_def by (auto split: if_splits)
qed

theorem BroadcastAndDone_finishes_once_witness:
  "map snd (bTrace (bcast_run 5 5 (bcast_run 5 0 (bcast_run 5 1 (BroadcastAndDone 2 5 (\<lambda>_. []))))))
     = [Do, Do, Finish :: nat task] \<and>
   count_list (map snd (bTrace (bcast_run 5 5 (bcast_run 5 0 (bcast_run 5 1 (BroadcastAndDone 2 5 (\<lambda>_. []))))))) (Finish :: nat task) \<le> 1"
proof -
  let ?q = "(\<lambda>_. []) :: nat \<Rightarrow> nat task list"
  let ?b = "bcast_run 5 5 (bcast_run 5 0 (bcast_run 5 1 (BroadcastAndDone 2 5 ?q)))"
  have "(\<lambda>b b'. \<exists>i. b' = bcast_run 5 i b)\<^sup>*\<^sup>* (BroadcastAndDone 2 5 ?q) ?b"
    by (rule rtranclp.rtrancl_into_rtrancl, rule rtranclp.rtrancl_into_rtrancl,
        rule rtranclp.rtrancl_into_rtrancl, rule rtranclp.rtrancl_refl) blast+
  from BroadcastAndDone_finishes_once [OF _ this] show ?thesis
    by (simp add: BroadcastAndDone_def release_def Let_def)
qed

text \<open>
  A periodic timer cannot be cancelled from its own function: at that moment no wait is
  pending, so \<open>Cancel\<close> removes nothing, and \<open>ExecEveryHelper\<close> then arms the timer again.
\<close>

theorem cancel_in_own_callback_ineffective:
  assumes "tmPeriod t = Some ms"
  shows "\<exists>t' \<in> set (timers (Loop_Fire (\<lambda>_. Loop_Cancel (tmId t)) t l)). tmId t' = tmId t \<and> tmFunc t' = tmFunc t"
  using assms by (simp add: Loop_Fire_def Loop_ExecEveryHelper_def Let_def)

theorem cancel_in_own_callback_ineffective_witness:
  "\<exists>t' \<in> set (timers (Loop_Fire (\<lambda>_. Loop_Cancel 0)
      \<lparr>tmId = 0, tmDeadline = 50, tmPeriod = Some 50, tmFunc = ''update''\<rparr> (snd (Loop_ExecEvery 50 ''update'' Loop)))). tmId t' = 0"
  using cancel_in_own_callback_ineffective [of "\<lparr>tmId = 0, tmDeadline = 50, tmPeriod = Some 50, tmFunc = ''update''\<rparr>" 50]
  by auto

text \<open>
  A loop cannot be restarted. Once a running loop has been stopped its context stays stopped, so
  after another \<open>Start\<close> or \<open>StartWith\<close> nothing that was or will be posted ever runs.
\<close>

theorem stopped_loop_never_runs:
  assumes "bRunning l"
  shows "Loop_RunOne (Loop_Exec f (Loop_Start (Loop_Stop l))) = None \<and>
    Loop_RunOne (Loop_StartWith f (Loop_Stop l)) = None"
  using assms by (simp add: Loop_RunOne_def Loop_Exec_def Loop_Start_def Loop_StartWith_def Loop_Stop_def)

theorem stopped_loop_never_runs_witness:
  "Loop_RunOne (Loop_Exec ''job'' (Loop_Start (Loop_Stop (Loop_Start Loop)))) = None"
  using stopped_loop_never_runs [of "Loop_Start Loop" "''job''"] by (simp add: Loop_Start_def Loop_def)

end
