(* ===== verification/Rpc_Module.thy ===== *)
theory Rpc_Module
  imports Cat_Prelude
begin

text \<open>
  \<open>RpcModule\<close> (common/service/rpc_module.h, rpc_module.cpp). For each response message id there is a
  context with two generations of callbacks by query id: requests enter the current one, the
  time-out timer answers everything left in the last one with an error and then moves the current
  generation to the last. All of it runs on the main loop. A hash map is an association list (the
  order stands for the unspecified iteration order); a callback is a value, and calling it is an
  entry in the list of calls. A callback made by the time-out handler may itself send requests while
  the handler is still iterating: these are the argument \<open>nested\<close>.
\<close>

section \<open>Contexts and operations\<close>

datatype 'r outcome = Response session_id_t 'r | TimedOut

record 'f rpc_context =
  mapLastCallback :: "(int \<times> 'f) list"
  mapCurrentCallback :: "(int \<times> 'f) list"

record ('f, 'r) rpc_module =
  nQueryId :: int
  mapRpcContext :: "u32 \<rightharpoonup> 'f rpc_context"
  rpcSent :: "(session_id_t \<times> int) list"
  rpcCalls :: "(int \<times> 'f \<times> 'r outcome) list"
  rpcIssued :: "(int \<times> u32 \<times> 'f) list"

definition RpcModule :: "('f, 'r) rpc_module" where
  "RpcModule = \<lparr>nQueryId = 0, mapRpcContext = Map.empty, rpcSent = [], rpcCalls = [], rpcIssued = []\<rparr>"

definition GenQueryId :: "('f, 'r) rpc_module \<Rightarrow> int \<times> ('f, 'r) rpc_module" where
  "GenQueryId s = (nQueryId s + 1, s\<lparr>nQueryId := nQueryId s + 1\<rparr>)"

definition InitRpcContextMap :: "u32 \<Rightarrow> ('f, 'r) rpc_module \<Rightarrow> ('f, 'r) rpc_module" where
  "InitRpcContextMap msgId s =
     s\<lparr>mapRpcContext := (mapRpcContext s)(msgId \<mapsto> \<lparr>mapLastCallback = [], mapCurrentCallback = []\<rparr>)\<rparr>"

definition emplace :: "'k \<Rightarrow> 'v \<Rightarrow> ('k \<times> 'v) list \<Rightarrow> ('k \<times> 'v) list" where
  "emplace k v m = (if map_of m k = None then m @ [(k, v)] else m)"

definition erase :: "'k \<Rightarrow> ('k \<times> 'v) list \<Rightarrow> ('k \<times> 'v) list" where
  "erase k m = filter (\<lambda>e. fst e \<noteq> k) m"

definition set_context :: "u32 \<Rightarrow> 'f rpc_context \<Rightarrow> ('f, 'r) rpc_module \<Rightarrow> ('f, 'r) rpc_module" where
  "set_context msgId c s = s\<lparr>mapRpcContext := (mapRpcContext s)(msgId \<mapsto> c)\<rparr>"

definition RpcRequest :: "session_id_t \<Rightarrow> u32 \<Rightarrow> 'f \<Rightarrow> ('f, 'r) rpc_module \<Rightarrow> ('f, 'r) rpc_module" where
  "RpcRequest destSessionId msgId funcResult s =
     (let s = (if mapRpcContext s msgId = None then InitRpcContextMap msgId s else s)
      in case GenQueryId s of
           (nCurrentQueryId, s) \<Rightarrow>
             (case mapRpcContext s msgId of
                None \<Rightarrow> s
              | Some c \<Rightarrow>
                  let c = c\<lparr>mapCurrentCallback := emplace nCurrentQueryId funcResult (mapCurrentCallback c)\<rparr>
                  in (set_context msgId c s)
                       \<lparr>rpcSent := rpcSent s @ [(destSessionId, nCurrentQueryId)],
                        rpcIssued := rpcIssued s @ [(nCurrentQueryId, msgId, funcResult)]\<rparr>))"

text \<open>The handler \<open>RegisterNetHandle\<close> installs for responses of one message id.\<close>

definition RegisterNetHandle ::
    "u32 \<Rightarrow> session_id_t \<Rightarrow> int \<Rightarrow> 'r \<Rightarrow> ('f, 'r) rpc_module \<Rightarrow> ('f, 'r) rpc_module" where
  "RegisterNetHandle msgId sessionId nRspQueryId rsp s =
     (case mapRpcContext s msgId of
        None \<Rightarrow> s
      | Some c \<Rightarrow>
          (case map_of (mapCurrentCallback c) nRspQueryId of
             Some func \<Rightarrow>
               (set_context msgId (c\<lparr>mapCurrentCallback := erase nRspQueryId (mapCurrentCallback c)\<rparr>) s)
                 \<lparr>rpcCalls := rpcCalls s @ [(nRspQueryId, func, Response sessionId rsp)]\<rparr>
           | None \<Rightarrow>
               (case map_of (mapLastCallback c) nRspQueryId of
                  Some func \<Rightarrow>
                    (set_context msgId (c\<lparr>mapLastCallback := erase nRspQueryId (mapLastCallback c)\<rparr>) s)
                      \<lparr>rpcCalls := rpcCalls s @ [(nRspQueryId, func, Response sessionId rsp)]\<rparr>
                | None \<Rightarrow> s)))"

text \<open>The periodic function \<open>RegisterTimeoutHandle\<close> starts for one message id.\<close>

definition RegisterTimeoutHandle ::
    "u32 \<Rightarrow> (session_id_t \<times> u32 \<times> 'f) list \<Rightarrow> ('f, 'r) rpc_module \<Rightarrow> ('f, 'r) rpc_module" where
  "RegisterTimeoutHandle msgId nested s =
     (case mapRpcContext s msgId of
        None \<Rightarrow> s
      | Some c \<Rightarrow>
          let s = s\<lparr>rpcCalls := rpcCalls s @ map (\<lambda>(q, f). (q, f, TimedOut)) (mapLastCallback c)\<rparr>;
              s = fold (\<lambda>(dest, m, f). RpcRequest dest m f) nested s
          in case mapRpcContext s msgId of
               None \<Rightarrow> s
             | Some c \<Rightarrow> set_context msgId \<lparr>mapLastCallback = mapCurrentCallback c, mapCurrentCallback = []\<rparr> s)"

definition Rpc_OnStop :: "('f, 'r) rpc_module \<Rightarrow> ('f, 'r) rpc_module" where
  "Rpc_OnStop s = s\<lparr>mapRpcContext := Map.empty\<rparr>"

section \<open>Events\<close>

datatype ('f, 'r) rpc_event =
    Request session_id_t u32 'f
  | Respond u32 session_id_t int 'r
  | Tick u32 "(session_id_t \<times> u32 \<times> 'f) list"

fun rpc_do :: "('f, 'r) rpc_event \<Rightarrow> ('f, 'r) rpc_module \<Rightarrow> ('f, 'r) rpc_module" where
  "rpc_do (Request dest m f) s = RpcRequest dest m f s"
| "rpc_do (Respond m sid q r) s = RegisterNetHandle m sid q r s"
| "rpc_do (Tick m nested) s = RegisterTimeoutHandle m nested s"

definition rpc_run :: "('f, 'r) rpc_event list \<Rightarrow> ('f, 'r) rpc_module \<Rightarrow> ('f, 'r) rpc_module" where
  "rpc_run es s = fold rpc_do es s"

section \<open>Invariant\<close>

text \<open>The callbacks waiting for message id \<open>m\<close>, in both generations.\<close>

definition waiting :: "u32 \<Rightarrow> ('f, 'r) rpc_module \<Rightarrow> (int \<times> 'f) list" where
  "waiting m s = (case mapRpcContext s m of None \<Rightarrow> [] | Some c \<Rightarrow> mapCurrentCallback c @ mapLastCallback c)"

definition rpc_inv :: "('f, 'r) rpc_module \<Rightarrow> bool" where
  "rpc_inv s \<longleftrightarrow>
     (\<forall>(q, m, f) \<in> set (rpcIssued s). q \<le> nQueryId s) \<and>
     distinct (map fst (rpcIssued s)) \<and> distinct (map fst (rpcCalls s)) \<and>
     (\<forall>m. distinct (map fst (waiting m s))) \<and>
     (\<forall>m q f. (q, f) \<in> set (waiting m s) \<longrightarrow> (q, m, f) \<in> set (rpcIssued s) \<and> q \<notin> fst ` set (rpcCalls s)) \<and>
     (\<forall>(q, f, r) \<in> set (rpcCalls s). \<exists>m. (q, m, f) \<in> set (rpcIssued s)) \<and>
     (\<forall>(q, m, f) \<in> set (rpcIssued s). (q, f) \<in> set (waiting m s) \<or> q \<in> fst ` set (rpcCalls s))"

lemma rpc_invD:
  assumes "rpc_inv s"
  shows "\<And>q m f. (q, m, f) \<in> set (rpcIssued s) \<Longrightarrow> q \<le> nQueryId s"
    "distinct (map fst (rpcIssued s))" "distinct (map fst (rpcCalls s))" "\<And>m. distinct (map fst (waiting m s))"
    "\<And>m q f. (q, f) \<in> set (waiting m s) \<Longrightarrow> (q, m, f) \<in> set (rpcIssued s)"
    "\<And>m q f. (q, f) \<in> set (waiting m s) \<Longrightarrow> q \<notin> fst ` set (rpcCalls s)"
    "\<And>q f r. (q, f, r) \<in> set (rpcCalls s) \<Longrightarrow> \<exists>m. (q, m, f) \<in> set (rpcIssued s)"
    "\<And>q m f. (q, m, f) \<in> set (rpcIssued s) \<Longrightarrow> (q, f) \<in> set (waiting m s) \<or> q \<in> fst ` set (rpcCalls s)"
  using assms unfolding rpc_inv_def by blast+

lemma waiting_fresh:
  assumes "rpc_inv s"
  shows "nQueryId s + 1 \<notin> fst ` set (waiting m s)"
  using rpc_invD(1,5) [OF assms] by force

text \<open>What a request does to the waiting callbacks.\<close>

lemma RpcRequest_eq:
  fixes s :: "('f, 'r) rpc_module" and m :: u32
  assumes "rpc_inv s"
  defines "q \<equiv> nQueryId s + 1"
  defines "c \<equiv> (case mapRpcContext s m of None \<Rightarrow> \<lparr>mapLastCallback = [], mapCurrentCallback = []\<rparr> | Some c \<Rightarrow> c)"
  shows "RpcRequest dest m f s =
    s\<lparr>nQueryId := q, mapRpcContext := (mapRpcContext s)(m \<mapsto> c\<lparr>mapCurrentCallback := mapCurrentCallback c @ [(q, f)]\<rparr>),
      rpcSent := rpcSent s @ [(dest, q)], rpcIssued := rpcIssued s @ [(q, m, f)]\<rparr>"
proof -
  have "map_of (mapCurrentCallback c) q = None"
    using waiting_fresh [OF assms(1), of m]
    by (auto simp: c_def q_def waiting_def map_of_eq_None_iff split: option.splits)
  then show ?thesis
    by (cases "mapRpcContext s m")
      (simp_all add: RpcRequest_def Let_def InitRpcContextMap_def GenQueryId_def set_context_def emplace_def c_def q_def)
qed

lemma waiting_RpcRequest:
  assumes "rpc_inv s"
  shows "set (waiting m' (RpcRequest dest m f s)) =
      (if m' = m then insert (nQueryId s + 1, f) (set (waiting m' s)) else set (waiting m' s))"
    "distinct (map fst (waiting m' (RpcRequest dest m f s)))"
proof -
  let ?q = "nQueryId s + 1"
  have w: "waiting m' (RpcRequest dest m f s) = (if m' = m then
      (case mapRpcContext s m of None \<Rightarrow> [(?q, f)] | Some c \<Rightarrow> mapCurrentCallback c @ (?q, f) # mapLastCallback c)
      else waiting m' s)"
    by (simp add: RpcRequest_eq [OF assms] waiting_def split: option.splits)
  show "set (waiting m' (RpcRequest dest m f s)) =
      (if m' = m then insert (?q, f) (set (waiting m' s)) else set (waiting m' s))"
    unfolding w by (auto simp: waiting_def split: option.splits)
  have "?q \<notin> set (map fst (mapCurrentCallback c))" "?q \<notin> set (map fst (mapLastCallback c))"
      "distinct (map fst (mapCurrentCallback c) @ map fst (mapLastCallback c))" if "mapRpcContext s m = Some c" for c
    using that waiting_fresh [OF assms, of m] rpc_invD(4) [OF assms, of m] by (simp_all add: waiting_def image_Un)
  then show "distinct (map fst (waiting m' (RpcRequest dest m f s)))"
    using rpc_invD(4) [OF assms, of m'] unfolding w by (auto split: option.splits simp del: set_map)
qed

lemma rpc_inv_RpcRequest:
  assumes "rpc_inv s"
  shows "rpc_inv (RpcRequest dest m f s)"
proof -
  note D = rpc_invD [OF assms] and W = waiting_RpcRequest [OF assms, of _ dest m f]
  let ?q = "nQueryId s + 1"
  have fresh: "?q \<notin> fst ` set (rpcIssued s)" using D(1) by force
  then have freshc: "?q \<notin> fst ` set (rpcCalls s)" using D(7) by force
  have eqs: "rpcIssued (RpcRequest dest m f s) = rpcIssued s @ [(?q, m, f)]"
      "rpcCalls (RpcRequest dest m f s) = rpcCalls s" "nQueryId (RpcRequest dest m f s) = ?q"
    by (simp_all add: RpcRequest_eq [OF assms])
  show ?thesis
    unfolding rpc_inv_def eqs
  proof (intro conjI)
    show "\<forall>(q, m, f) \<in> set (rpcIssued s @ [(?q, m, f)]). q \<le> ?q" using D(1) by force
    show "distinct (map fst (rpcIssued s @ [(?q, m, f)]))" using D(2) fresh by (auto simp: image_iff)
    show "distinct (map fst (rpcCalls s))" by (rule D(3))
    show "\<forall>m'. distinct (map fst (waiting m' (RpcRequest dest m f s)))" using W(2) by blast
    show "\<forall>m' q f'. (q, f') \<in> set (waiting m' (RpcRequest dest m f s)) \<longrightarrow>
        (q, m', f') \<in> set (rpcIssued s @ [(?q, m, f)]) \<and> q \<notin> fst ` set (rpcCalls s)"
      using D(5,6) freshc by (auto simp: W(1) split: if_splits)
    show "\<forall>(q, f', r) \<in> set (rpcCalls s). \<exists>m'. (q, m', f') \<in> set (rpcIssued s @ [(?q, m, f)])"
      using D(7) by fastforce
    show "\<forall>(q, m', f') \<in> set (rpcIssued s @ [(?q, m, f)]). (q, f') \<in> set (waiting m' (RpcRequest dest m f s)) \<or> q \<in> fst ` set (rpcCalls s)"
      using D(8) by (fastforce simp: W(1))
  qed
qed

text \<open>Removing waiting callbacks and recording their calls keeps the invariant.\<close>

lemma rpc_inv_call:
  assumes inv: "rpc_inv s"
    and iss: "rpcIssued s' = rpcIssued s" "nQueryId s' = nQueryId s"
    and calls: "rpcCalls s' = rpcCalls s @ map (\<lambda>(q, f). (q, f, r q)) ds"
    and other: "\<And>m'. m' \<noteq> m \<Longrightarrow> waiting m' s' = waiting m' s"
    and split: "set (waiting m s) = set (waiting m s') \<union> set ds"
      "distinct (map fst (waiting m s'))" "distinct (map fst ds)"
      "fst ` set (waiting m s') \<inter> fst ` set ds = {}"
  shows "rpc_inv s'"
proof -
  note D = rpc_invD [OF inv]
  have called: "fst ` set (rpcCalls s') = fst ` set (rpcCalls s) \<union> fst ` set ds"
    by (force simp: calls)
  have uniq: "q \<in> fst ` set ds \<Longrightarrow> (q, f) \<in> set (waiting m' s') \<Longrightarrow> False" for q f m'
  proof (cases "m' = m")
    case False
    assume "q \<in> fst ` set ds" "(q, f) \<in> set (waiting m' s')"
    then obtain f' where "(q, f') \<in> set (waiting m s)" "(q, f) \<in> set (waiting m' s)"
      using other [OF False] split(1) by (metis Un_iff imageE prod.collapse)
    then have "(q, m, f') \<in> set (rpcIssued s)" "(q, m', f) \<in> set (rpcIssued s)" using D(5) by auto
    then show False using D(2) False by (metis eq_key_imp_eq_value prod.inject)
  qed (use split(4) in force)
  have sub: "(q, f) \<in> set (waiting m' s') \<Longrightarrow> (q, f) \<in> set (waiting m' s)" for q f m'
    using other split(1) by (cases "m' = m") auto
  show ?thesis
    unfolding rpc_inv_def iss
  proof (intro conjI)
    show "\<forall>(q, m, f) \<in> set (rpcIssued s). q \<le> nQueryId s" using D(1) by blast
    show "distinct (map fst (rpcIssued s))" by (rule D(2))
    have "fst ` set (rpcCalls s) \<inter> fst ` set ds = {}"
      using D(6) split(1) by force
    moreover have "map fst (rpcCalls s') = map fst (rpcCalls s) @ map fst ds"
      unfolding calls by (induction ds) auto
    ultimately show "distinct (map fst (rpcCalls s'))"
      using D(3) split(3) by simp
    show "\<forall>m'. distinct (map fst (waiting m' s'))" using D(4) other split(2) by metis
    show "\<forall>m' q f. (q, f) \<in> set (waiting m' s') \<longrightarrow> (q, m', f) \<in> set (rpcIssued s) \<and> q \<notin> fst ` set (rpcCalls s')"
    proof (intro allI impI conjI)
      fix m' q f assume w: "(q, f) \<in> set (waiting m' s')"
      show "(q, m', f) \<in> set (rpcIssued s)" by (rule D(5) [OF sub [OF w]])
      show "q \<notin> fst ` set (rpcCalls s')" using D(6) [OF sub [OF w]] uniq [OF _ w] unfolding called by blast
    qed
    show "\<forall>(q, f, r) \<in> set (rpcCalls s'). \<exists>m. (q, m, f) \<in> set (rpcIssued s)"
      using D(5,7) split(1) by (fastforce simp: calls)
    show "\<forall>(q, m', f) \<in> set (rpcIssued s). (q, f) \<in> set (waiting m' s') \<or> q \<in> fst ` set (rpcCalls s')"
    proof (clarify)
      fix q m' f assume i: "(q, m', f) \<in> set (rpcIssued s)" "q \<notin> fst ` set (rpcCalls s')"
      then have "(q, f) \<in> set (waiting m' s)" "q \<notin> fst ` set ds" using D(8) [OF i(1)] by (auto simp: called)
      then show "(q, f) \<in> set (waiting m' s')" using other [of m'] split(1) by (cases "m' = m") force+
    qed
  qed
qed

lemma set_erase:
  assumes "distinct (map fst xs)" "map_of xs q = Some f"
  shows "set xs = insert (q, f) (set (erase q xs))" "q \<notin> fst ` set (erase q xs)" "distinct (map fst (erase q xs))"
    "fst ` set (erase q xs) \<subseteq> fst ` set xs"
proof -
  have "x = (q, f)" if "x \<in> set xs" "fst x = q" for x
    using that assms(2) map_of_is_SomeI [OF assms(1), of "fst x" "snd x"] by (metis option.inject prod.collapse)
  then show "set xs = insert (q, f) (set (erase q xs))"
    using map_of_SomeD [OF assms(2)] unfolding erase_def set_filter by blast
  show "q \<notin> fst ` set (erase q xs)" "fst ` set (erase q xs) \<subseteq> fst ` set xs" by (auto simp: erase_def)
  show "distinct (map fst (erase q xs))"
    using assms(1) by (simp add: erase_def distinct_map_filter)
qed

lemma rpc_inv_RegisterNetHandle:
  assumes inv: "rpc_inv s"
  shows "rpc_inv (RegisterNetHandle m sid q rsp s)"
proof (cases "mapRpcContext s m")
  case None
  with inv show ?thesis by (simp add: RegisterNetHandle_def)
next
  case (Some c)
  let ?C = "mapCurrentCallback c" and ?L = "mapLastCallback c"
  have w: "waiting m s = ?C @ ?L" using Some by (simp add: waiting_def)
  then have d: "distinct (map fst ?C)" "distinct (map fst ?L)" "fst ` set ?C \<inter> fst ` set ?L = {}"
    using rpc_invD(4) [OF inv, of m] by simp_all
  note ctx = \<open>mapRpcContext s m = Some c\<close>
  have step: "rpc_inv s'" if "s' = (set_context m c' s)\<lparr>rpcCalls := rpcCalls s @ [(q, f, Response sid rsp)]\<rparr>"
      "set (?C @ ?L) = insert (q, f) (set (mapCurrentCallback c' @ mapLastCallback c'))"
      "distinct (map fst (mapCurrentCallback c' @ mapLastCallback c'))"
      "q \<notin> fst ` set (mapCurrentCallback c' @ mapLastCallback c')" for s' c' f
    using that ctx
    by (intro rpc_inv_call [OF inv, where ds = "[(q, f)]" and r = "\<lambda>_. Response sid rsp" and m = m])
      (simp_all add: waiting_def set_context_def)
  show ?thesis
  proof (cases "map_of ?C q")
    case (Some f)
    note e = set_erase [OF d(1) Some]
    have "q \<notin> fst ` set ?L" using d(3) Some by (metis disjoint_iff domI dom_map_of_conv_image_fst)
    moreover have "RegisterNetHandle m sid q rsp s = (set_context m (c\<lparr>mapCurrentCallback := erase q ?C\<rparr>) s)
        \<lparr>rpcCalls := rpcCalls s @ [(q, f, Response sid rsp)]\<rparr>"
      by (simp add: RegisterNetHandle_def ctx Some)
    ultimately show ?thesis
      using e d by (intro step [where f = f and c' = "c\<lparr>mapCurrentCallback := erase q ?C\<rparr>"]) auto
  next
    case None
    then show ?thesis
    proof (cases "map_of ?L q")
      case (Some f)
      note e = set_erase [OF d(2) Some]
      have "q \<notin> fst ` set ?C" using None by (simp add: map_of_eq_None_iff)
      moreover have "RegisterNetHandle m sid q rsp s = (set_context m (c\<lparr>mapLastCallback := erase q ?L\<rparr>) s)
          \<lparr>rpcCalls := rpcCalls s @ [(q, f, Response sid rsp)]\<rparr>"
        by (simp add: RegisterNetHandle_def ctx Some None)
      ultimately show ?thesis
        using e d by (intro step [where f = f and c' = "c\<lparr>mapLastCallback := erase q ?L\<rparr>"]) auto
    qed (use inv ctx None in \<open>simp add: RegisterNetHandle_def\<close>)
  qed
qed

definition clear_last :: "u32 \<Rightarrow> ('f, 'r) rpc_module \<Rightarrow> ('f, 'r) rpc_module" where
  "clear_last m s =
     (case mapRpcContext s m of None \<Rightarrow> s | Some c \<Rightarrow> set_context m (c\<lparr>mapLastCallback := []\<rparr>) s)"

definition requests :: "(session_id_t \<times> u32 \<times> 'f) list \<Rightarrow> ('f, 'r) rpc_module \<Rightarrow> ('f, 'r) rpc_module" where
  "requests nested s = fold (\<lambda>(dest, m, f). RpcRequest dest m f) nested s"

lemma RpcRequest_context: "mapRpcContext s m \<noteq> None \<Longrightarrow> mapRpcContext (RpcRequest dest m' f s) m \<noteq> None"
  by (auto simp: RpcRequest_def Let_def InitRpcContextMap_def GenQueryId_def set_context_def split: option.splits)

lemma RpcRequest_clear_last:
  assumes "mapRpcContext s m \<noteq> None"
  shows "RpcRequest dest m' f (clear_last m s) = clear_last m (RpcRequest dest m' f s)"
proof -
  obtain c where c: "mapRpcContext s m = Some c" using assms by blast
  show ?thesis
    by (cases s; cases c; cases "m' = m"; cases "mapRpcContext s m'"; use c in
      \<open>simp add: clear_last_def RpcRequest_def Let_def InitRpcContextMap_def GenQueryId_def set_context_def fun_upd_twist\<close>)
qed

lemma requests_clear_last:
  "mapRpcContext s m \<noteq> None \<Longrightarrow> requests nested (clear_last m s) = clear_last m (requests nested s) \<and> mapRpcContext (requests nested s) m \<noteq> None"
proof (induction nested arbitrary: s)
  case (Cons n nested)
  obtain dest m' f where "n = (dest, m', f)" by (cases n) auto
  then show ?case
    using Cons.IH [of "RpcRequest dest m' f s"] Cons.prems RpcRequest_context [OF Cons.prems, of dest m' f]
    by (simp add: requests_def RpcRequest_clear_last)
qed (simp add: requests_def)

lemma rpc_inv_requests: "rpc_inv s \<Longrightarrow> rpc_inv (requests nested s)"
  unfolding requests_def by (induction nested arbitrary: s) (auto simp: rpc_inv_RpcRequest)

lemma rpc_inv_cleared:
  assumes inv: "rpc_inv s" and c: "mapRpcContext s m = Some c"
  shows "rpc_inv (clear_last m (s\<lparr>rpcCalls := rpcCalls s @ map (\<lambda>(q, f). (q, f, TimedOut)) (mapLastCallback c)\<rparr>))"
proof -
  have "distinct (map fst (mapCurrentCallback c @ mapLastCallback c))"
    using rpc_invD(4) [OF inv, of m] c by (simp add: waiting_def)
  then show ?thesis
    using c by (intro rpc_inv_call [OF inv, where ds = "mapLastCallback c" and r = "\<lambda>_. TimedOut" and m = m])
      (auto simp: clear_last_def set_context_def waiting_def)
qed

lemma rpc_inv_RegisterTimeoutHandle:
  assumes inv: "rpc_inv s"
  shows "rpc_inv (RegisterTimeoutHandle m nested s)"
proof (cases "mapRpcContext s m")
  case None
  with inv show ?thesis by (simp add: RegisterTimeoutHandle_def)
next
  case (Some c)
  let ?s1 = "s\<lparr>rpcCalls := rpcCalls s @ map (\<lambda>(q, f). (q, f, TimedOut)) (mapLastCallback c)\<rparr>"
  have "rpc_inv (clear_last m ?s1)" by (rule rpc_inv_cleared [OF inv Some])
  moreover have "mapRpcContext ?s1 m \<noteq> None" using Some by simp
  ultimately have i2: "rpc_inv (clear_last m (requests nested ?s1))" and n2: "mapRpcContext (requests nested ?s1) m \<noteq> None"
    using requests_clear_last [of ?s1 m nested] rpc_inv_requests [of "clear_last m ?s1" nested] by auto
  obtain c2 where c2: "mapRpcContext (requests nested ?s1) m = Some c2" using n2 by blast
  have t: "RegisterTimeoutHandle m nested s = set_context m \<lparr>mapLastCallback = mapCurrentCallback c2, mapCurrentCallback = []\<rparr> (requests nested ?s1)"
    using Some c2 by (simp add: RegisterTimeoutHandle_def Let_def requests_def)
  have w: "waiting m' (RegisterTimeoutHandle m nested s) = waiting m' (clear_last m (requests nested ?s1))" for m'
    unfolding t using c2 by (simp add: waiting_def clear_last_def set_context_def)
  have r: "rpcIssued (RegisterTimeoutHandle m nested s) = rpcIssued (clear_last m (requests nested ?s1))"
      "rpcCalls (RegisterTimeoutHandle m nested s) = rpcCalls (clear_last m (requests nested ?s1))"
      "nQueryId (RegisterTimeoutHandle m nested s) = nQueryId (clear_last m (requests nested ?s1))"
    unfolding t using c2 by (simp_all add: clear_last_def set_context_def)
  show ?thesis using i2 unfolding rpc_inv_def w r .
qed

lemma rpc_inv_do: "rpc_inv s \<Longrightarrow> rpc_inv (rpc_do e s)"
  by (cases e) (auto simp: rpc_inv_RpcRequest rpc_inv_RegisterNetHandle rpc_inv_RegisterTimeoutHandle)

lemma rpc_inv_init: "rpc_inv RpcModule"
  by (simp add: rpc_inv_def RpcModule_def waiting_def)

interpretation rpc: invariant_system "\<lambda>s. s = RpcModule" "\<lambda>s s'. \<exists>e. s' = rpc_do e s" rpc_inv
  by unfold_locales (auto simp: rpc_inv_init rpc_inv_do)

lemma rpc_run_steps: "(\<lambda>s s'. \<exists>e. s' = rpc_do e s)\<^sup>*\<^sup>* s (rpc_run es s)"
proof (induction es arbitrary: s)
  case (Cons e es)
  then show ?case unfolding rpc_run_def fold_simps comp_apply by (metis (mono_tags, lifting) converse_rtranclp_into_rtranclp)
qed (simp add: rpc_run_def)

section \<open>Generations\<close>

text \<open>How many time-out periods a query may still wait: two in the current generation, one in the last.\<close>

definition generation :: "u32 \<Rightarrow> int \<Rightarrow> ('f, 'r) rpc_module \<Rightarrow> nat" where
  "generation m q s =
     (case mapRpcContext s m of
        None \<Rightarrow> 0
      | Some c \<Rightarrow> if q \<in> fst ` set (mapCurrentCallback c) then 2
                   else if q \<in> fst ` set (mapLastCallback c) then 1 else 0)"

fun ticks :: "u32 \<Rightarrow> ('f, 'r) rpc_event list \<Rightarrow> nat" where
  "ticks m [] = 0"
| "ticks m (Tick m' _ # es) = (if m' = m then Suc (ticks m es) else ticks m es)"
| "ticks m (_ # es) = ticks m es"

fun answers :: "u32 \<Rightarrow> int \<Rightarrow> ('f, 'r) rpc_event list \<Rightarrow> bool" where
  "answers m q [] = False"
| "answers m q (Respond m' _ q' _ # es) = (m' = m \<and> q' = q \<or> answers m q es)"
| "answers m q (_ # es) = answers m q es"

lemma generation_waiting: "generation m q s = 0 \<longleftrightarrow> q \<notin> fst ` set (waiting m s)"
  by (auto simp: generation_def waiting_def split: option.splits)

lemma generation_RpcRequest:
  assumes "rpc_inv s" "q \<le> nQueryId s"
  shows "generation m q (RpcRequest dest m' f s) = generation m q s"
  using assms(2) by (auto simp: RpcRequest_eq [OF assms(1)] generation_def split: option.splits)

lemma nQueryId_RpcRequest: "nQueryId (RpcRequest dest m f s) = nQueryId s + 1"
  by (simp add: RpcRequest_def Let_def InitRpcContextMap_def GenQueryId_def set_context_def split: option.splits)

lemma nQueryId_requests: "nQueryId s \<le> nQueryId (requests nested s)"
  unfolding requests_def
proof (induction nested arbitrary: s)
  case (Cons n nested)
  obtain dest m f where n: "n = (dest, m, f)" by (cases n) auto
  show ?case using Cons [of "RpcRequest dest m f s"] by (simp add: n nQueryId_RpcRequest)
qed simp

lemma fst_set_erase: "fst ` set (erase q xs) = fst ` set xs - {q}"
  by (auto simp: erase_def)

lemma generation_set_context:
  "generation m q (set_context m' c s\<lparr>rpcCalls := x\<rparr>) =
     (if m' = m then if q \<in> fst ` set (mapCurrentCallback c) then 2
                   else if q \<in> fst ` set (mapLastCallback c) then 1 else 0
      else generation m q s)"
  by (simp add: generation_def set_context_def)

lemma generation_RegisterNetHandle:
  assumes "rpc_inv s"
  shows "generation m q (RegisterNetHandle m' sid q' rsp s) =
    (if m' = m \<and> q' = q then 0 else generation m q s)"
proof (cases "mapRpcContext s m'")
  case None
  then show ?thesis by (auto simp: RegisterNetHandle_def generation_def)
next
  case (Some c)
  let ?C = "fst ` set (mapCurrentCallback c)" and ?L = "fst ` set (mapLastCallback c)"
  have d: "?C \<inter> ?L = {}" using rpc_invD(4) [OF assms, of m'] Some by (simp add: waiting_def)
  have g: "m' = m \<Longrightarrow> generation m q s = (if q \<in> ?C then 2 else if q \<in> ?L then 1 else 0)"
    using Some by (simp add: generation_def)
  consider "q' \<in> ?C" "q' \<notin> ?L" | "q' \<notin> ?C" "q' \<in> ?L" | "q' \<notin> ?C" "q' \<notin> ?L" using d by blast
  then show ?thesis
  proof cases
    case 1
    then obtain f where "map_of (mapCurrentCallback c) q' = Some f" by (metis map_of_eq_None_iff not_None_eq)
    then show ?thesis
      using Some g 1 by (auto simp: RegisterNetHandle_def generation_set_context fst_set_erase)
  next
    case 2
    then obtain f where "map_of (mapLastCallback c) q' = Some f" by (metis map_of_eq_None_iff not_None_eq)
    moreover have "map_of (mapCurrentCallback c) q' = None" using 2 by (simp add: map_of_eq_None_iff)
    ultimately show ?thesis
      using Some g 2 by (auto simp: RegisterNetHandle_def generation_set_context fst_set_erase)
  next
    case 3
    then have "map_of (mapCurrentCallback c) q' = None" "map_of (mapLastCallback c) q' = None"
      by (simp_all add: map_of_eq_None_iff)
    then show ?thesis using Some g 3 by (auto simp: RegisterNetHandle_def)
  qed
qed

lemma generation_requests:
  "rpc_inv s \<Longrightarrow> q \<le> nQueryId s \<Longrightarrow> generation m q (requests nested s) = generation m q s \<and> nQueryId s \<le> nQueryId (requests nested s)"
proof (induction nested arbitrary: s)
  case (Cons n nested)
  obtain dest m' f where "n = (dest, m', f)" by (cases n) auto
  then show ?case
    using Cons.IH [of "RpcRequest dest m' f s"] Cons.prems
    by (simp add: requests_def rpc_inv_RpcRequest nQueryId_RpcRequest generation_RpcRequest)
qed (simp add: requests_def)

lemma generation_clear_last:
  "generation m' q (clear_last m s) =
     (if m' = m then (if generation m q s = 2 then 2 else 0) else generation m' q s)"
  by (auto simp: generation_def clear_last_def set_context_def split: option.splits)

lemma generation_RegisterTimeoutHandle:
  assumes inv: "rpc_inv s" and q: "q \<le> nQueryId s"
  shows "generation m q (RegisterTimeoutHandle m' nested s) =
    (if m' = m then generation m q s - 1 else generation m q s)"
proof (cases "mapRpcContext s m'")
  case None
  then show ?thesis by (auto simp: RegisterTimeoutHandle_def generation_def)
next
  case (Some c)
  let ?s1 = "s\<lparr>rpcCalls := rpcCalls s @ map (\<lambda>(q, f). (q, f, TimedOut)) (mapLastCallback c)\<rparr>"
  have cl: "rpc_inv (clear_last m' ?s1)" "nQueryId (clear_last m' ?s1) = nQueryId s"
    using rpc_inv_cleared [OF inv Some] by (auto simp: clear_last_def set_context_def Some)
  note rc = requests_clear_last [of ?s1 m' nested]
  have "mapRpcContext ?s1 m' \<noteq> None" using Some by simp
  with rc obtain c2 where c2: "mapRpcContext (requests nested ?s1) m' = Some c2"
    and comm: "requests nested (clear_last m' ?s1) = clear_last m' (requests nested ?s1)" by blast
  have t: "RegisterTimeoutHandle m' nested s = set_context m' \<lparr>mapLastCallback = mapCurrentCallback c2, mapCurrentCallback = []\<rparr> (requests nested ?s1)"
    using Some c2 by (simp add: RegisterTimeoutHandle_def Let_def requests_def)
  have g: "generation m q (clear_last m' (requests nested ?s1)) = generation m q (clear_last m' ?s1)" for m
    using generation_requests [OF cl(1), of q m nested] q cl(2) comm by simp
  have "generation m q ?s1 = generation m q s" for m by (simp add: generation_def)
  then have g': "generation m q (clear_last m' (requests nested ?s1)) = (if m = m' then (if generation m q s = 2 then 2 else 0) else generation m q s)" for m
    unfolding g by (subst generation_clear_last) simp
  show ?thesis
  proof (cases "m' = m")
    case False
    then show ?thesis using g' [of m] unfolding t by (simp add: generation_def clear_last_def set_context_def c2)
  next
    case True
    have "generation m q (RegisterTimeoutHandle m' nested s) = (if generation m q (clear_last m' (requests nested ?s1)) = 2 then 1 else 0)"
      unfolding t using c2 True by (simp add: generation_def clear_last_def set_context_def)
    moreover have "generation m q s \<le> 2" by (simp add: generation_def split: option.splits)
    ultimately show ?thesis using g' [of m] True by auto
  qed
qed

lemma nQueryId_mono: "nQueryId s \<le> nQueryId (rpc_do e s)"
proof (cases e)
  case (Request dest m f)
  then show ?thesis by (simp add: nQueryId_RpcRequest)
next
  case (Respond m sid q r)
  then show ?thesis by (simp add: RegisterNetHandle_def set_context_def split: option.splits)
next
  case (Tick m nested)
  then show ?thesis
    using nQueryId_requests [of "s\<lparr>rpcCalls := x\<rparr>" nested for x]
    by (auto simp: RegisterTimeoutHandle_def Let_def set_context_def simp flip: requests_def split: option.splits)
qed

lemma generation_do:
  assumes "rpc_inv s" "q \<le> nQueryId s"
  shows "generation m q (rpc_do e s) = (if answers m q [e] then 0 else generation m q s - ticks m [e])"
  using assms
  by (cases e) (simp_all add: generation_RpcRequest generation_RegisterNetHandle generation_RegisterTimeoutHandle)

lemma ticks_Cons: "ticks m (e # es) = ticks m [e] + ticks m es"
  by (cases e) simp_all

lemma answers_Cons: "answers m q (e # es) \<longleftrightarrow> answers m q [e] \<or> answers m q es"
  by (cases e) simp_all

lemma generation_run:
  assumes "rpc_inv s" "q \<le> nQueryId s"
  shows "generation m q (rpc_run es s) = (if answers m q es then 0 else generation m q s - ticks m es)"
  using assms
proof (induction es arbitrary: s)
  case (Cons e es)
  have "rpc_run (e # es) s = rpc_run es (rpc_do e s)" by (simp add: rpc_run_def)
  then show ?case
    using Cons.IH [of "rpc_do e s"] Cons.prems rpc_inv_do [of s e] nQueryId_mono [of s e]
    unfolding ticks_Cons [of m e es] answers_Cons [of m q e es]
    by (simp add: generation_do)
qed (simp add: rpc_run_def)

lemma rpc_run_inv: "rpc_inv s \<Longrightarrow> rpc_inv (rpc_run es s)"
  by (rule rpc.steps_inv [OF rpc_run_steps])

lemma issued_RpcRequest: "set (rpcIssued s) \<subseteq> set (rpcIssued (RpcRequest dest m f s))"
  by (auto simp: RpcRequest_def Let_def InitRpcContextMap_def GenQueryId_def set_context_def split: option.splits)

lemma issued_requests: "set (rpcIssued s) \<subseteq> set (rpcIssued (requests nested s))"
  unfolding requests_def
proof (induction nested arbitrary: s)
  case (Cons n nested)
  obtain dest m f where n: "n = (dest, m, f)" by (cases n) auto
  show ?case using Cons [of "RpcRequest dest m f s"] issued_RpcRequest [of s dest m f] by (simp add: n)
qed simp

lemma issued_do: "set (rpcIssued s) \<subseteq> set (rpcIssued (rpc_do e s))"
proof (cases e)
  case (Request dest m f)
  then show ?thesis using issued_RpcRequest by simp
next
  case (Respond m sid q r)
  then show ?thesis by (simp add: RegisterNetHandle_def set_context_def split: option.splits)
next
  case (Tick m nested)
  then show ?thesis
    using issued_requests [of "s\<lparr>rpcCalls := x\<rparr>" nested for x]
    by (auto simp: RegisterTimeoutHandle_def Let_def set_context_def simp flip: requests_def split: option.splits)
qed

lemma issued_run: "set (rpcIssued s) \<subseteq> set (rpcIssued (rpc_run es s))"
proof (induction es arbitrary: s)
  case (Cons e es)
  then show ?case using issued_do [of s e] by (fastforce simp: rpc_run_def)
qed (simp add: rpc_run_def)

text \<open>An issued query has been called exactly when it waits in no generation.\<close>

lemma called_iff:
  assumes inv: "rpc_inv s" and i: "(q, m, f) \<in> set (rpcIssued s)"
  shows "q \<in> fst ` set (rpcCalls s) \<longleftrightarrow> generation m q s = 0"
proof -
  have "q \<in> fst ` set (waiting m s)" if "q \<notin> fst ` set (rpcCalls s)"
    using rpc_invD(8) [OF inv i] that by force
  moreover have "q \<notin> fst ` set (rpcCalls s)" if "q \<in> fst ` set (waiting m s)"
    using rpc_invD(6) [OF inv] that by force
  ultimately show ?thesis unfolding generation_waiting by blast
qed

lemma call_of_issued:
  assumes inv: "rpc_inv s" and i: "(q, m, f) \<in> set (rpcIssued s)" and c: "(q, f', r) \<in> set (rpcCalls s)"
  shows "f' = f"
proof -
  obtain m' where "(q, m', f') \<in> set (rpcIssued s)" using rpc_invD(7) [OF inv c] by blast
  then show ?thesis using i rpc_invD(2) [OF inv] by (metis eq_key_imp_eq_value prod.inject)
qed

lemma rpc_run_RpcModule_inv: "rpc_inv (rpc_run es RpcModule)"
  by (rule rpc.reachable_inv [OF refl rpc_run_steps])

lemma waiting_of_issued:
  assumes "rpc_inv s" "(q, m, f) \<in> set (rpcIssued s)" "q \<notin> fst ` set (rpcCalls s)"
  shows "(q, f) \<in> set (waiting m s)"
  using rpc_invD(8) [OF assms(1,2)] assms(3) by blast

lemma RegisterNetHandle_waiting:
  assumes inv: "rpc_inv s" and w: "(q, f) \<in> set (waiting m s)"
  shows "rpcCalls (RegisterNetHandle m sid q rsp s) = rpcCalls s @ [(q, f, Response sid rsp)]"
proof -
  obtain c where c: "mapRpcContext s m = Some c" "(q, f) \<in> set (mapCurrentCallback c @ mapLastCallback c)"
    using w by (cases "mapRpcContext s m") (auto simp: waiting_def)
  have "distinct (map fst (mapCurrentCallback c @ mapLastCallback c))"
    using rpc_invD(4) [OF inv, of m] c by (simp add: waiting_def)
  then have "map_of (mapCurrentCallback c @ mapLastCallback c) q = Some f"
    using c(2) by (rule map_of_is_SomeI)
  then show ?thesis
    using c by (auto simp: RegisterNetHandle_def set_context_def map_add_Some_iff split: option.splits)
qed

lemma RegisterNetHandle_unknown:
  assumes "generation m q s = 0"
  shows "RegisterNetHandle m sid q rsp s = s"
proof (cases "mapRpcContext s m")
  case (Some c)
  then have "map_of (mapCurrentCallback c) q = None" "map_of (mapLastCallback c) q = None"
    using assms by (auto simp: generation_def map_of_eq_None_iff split: if_splits)
  then show ?thesis using Some by (simp add: RegisterNetHandle_def)
qed (simp add: RegisterNetHandle_def)

lemma distinct_key_filter:
  "distinct (map fst xs) \<Longrightarrow> (q, y) \<in> set xs \<Longrightarrow> filter (\<lambda>c. fst c = q) xs = [(q, y)]"
proof (induction xs)
  case (Cons x xs)
  show ?case
  proof (cases "fst x = q")
    case True
    then have n: "q \<notin> fst ` set xs" using Cons.prems(1) by simp
    then have "x = (q, y)" using Cons.prems(2) by (force simp: rev_image_eqI)
    moreover have "filter (\<lambda>c. fst c = q) xs = []" using n by (force simp: filter_empty_conv)
    ultimately show ?thesis by simp
  qed (use Cons in auto)
qed simp

text \<open>A fresh request, then any further events.\<close>

lemma after_request:
  fixes s :: "('f, 'r) rpc_module" and es :: "('f, 'r) rpc_event list" and dest and m and f
  assumes inv: "rpc_inv s"
  defines "q \<equiv> nQueryId s + 1"
  defines "s2 \<equiv> rpc_run es (RpcRequest dest m f s)"
  shows "rpc_inv s2" "(q, m, f) \<in> set (rpcIssued s2)"
    "generation m q s2 = (if answers m q es then 0 else 2 - ticks m es)"
proof -
  let ?s1 = "RpcRequest dest m f s"
  have i: "rpc_inv ?s1" by (rule rpc_inv_RpcRequest [OF inv])
  then show "rpc_inv s2" unfolding s2_def by (rule rpc_run_inv)
  have "(q, m, f) \<in> set (rpcIssued ?s1)" by (simp add: RpcRequest_eq [OF inv] q_def)
  then show "(q, m, f) \<in> set (rpcIssued s2)" unfolding s2_def using issued_run by blast
  have "generation m q ?s1 = 2" by (auto simp: RpcRequest_eq [OF inv] q_def generation_def)
  then show "generation m q s2 = (if answers m q es then 0 else 2 - ticks m es)"
    unfolding s2_def using generation_run [OF i, of q m es] by (simp add: nQueryId_RpcRequest q_def)
qed

section \<open>Properties\<close>

text \<open>
  C7: whatever sequence of requests, responses and time-out ticks ran: query ids are unique; every
  request either still waits, in exactly one generation and uncalled, or its own callback was called
  exactly once; and nothing else is ever called.
\<close>

theorem rpc_exactly_once:
  fixes es :: "('f, 'r) rpc_event list"
  defines "s \<equiv> rpc_run es RpcModule"
  shows "distinct (map fst (rpcIssued s)) \<and>
    (\<forall>q m f. (q, m, f) \<in> set (rpcIssued s) \<longrightarrow>
       (filter (\<lambda>w. fst w = q) (waiting m s) = [(q, f)] \<and> filter (\<lambda>c. fst c = q) (rpcCalls s) = []) \<or>
       (filter (\<lambda>w. fst w = q) (waiting m s) = [] \<and> (\<exists>r. filter (\<lambda>c. fst c = q) (rpcCalls s) = [(q, f, r)]))) \<and>
    fst ` set (rpcCalls s) \<subseteq> fst ` set (rpcIssued s)"
proof (intro conjI allI impI)
  have inv: "rpc_inv s" unfolding s_def by (rule rpc_run_RpcModule_inv)
  note D = rpc_invD [OF inv]
  show "distinct (map fst (rpcIssued s))" by (rule D(2))
  show "fst ` set (rpcCalls s) \<subseteq> fst ` set (rpcIssued s)" using D(7) by force
  fix q m f assume i: "(q, m, f) \<in> set (rpcIssued s)"
  show "(filter (\<lambda>w. fst w = q) (waiting m s) = [(q, f)] \<and> filter (\<lambda>c. fst c = q) (rpcCalls s) = []) \<or>
       (filter (\<lambda>w. fst w = q) (waiting m s) = [] \<and> (\<exists>r. filter (\<lambda>c. fst c = q) (rpcCalls s) = [(q, f, r)]))"
  proof (cases "q \<in> fst ` set (rpcCalls s)")
    case False
    then show ?thesis
      using distinct_key_filter [OF D(4) waiting_of_issued [OF inv i False]] by (force simp: filter_empty_conv)
  next
    case True
    then obtain f' r where c: "(q, f', r) \<in> set (rpcCalls s)" by force
    moreover have "f' = f" by (rule call_of_issued [OF inv i c])
    moreover have "q \<notin> fst ` set (waiting m s)" using True D(6) by force
    ultimately show ?thesis
      using distinct_key_filter [OF D(3)] by (force simp: filter_empty_conv)
  qed
qed

theorem rpc_exactly_once_witness:
  "rpcIssued (rpc_run [Request 7 5 ''a'', Tick 5 [], Request 7 5 ''b'', Tick 5 [(7, 5, ''c'')], Respond 5 7 2 True] RpcModule)
     = [(1, 5, ''a''), (2, 5, ''b''), (3, 5, ''c'')] \<and>
   rpcCalls (rpc_run [Request 7 5 ''a'', Tick 5 [], Request 7 5 ''b'', Tick 5 [(7, 5, ''c'')], Respond 5 7 2 True] RpcModule)
     = [(1, ''a'', TimedOut), (2, ''b'', Response 7 True)]"
  using rpc_exactly_once [of "[Request 7 5 ''a'', Tick 5 [], Request 7 5 ''b'', Tick 5 [(7, 5, ''c'')], Respond 5 7 2 True]"]
  by (simp add: rpc_run_def RpcModule_def RpcRequest_def Let_def InitRpcContextMap_def GenQueryId_def set_context_def
      RegisterTimeoutHandle_def RegisterNetHandle_def emplace_def erase_def)

text \<open>
  C8: at any time, a request's callback has been called after further events exactly when among
  these was a response to its query id or at least two time-out ticks of its message id: it is
  never left without an answer and never timed out before a full period has passed.
\<close>

theorem rpc_called_iff:
  fixes es0 es :: "('f, 'r) rpc_event list" and dest and m and f
  defines "s \<equiv> rpc_run es0 RpcModule"
  shows "(\<exists>r. (nQueryId s + 1, f, r) \<in> set (rpcCalls (rpc_run es (RpcRequest dest m f s)))) \<longleftrightarrow>
    answers m (nQueryId s + 1) es \<or> 2 \<le> ticks m es"
proof -
  let ?q = "nQueryId s + 1" and ?s2 = "rpc_run es (RpcRequest dest m f s)"
  have inv: "rpc_inv s" unfolding s_def by (rule rpc_run_RpcModule_inv)
  note A = after_request [OF inv, where es = es and dest = dest and m = m and f = f]
  have "(\<exists>r. (?q, f, r) \<in> set (rpcCalls ?s2)) \<longleftrightarrow> ?q \<in> fst ` set (rpcCalls ?s2)"
    using call_of_issued [OF A(1,2)] by force
  then show ?thesis unfolding called_iff [OF A(1,2)] A(3) by simp
qed

text \<open>
  C9: a response that arrives before the second tick calls the request's callback with that
  response; a response to a query that was answered or timed out changes nothing.
\<close>

theorem rpc_response_delivered:
  fixes es0 es :: "('f, 'r) rpc_event list" and dest and m and f
  defines "s \<equiv> rpc_run es0 RpcModule"
  defines "s2 \<equiv> rpc_run es (RpcRequest dest m f s)"
  shows "if answers m (nQueryId s + 1) es \<or> 2 \<le> ticks m es
    then RegisterNetHandle m sid (nQueryId s + 1) rsp s2 = s2
    else rpcCalls (RegisterNetHandle m sid (nQueryId s + 1) rsp s2) = rpcCalls s2 @ [(nQueryId s + 1, f, Response sid rsp)]"
proof -
  let ?q = "nQueryId s + 1"
  have inv: "rpc_inv s" unfolding s_def by (rule rpc_run_RpcModule_inv)
  note A = after_request [OF inv, where es = es and dest = dest and m = m and f = f, folded s2_def]
  show ?thesis
  proof (cases "generation m ?q s2 = 0")
    case True
    then show ?thesis using RegisterNetHandle_unknown [OF True] A(3) by (auto split: if_splits)
  next
    case False
    then have "(?q, f) \<in> set (waiting m s2)"
      using waiting_of_issued [OF A(1,2)] called_iff [OF A(1,2)] by simp
    then show ?thesis using RegisterNetHandle_waiting [OF A(1)] False A(3) by (auto split: if_splits)
  qed
qed

end
