(* ===== verification/Service_Government.thy ===== *)
theory Service_Government
  imports Net_Pb Xml_Config "HOL-Library.AList"
begin

text \<open>
  \<open>ServiceGovernmentModule\<close> (common/service/service_government_module.h and .cpp): the table of
  servers read from the configuration, the outgoing connections this server keeps alive, the
  heartbeat coroutine on each of them and the choice of a server by key. Everything runs on the main
  loop. The unordered outer map is an association list whose order stands for the unspecified
  iteration order; the inner \<open>std::map\<close> is an association list sorted by key. A timer handle is a
  number, the pending timers are the functions the main loop will run. Outstanding connects, open
  connections and suspended heartbeat coroutines are lists; which of them completes next is the
  argument of an event.
\<close>

section \<open>State\<close>

record server_instance_info =
  siServerConfigId :: int64
  siServerType :: int32
  siServerIndex :: int32
  siSessionId :: session_id_t
  siServerIp :: string
  siPort :: int32
  siPublicIp :: string
  siPublicPort :: int32
  siTimerReconnect :: "nat option"
  siTimerHeartbeat :: "nat option"

definition ServerInstanceInfo :: server_instance_info where
  "ServerInstanceInfo = \<lparr>siServerConfigId = 0, siServerType = 0, siServerIndex = 0, siSessionId = 0,
     siServerIp = [], siPort = 0, siPublicIp = [], siPublicPort = 0, siTimerReconnect = None,
     siTimerHeartbeat = None\<rparr>"

type_synonym server_map = "(int32 \<times> (int32 \<times> server_instance_info) list) list"

datatype gov_timer =
    TimerReconnect (timer_info: server_instance_info)
  | TimerHeartbeat (timer_info: server_instance_info)

record gov =
  gvServerName :: string
  gvServerType :: int32
  gvServerId :: int32
  gvServerIp :: string
  gvServerPort :: int32
  gvPublicIp :: string
  gvPublicPort :: int32
  gvMineServerInfo :: server_instance_info
  gvConnectServerList :: server_map
  gvServerList :: server_map
  gvTimers :: "(nat \<times> gov_timer) list"
  gvNextTimer :: nat
  gvListen :: "(string \<times> u16) list"
  gvConnecting :: "(string \<times> u16 \<times> server_instance_info) list"
  gvSessions :: "(session_id_t \<times> server_instance_info) list"
  gvHeartbeats :: "server_instance_info list"
  gvClosed :: "session_id_t list"
  gvSent :: "(session_id_t \<times> server_head \<times> int64) list"

definition ServiceGovernmentModule :: gov where
  "ServiceGovernmentModule = \<lparr>gvServerName = [], gvServerType = 0, gvServerId = 0, gvServerIp = [],
     gvServerPort = 0, gvPublicIp = [], gvPublicPort = 0, gvMineServerInfo = ServerInstanceInfo,
     gvConnectServerList = [], gvServerList = [], gvTimers = [], gvNextTimer = 0, gvListen = [],
     gvConnecting = [], gvSessions = [], gvHeartbeats = [], gvClosed = [], gvSent = []\<rparr>"

definition SetServerInstance :: "string \<Rightarrow> int32 \<Rightarrow> u32 \<Rightarrow> gov \<Rightarrow> gov" where
  "SetServerInstance strName nServerType nServerId s =
     s\<lparr>gvServerName := strName, gvServerId := sint nServerId, gvServerType := nServerType\<rparr>"

section \<open>Maps\<close>

fun put :: "'k :: linorder \<Rightarrow> 'v \<Rightarrow> ('k \<times> 'v) list \<Rightarrow> ('k \<times> 'v) list" where
  "put k v [] = [(k, v)]"
| "put k v ((k', v') # m) =
     (if k < k' then (k, v) # (k', v') # m else if k = k' then (k, v) # m else (k', v') # put k v m)"

definition inner :: "int32 \<Rightarrow> server_map \<Rightarrow> (int32 \<times> server_instance_info) list" where
  "inner t m = (case map_of m t of None \<Rightarrow> [] | Some x \<Rightarrow> x)"

definition assign :: "int32 \<Rightarrow> int32 \<Rightarrow> server_instance_info \<Rightarrow> server_map \<Rightarrow> server_map" where
  "assign t i v m = AList.update t (put i v (inner t m)) m"

definition find_server :: "int32 \<Rightarrow> int32 \<Rightarrow> server_map \<Rightarrow> server_instance_info option" where
  "find_server t i m = (case map_of m t of None \<Rightarrow> None | Some x \<Rightarrow> map_of x i)"

definition GetServerInstanceInfo :: "int32 \<Rightarrow> int32 \<Rightarrow> gov \<Rightarrow> server_instance_info option" where
  "GetServerInstanceInfo nServerType nServerId s = find_server nServerType nServerId (gvServerList s)"

text \<open>A write through the pointer that \<open>GetServerInstanceInfo\<close> returned.\<close>

definition store_info :: "int32 \<Rightarrow> int32 \<Rightarrow> server_instance_info \<Rightarrow> gov \<Rightarrow> gov" where
  "store_info t i p s = s\<lparr>gvServerList := assign t i p (gvServerList s)\<rparr>"

section \<open>Configuration\<close>

definition AddressToIpPort :: "string \<Rightarrow> string \<Rightarrow> int32 \<Rightarrow> bool \<times> string \<times> int32" where
  "AddressToIpPort strAddress strIp nPort =
     (case find_char (CHR '' '') strAddress of
        None \<Rightarrow> (False, strIp, nPort)
      | Some posSpace \<Rightarrow> (True, take posSpace strAddress, atoi (drop (posSpace + 1) strAddress)))"

definition is_mine :: "gov \<Rightarrow> server_list_config_data \<Rightarrow> bool" where
  "is_mine s d \<longleftrightarrow> slServerType d = gvServerType s \<and> slServerIndex d = gvServerId s"

definition InitConfig_mine :: "server_list_config_data \<Rightarrow> gov \<Rightarrow> gov" where
  "InitConfig_mine d s =
     (case AddressToIpPort (slPublicIp d) (gvPublicIp s) (gvPublicPort s) of
        (_, publicIp, publicPort) \<Rightarrow>
          (case AddressToIpPort (slServerIp d) (gvServerIp s) (gvServerPort s) of
             (_, serverIp, serverPort) \<Rightarrow>
               s\<lparr>gvPublicIp := publicIp, gvPublicPort := publicPort, gvServerIp := serverIp, gvServerPort := serverPort,
                 gvMineServerInfo := (gvMineServerInfo s)
                   \<lparr>siServerConfigId := slNId d, siServerIp := serverIp, siPort := serverPort\<rparr>\<rparr>))"

definition instance_info :: "server_list_config_data \<Rightarrow> server_instance_info" where
  "instance_info d =
     (let st = ServerInstanceInfo\<lparr>siServerConfigId := slNId d, siServerType := slServerType d, siServerIndex := slServerIndex d\<rparr>
      in case AddressToIpPort (slServerIp d) (siServerIp st) (siPort st) of
           (_, ip, port) \<Rightarrow>
             (case AddressToIpPort (slPublicIp d) (siPublicIp st) (siPublicPort st) of
                (_, pip, pport) \<Rightarrow> st\<lparr>siServerIp := ip, siPort := port, siPublicIp := pip, siPublicPort := pport\<rparr>))"

definition InitConfig_row :: "int32 list \<Rightarrow> server_list_config_data \<Rightarrow> gov \<Rightarrow> gov" where
  "InitConfig_row vecDestServers d s =
     (let st = instance_info d;
          s = s\<lparr>gvServerList := assign (slServerType d) (slServerIndex d) st (gvServerList s)\<rparr>
      in if slServerType d \<notin> set vecDestServers then s
         else if is_mine s d then s
         else if map_of (inner (slServerType d) (gvConnectServerList s)) (slServerIndex d) \<noteq> None then s
         else s\<lparr>gvConnectServerList := assign (slServerType d) (slServerIndex d) st (gvConnectServerList s)\<rparr>)"

definition InitConfig :: "server_list_config_data list \<Rightarrow> gov \<Rightarrow> gov" where
  "InitConfig rows s =
     (let s = s\<lparr>gvConnectServerList := [], gvServerList := []\<rparr>;
          (s, vecDestServers) = (case find (is_mine s) rows of
              None \<Rightarrow> (s, [])
            | Some d \<Rightarrow> (InitConfig_mine d s, slConnectList d))
      in fold (InitConfig_row vecDestServers) rows s)"

section \<open>Connections\<close>

definition InitListen :: "gov \<Rightarrow> gov" where
  "InitListen s =
     (if siServerIp (gvMineServerInfo s) = [] \<or> siPort (gvMineServerInfo s) = 0 then s
      else s\<lparr>gvListen := gvListen s @ [(siServerIp (gvMineServerInfo s), word_of_int (siPort (gvMineServerInfo s)))]\<rparr>)"

definition ConnectServerInstance :: "server_instance_info \<Rightarrow> gov \<Rightarrow> gov" where
  "ConnectServerInstance st s = s\<lparr>gvConnecting := gvConnecting s @ [(siServerIp st, word_of_int (siPort st), st)]\<rparr>"

definition InitConnect :: "gov \<Rightarrow> gov" where
  "InitConnect s = fold (\<lambda>(_, m). fold (\<lambda>(_, st). ConnectServerInstance st) m) (gvConnectServerList s) s"

definition Gov_OnInit :: "gov \<Rightarrow> gov" where
  "Gov_OnInit s = InitConnect (InitListen s)"

definition gov_ExecAfter :: "gov_timer \<Rightarrow> gov \<Rightarrow> nat \<times> gov" where
  "gov_ExecAfter tm s = (gvNextTimer s, s\<lparr>gvTimers := gvTimers s @ [(gvNextTimer s, tm)], gvNextTimer := gvNextTimer s + 1\<rparr>)"

definition gov_cancel :: "nat option \<Rightarrow> gov \<Rightarrow> gov" where
  "gov_cancel h s = (case h of None \<Rightarrow> s | Some n \<Rightarrow> s\<lparr>gvTimers := filter (\<lambda>t. fst t \<noteq> n) (gvTimers s)\<rparr>)"

definition OnDisconnect :: "session_id_t \<Rightarrow> server_instance_info \<Rightarrow> gov \<Rightarrow> gov" where
  "OnDisconnect sid st s =
     (case GetServerInstanceInfo (siServerType st) (siServerIndex st) s of
        None \<Rightarrow> s
      | Some p \<Rightarrow>
          let p' = (if siSessionId p \<noteq> 0 \<and> siSessionId p = sid then p\<lparr>siSessionId := 0\<rparr> else p);
              s = gov_cancel (siTimerHeartbeat p') s;
              p' = p'\<lparr>siTimerHeartbeat := None\<rparr>;
              s = gov_cancel (siTimerReconnect p') s
          in case gov_ExecAfter (TimerReconnect st) s of
               (h, s) \<Rightarrow> store_info (siServerType st) (siServerIndex st) (p'\<lparr>siTimerReconnect := Some h\<rparr>) s)"

text \<open>
  \<open>OnHeartbeat\<close> up to its \<open>co_await\<close> sends the request to the session and suspends with its copy of
  the server's entry; the rest runs with the error code of the answer.
\<close>

definition OnHeartbeat :: "server_instance_info \<Rightarrow> gov \<Rightarrow> gov" where
  "OnHeartbeat st s = s\<lparr>gvHeartbeats := gvHeartbeats s @ [st]\<rparr>"

definition OnHeartbeat_resume :: "int32 \<Rightarrow> server_instance_info \<Rightarrow> gov \<Rightarrow> gov" where
  "OnHeartbeat_resume error_code st s =
     (case GetServerInstanceInfo (siServerType st) (siServerIndex st) s of
        None \<Rightarrow> s
      | Some p \<Rightarrow>
          (case gov_ExecAfter (TimerHeartbeat st) (gov_cancel (siTimerHeartbeat p) s) of
             (h, s) \<Rightarrow>
               let s = store_info (siServerType st) (siServerIndex st) (p\<lparr>siTimerHeartbeat := Some h\<rparr>) s
               in if error_code \<noteq> 0
                  then OnDisconnect (siSessionId st) st (s\<lparr>gvClosed := gvClosed s @ [siSessionId st]\<rparr>)
                  else s))"

definition OnConnectSucess :: "session_id_t \<Rightarrow> server_instance_info \<Rightarrow> bool \<Rightarrow> gov \<Rightarrow> gov" where
  "OnConnectSucess sid st bSuccess s =
     (if \<not> bSuccess then OnDisconnect sid st s
      else case GetServerInstanceInfo (siServerType st) (siServerIndex st) s of
             None \<Rightarrow> s
           | Some p \<Rightarrow>
               let p = p\<lparr>siSessionId := sid\<rparr>
               in OnHeartbeat p (store_info (siServerType st) (siServerIndex st) p s))"

definition OnHandleSSHeartbeatReq :: "session_id_t \<Rightarrow> server_head \<Rightarrow> int64 \<Rightarrow> gov \<Rightarrow> gov" where
  "OnHandleSSHeartbeatReq sessionId head req_time s =
     (case GetServerInstanceInfo (sh_src_server_type head) (sh_src_server_index head) s of
        None \<Rightarrow> s\<lparr>gvSent := gvSent s @ [(sessionId, head\<lparr>sh_error_code := 1\<rparr>, req_time)]\<rparr>
      | Some p \<Rightarrow>
          let s = (if siSessionId p \<noteq> sessionId
                   then store_info (sh_src_server_type head) (sh_src_server_index head) (p\<lparr>siSessionId := sessionId\<rparr>) s else s)
          in s\<lparr>gvSent := gvSent s @ [(sessionId, head, req_time)]\<rparr>)"

text \<open>The timer functions; \<open>None\<close> is the null pointer the reconnect function would dereference.\<close>

fun timer_function :: "gov_timer \<Rightarrow> gov \<Rightarrow> gov option" where
  "timer_function (TimerReconnect st) s =
     map_option (\<lambda>p. ConnectServerInstance p s) (GetServerInstanceInfo (siServerType st) (siServerIndex st) s)"
| "timer_function (TimerHeartbeat st) s =
     Some (case GetServerInstanceInfo (siServerType st) (siServerIndex st) s of
             None \<Rightarrow> s | Some p \<Rightarrow> OnHeartbeat p s)"

section \<open>Choosing a server\<close>

definition GetServerKeyIndex :: "int32 \<Rightarrow> string \<Rightarrow> gov \<Rightarrow> int32 option" where
  "GetServerKeyIndex nServerType strKey s =
     (case map_of (gvServerList s) nServerType of
        None \<Rightarrow> Some 0
      | Some m \<Rightarrow> map_option (\<lambda>c. to_int32 (uint ((ucast c :: size_t) mod size_of m + 1))) (CRC32_string strKey))"

definition GetServerSessionId :: "int32 \<Rightarrow> int32 \<Rightarrow> gov \<Rightarrow> session_id_t" where
  "GetServerSessionId nServerType nServerId s =
     (case GetServerInstanceInfo nServerType nServerId s of None \<Rightarrow> 0 | Some p \<Rightarrow> siSessionId p)"

definition GetServerSessionIdByKey :: "int32 \<Rightarrow> string \<Rightarrow> gov \<Rightarrow> session_id_t option" where
  "GetServerSessionIdByKey nServerType strKey s =
     map_option (\<lambda>i. GetServerSessionId nServerType i s) (GetServerKeyIndex nServerType strKey s)"

section \<open>Events\<close>

datatype gov_event =
    ConnectDone nat session_id_t bool
  | SessionClosed nat
  | HeartbeatDone nat int32
  | TimerFired nat
  | HeartbeatReq session_id_t server_head int64

definition remove_nth :: "nat \<Rightarrow> 'a list \<Rightarrow> 'a list" where
  "remove_nth n xs = take n xs @ drop (Suc n) xs"

fun gov_do :: "gov_event \<Rightarrow> gov \<Rightarrow> gov option" where
  "gov_do (ConnectDone n sid ok) s =
     (if n < length (gvConnecting s) then
        (case gvConnecting s ! n of (_, _, st) \<Rightarrow>
           let s = s\<lparr>gvConnecting := remove_nth n (gvConnecting s),
                     gvSessions := (if ok then gvSessions s @ [(sid, st)] else gvSessions s)\<rparr>
           in Some (OnConnectSucess sid st ok s))
      else Some s)"
| "gov_do (SessionClosed n) s =
     (if n < length (gvSessions s) then
        (case gvSessions s ! n of (sid, st) \<Rightarrow>
           Some (OnDisconnect sid st (s\<lparr>gvSessions := remove_nth n (gvSessions s)\<rparr>)))
      else Some s)"
| "gov_do (HeartbeatDone n err) s =
     (if n < length (gvHeartbeats s) then
        Some (OnHeartbeat_resume err (gvHeartbeats s ! n) (s\<lparr>gvHeartbeats := remove_nth n (gvHeartbeats s)\<rparr>))
      else Some s)"
| "gov_do (TimerFired h) s =
     (case map_of (gvTimers s) h of
        None \<Rightarrow> Some s
      | Some tm \<Rightarrow> timer_function tm (s\<lparr>gvTimers := filter (\<lambda>t. fst t \<noteq> h) (gvTimers s)\<rparr>))"
| "gov_do (HeartbeatReq sid head t) s = Some (OnHandleSSHeartbeatReq sid head t s)"

fun gov_run :: "gov_event list \<Rightarrow> gov \<Rightarrow> gov option" where
  "gov_run [] s = Some s"
| "gov_run (e # es) s = (case gov_do e s of None \<Rightarrow> None | Some s' \<Rightarrow> gov_run es s')"

section \<open>Look-ups\<close>

lemma map_of_put [simp]: "map_of (put k v m) = (map_of m)(k \<mapsto> v)"
  by (induction k v m rule: put.induct) (auto simp: fun_eq_iff)

lemma find_server_assign [simp]:
  "find_server t' i' (assign t i v m) = (if t' = t \<and> i' = i then Some v else find_server t' i' m)"
  by (auto simp: find_server_def assign_def inner_def update_conv split: option.splits)

lemma GetServerInstanceInfo_store_info [simp]:
  "GetServerInstanceInfo t' i' (store_info t i p s) =
     (if t' = t \<and> i' = i then Some p else GetServerInstanceInfo t' i' s)"
  by (simp add: GetServerInstanceInfo_def store_info_def)

lemma GetServerInstanceInfo_cong:
  "gvServerList s' = gvServerList s \<Longrightarrow> GetServerInstanceInfo t i s' = GetServerInstanceInfo t i s"
  by (simp add: GetServerInstanceInfo_def)

lemma gov_cancel_simps [simp]:
  "gvServerList (gov_cancel h s) = gvServerList s" "gvNextTimer (gov_cancel h s) = gvNextTimer s"
  "gvConnecting (gov_cancel h s) = gvConnecting s" "gvSessions (gov_cancel h s) = gvSessions s"
  "gvHeartbeats (gov_cancel h s) = gvHeartbeats s"
  "gvTimers (gov_cancel h s) = filter (\<lambda>t. Some (fst t) \<noteq> h) (gvTimers s)"
  by (auto simp: gov_cancel_def split: option.splits)

lemma store_info_simps [simp]:
  "gvTimers (store_info t i p s) = gvTimers s" "gvNextTimer (store_info t i p s) = gvNextTimer s"
  "gvConnecting (store_info t i p s) = gvConnecting s" "gvSessions (store_info t i p s) = gvSessions s"
  "gvHeartbeats (store_info t i p s) = gvHeartbeats s"
  by (simp_all add: store_info_def)

section \<open>Invariant\<close>

definition server_key :: "server_instance_info \<Rightarrow> int32 \<times> int32" where
  "server_key st = (siServerType st, siServerIndex st)"

definition known :: "gov \<Rightarrow> int32 \<times> int32 \<Rightarrow> server_instance_info option" where
  "known s k = GetServerInstanceInfo (fst k) (snd k) s"

definition slot :: "bool \<Rightarrow> server_instance_info \<Rightarrow> nat option" where
  "slot b p = (if b then siTimerReconnect p else siTimerHeartbeat p)"

definition slots_inv :: "(int32 \<times> int32 \<rightharpoonup> server_instance_info) \<Rightarrow> (nat \<times> gov_timer) list \<Rightarrow> nat \<Rightarrow> bool" where
  "slots_inv K T n \<longleftrightarrow>
     distinct (map fst T) \<and>
     (\<forall>k p. K k = Some p \<longrightarrow> server_key p = k) \<and>
     (\<forall>(h, tm) \<in> set T. \<exists>p. K (server_key (timer_info tm)) = Some p \<and> slot (is_TimerReconnect tm) p = Some h) \<and>
     (\<forall>b k p h. K k = Some p \<longrightarrow> slot b p = Some h \<longrightarrow> h < n \<and>
        (\<forall>tm. (h, tm) \<in> set T \<longrightarrow> is_TimerReconnect tm = b \<and> server_key (timer_info tm) = k))"

definition connect_keys :: "gov \<Rightarrow> (int32 \<times> int32) set" where
  "connect_keys s = (\<lambda>c. server_key (snd (snd c))) ` set (gvConnecting s)"

definition session_keys :: "gov \<Rightarrow> (int32 \<times> int32) set" where
  "session_keys s = (\<lambda>c. server_key (snd c)) ` set (gvSessions s)"

definition reconnect_keys :: "(nat \<times> gov_timer) list \<Rightarrow> (int32 \<times> int32) set" where
  "reconnect_keys T = (\<lambda>t. server_key (timer_info (snd t))) ` set (filter (is_TimerReconnect \<circ> snd) T)"

definition known_inv :: "gov \<Rightarrow> bool" where
  "known_inv s \<longleftrightarrow> connect_keys s \<union> session_keys s \<union> server_key ` set (gvHeartbeats s) \<subseteq> dom (known s)"

definition gov_inv :: "gov \<Rightarrow> bool" where
  "gov_inv s \<longleftrightarrow> slots_inv (known s) (gvTimers s) (gvNextTimer s) \<and> known_inv s"

lemma slots_invD:
  assumes "slots_inv K T n"
  shows "distinct (map fst T)" "\<And>k p. K k = Some p \<Longrightarrow> server_key p = k"
    "\<And>h tm. (h, tm) \<in> set T \<Longrightarrow> \<exists>p. K (server_key (timer_info tm)) = Some p \<and> slot (is_TimerReconnect tm) p = Some h"
    "\<And>b k p h. K k = Some p \<Longrightarrow> slot b p = Some h \<Longrightarrow> h < n"
    "\<And>b k p h tm. K k = Some p \<Longrightarrow> slot b p = Some h \<Longrightarrow> (h, tm) \<in> set T \<Longrightarrow>
       is_TimerReconnect tm = b \<and> server_key (timer_info tm) = k"
  using assms unfolding slots_inv_def by blast+

lemma slots_bound: "slots_inv K T n \<Longrightarrow> (h, tm) \<in> set T \<Longrightarrow> h < n"
  using slots_invD(3,4) by metis

text \<open>Rewriting an entry without touching its timers, and removing timers, keep the slots.\<close>

lemma slots_update:
  assumes "slots_inv K T n" "K k = Some p" "server_key p' = k" "\<And>b. slot b p' = slot b p"
  shows "slots_inv (K(k \<mapsto> p')) T n"
  using assms(1) unfolding slots_inv_def
proof (intro conjI, goal_cases)
  case 3
  then have "\<exists>q. (K(k \<mapsto> p')) (server_key (timer_info tm)) = Some q \<and> slot (is_TimerReconnect tm) q = Some h"
    if "(h, tm) \<in> set T" for h tm
    using slots_invD(3) [OF assms(1) that] assms(2,4) by (cases "server_key (timer_info tm) = k") auto
  then show ?case by blast
next
  case 4
  show ?case
  proof (intro allI impI)
    fix b k' q h assume "(K(k \<mapsto> p')) k' = Some q" "slot b q = Some h"
    then obtain q' where "K k' = Some q'" "slot b q' = Some h"
      using assms(2,4) by (cases "k' = k") auto
    then show "h < n \<and> (\<forall>tm. (h, tm) \<in> set T \<longrightarrow> is_TimerReconnect tm = b \<and> server_key (timer_info tm) = k')"
      using slots_invD(4,5) [OF assms(1)] by blast
  qed
qed (use assms(3) in auto)

lemma slots_filter:
  assumes "slots_inv K T n"
  shows "slots_inv K (filter P T) n"
  using assms unfolding slots_inv_def by (auto simp: distinct_map_filter)

text \<open>Cancelling the timer in a slot and clearing the slot.\<close>

lemma slots_clear:
  assumes inv: "slots_inv K T n" and p: "K k = Some p"
    and p': "server_key p' = k" "slot b p' = None" "slot (\<not> b) p' = slot (\<not> b) p"
  shows "slots_inv (K(k \<mapsto> p')) (filter (\<lambda>t. Some (fst t) \<noteq> slot b p) T) n"
  unfolding slots_inv_def
proof (intro conjI)
  note D = slots_invD [OF inv]
  show "distinct (map fst (filter (\<lambda>t. Some (fst t) \<noteq> slot b p) T))"
    using D(1) by (simp add: distinct_map_filter)
  show "\<forall>k' q. (K(k \<mapsto> p')) k' = Some q \<longrightarrow> server_key q = k'" using D(2) p'(1) by auto
  have "\<exists>q. (K(k \<mapsto> p')) (server_key (timer_info tm)) = Some q \<and> slot (is_TimerReconnect tm) q = Some h"
    if "(h, tm) \<in> set T" "Some h \<noteq> slot b p" for h tm
    using D(3) [OF that(1)] that(2) p p'(2,3)
    by (cases "server_key (timer_info tm) = k"; cases "is_TimerReconnect tm = b") auto
  then show "\<forall>(h, tm) \<in> set (filter (\<lambda>t. Some (fst t) \<noteq> slot b p) T).
      \<exists>q. (K(k \<mapsto> p')) (server_key (timer_info tm)) = Some q \<and> slot (is_TimerReconnect tm) q = Some h"
    by auto
  show "\<forall>b' k' q h. (K(k \<mapsto> p')) k' = Some q \<longrightarrow> slot b' q = Some h \<longrightarrow> h < n \<and>
      (\<forall>tm. (h, tm) \<in> set (filter (\<lambda>t. Some (fst t) \<noteq> slot b p) T) \<longrightarrow>
        is_TimerReconnect tm = b' \<and> server_key (timer_info tm) = k')"
  proof (intro allI impI)
    fix b' k' q h assume q: "(K(k \<mapsto> p')) k' = Some q" "slot b' q = Some h"
    then obtain q' where "K k' = Some q'" "slot b' q' = Some h"
      using p p'(2,3) by (cases "k' = k"; cases "b' = b") auto
    then show "h < n \<and> (\<forall>tm. (h, tm) \<in> set (filter (\<lambda>t. Some (fst t) \<noteq> slot b p) T) \<longrightarrow>
        is_TimerReconnect tm = b' \<and> server_key (timer_info tm) = k')"
      using D(4,5) by auto
  qed
qed

text \<open>Arming a fresh timer in an empty slot.\<close>

lemma slots_arm:
  assumes inv: "slots_inv K T n" and p: "K k = Some p" "slot b p = None"
    and p': "server_key p' = k" "slot b p' = Some n" "slot (\<not> b) p' = slot (\<not> b) p"
    and tm: "is_TimerReconnect tm = b" "server_key (timer_info tm) = k"
  shows "slots_inv (K(k \<mapsto> p')) (T @ [(n, tm)]) (n + 1)"
  unfolding slots_inv_def
proof (intro conjI)
  note D = slots_invD [OF inv]
  have fresh: "(n, tm') \<notin> set T" for tm' using slots_bound [OF inv] by blast
  then have "n \<notin> set (map fst T)" by auto
  then show "distinct (map fst (T @ [(n, tm)]))" using D(1) by simp
  show "\<forall>k' q. (K(k \<mapsto> p')) k' = Some q \<longrightarrow> server_key q = k'" using D(2) p'(1) by auto
  have "\<exists>q. (K(k \<mapsto> p')) (server_key (timer_info tm')) = Some q \<and> slot (is_TimerReconnect tm') q = Some h"
    if "(h, tm') \<in> set T" for h tm'
    using D(3) [OF that(1)] p p'(3)
    by (cases "server_key (timer_info tm') = k"; cases "is_TimerReconnect tm' = b") auto
  moreover have "(K(k \<mapsto> p')) (server_key (timer_info tm)) = Some p'" "slot (is_TimerReconnect tm) p' = Some n"
    using tm p'(2) by auto
  ultimately show "\<forall>(h, tm') \<in> set (T @ [(n, tm)]).
      \<exists>q. (K(k \<mapsto> p')) (server_key (timer_info tm')) = Some q \<and> slot (is_TimerReconnect tm') q = Some h"
    unfolding set_append list.set by blast
  show "\<forall>b' k' q h. (K(k \<mapsto> p')) k' = Some q \<longrightarrow> slot b' q = Some h \<longrightarrow> h < n + 1 \<and>
      (\<forall>tm'. (h, tm') \<in> set (T @ [(n, tm)]) \<longrightarrow> is_TimerReconnect tm' = b' \<and> server_key (timer_info tm') = k')"
  proof (intro allI impI)
    fix b' k' q h assume q: "(K(k \<mapsto> p')) k' = Some q" "slot b' q = Some h"
    show "h < n + 1 \<and> (\<forall>tm'. (h, tm') \<in> set (T @ [(n, tm)]) \<longrightarrow> is_TimerReconnect tm' = b' \<and> server_key (timer_info tm') = k')"
    proof (cases "k' = k \<and> b' = b")
      case True
      then show ?thesis using q p'(2) tm fresh by auto
    next
      case False
      then obtain q' where "K k' = Some q'" "slot b' q' = Some h"
        using q p p'(3) by (cases "k' = k"; cases "b' = b") auto
      then show ?thesis using D(4) [of k' q' b' h] D(5) [of k' q' b' h] by auto
    qed
  qed
qed


section \<open>Every event keeps the invariant and every server alive\<close>

definition alive :: "gov \<Rightarrow> int32 \<times> int32 \<Rightarrow> bool" where
  "alive s k \<longleftrightarrow> k \<in> connect_keys s \<union> session_keys s \<union> reconnect_keys (gvTimers s)"

lemma known_store_info [simp]: "known (store_info t i p s) = (known s)((t, i) \<mapsto> p)"
  by (auto simp: known_def fun_eq_iff)

lemma known_simps [simp]:
  "known (s\<lparr>gvTimers := x0\<rparr>) = known s"
  "known (s\<lparr>gvNextTimer := x1\<rparr>) = known s"
  "known (s\<lparr>gvConnecting := x2\<rparr>) = known s"
  "known (s\<lparr>gvSessions := x3\<rparr>) = known s"
  "known (s\<lparr>gvHeartbeats := x4\<rparr>) = known s"
  "known (s\<lparr>gvClosed := x5\<rparr>) = known s"
  "known (s\<lparr>gvSent := x6\<rparr>) = known s"
  by (simp_all add: known_def fun_eq_iff GetServerInstanceInfo_def)

lemma GetServerInstanceInfo_known: "GetServerInstanceInfo (siServerType st) (siServerIndex st) s = known s (server_key st)"
  by (simp add: known_def server_key_def)

lemma server_key_pair: "(siServerType st, siServerIndex st) = server_key st"
  by (simp add: server_key_def)

lemma OnDisconnect_known:
  assumes "known s (server_key st) = Some p"
  shows "\<exists>x. OnDisconnect sid st s =
    store_info (siServerType st) (siServerIndex st)
      (p\<lparr>siSessionId := x, siTimerHeartbeat := None, siTimerReconnect := Some (gvNextTimer s)\<rparr>)
      (s\<lparr>gvTimers := filter (\<lambda>t. Some (fst t) \<noteq> siTimerReconnect p)
            (filter (\<lambda>t. Some (fst t) \<noteq> siTimerHeartbeat p) (gvTimers s)) @ [(gvNextTimer s, TimerReconnect st)],
         gvNextTimer := gvNextTimer s + 1\<rparr>)"
proof -
  have "gov_cancel h s' = s'\<lparr>gvTimers := filter (\<lambda>t. Some (fst t) \<noteq> h) (gvTimers s')\<rparr>" for h and s' :: gov
    by (cases h) (auto simp: gov_cancel_def)
  then show ?thesis
    using assms
    by (intro exI [of _ "if siSessionId p \<noteq> 0 \<and> siSessionId p = sid then 0 else siSessionId p"])
      (cases p, simp add: OnDisconnect_def GetServerInstanceInfo_known gov_ExecAfter_def Let_def)
qed

lemma key_sets_simps [simp]:
  "connect_keys (store_info t i p s) = connect_keys s" "session_keys (store_info t i p s) = session_keys s"
  "connect_keys (s\<lparr>gvTimers := x0\<rparr>) = connect_keys s"
  "connect_keys (s\<lparr>gvNextTimer := x1\<rparr>) = connect_keys s"
  "connect_keys (s\<lparr>gvSessions := x3\<rparr>) = connect_keys s"
  "connect_keys (s\<lparr>gvHeartbeats := x4\<rparr>) = connect_keys s"
  "connect_keys (s\<lparr>gvClosed := x5\<rparr>) = connect_keys s"
  "connect_keys (s\<lparr>gvSent := x6\<rparr>) = connect_keys s"
  "session_keys (s\<lparr>gvTimers := x0\<rparr>) = session_keys s"
  "session_keys (s\<lparr>gvNextTimer := x1\<rparr>) = session_keys s"
  "session_keys (s\<lparr>gvConnecting := x2\<rparr>) = session_keys s"
  "session_keys (s\<lparr>gvHeartbeats := x4\<rparr>) = session_keys s"
  "session_keys (s\<lparr>gvClosed := x5\<rparr>) = session_keys s"
  "session_keys (s\<lparr>gvSent := x6\<rparr>) = session_keys s"
  by (simp_all add: connect_keys_def session_keys_def)

lemma reconnect_keys_append:
  "reconnect_keys (T @ [(n, tm)]) =
     (if is_TimerReconnect tm then insert (server_key (timer_info tm)) (reconnect_keys T) else reconnect_keys T)"
  by (auto simp: reconnect_keys_def)

lemma OnDisconnect_inv:
  assumes inv: "gov_inv s" and p: "known s (server_key st) = Some p"
  shows "gov_inv (OnDisconnect sid st s)"
    and "alive s k \<or> k = server_key st \<Longrightarrow> alive (OnDisconnect sid st s) k"
proof -
  let ?k = "server_key st" and ?n = "gvNextTimer s"
  let ?T1 = "filter (\<lambda>t. Some (fst t) \<noteq> siTimerHeartbeat p) (gvTimers s)"
  let ?T2 = "filter (\<lambda>t. Some (fst t) \<noteq> siTimerReconnect p) ?T1"
  obtain x where eq: "OnDisconnect sid st s =
      store_info (siServerType st) (siServerIndex st)
      (p\<lparr>siSessionId := x, siTimerHeartbeat := None, siTimerReconnect := Some ?n\<rparr>)
      (s\<lparr>gvTimers := ?T2 @ [(?n, TimerReconnect st)], gvNextTimer := ?n + 1\<rparr>)"
    using OnDisconnect_known [OF p, of sid] by (elim exE)
  have S: "slots_inv (known s) (gvTimers s) ?n" and KI: "known_inv s" using inv by (auto simp: gov_inv_def)
  note D = slots_invD [OF S]
  have kp: "server_key p = ?k" by (rule D(2) [OF p])
  let ?p1 = "p\<lparr>siTimerHeartbeat := None\<rparr>" and ?p2 = "p\<lparr>siTimerHeartbeat := None, siTimerReconnect := None\<rparr>"
  let ?p3 = "p\<lparr>siSessionId := x, siTimerHeartbeat := None, siTimerReconnect := Some ?n\<rparr>"
  have "slots_inv ((known s)(?k \<mapsto> ?p1)) ?T1 ?n"
    using slots_clear [OF S p, of ?p1 False] kp by (simp add: server_key_def slot_def)
  then have "slots_inv ((known s)(?k \<mapsto> ?p1, ?k \<mapsto> ?p2)) ?T2 ?n"
    using slots_clear [of "(known s)(?k \<mapsto> ?p1)" ?T1 ?n ?k ?p1 ?p2 True] kp by (simp add: server_key_def slot_def)
  then have "slots_inv ((known s)(?k \<mapsto> ?p1, ?k \<mapsto> ?p2, ?k \<mapsto> ?p3)) (?T2 @ [(?n, TimerReconnect st)]) (?n + 1)"
    using kp by (intro slots_arm [where b = True and p = ?p2]) (auto simp: server_key_def slot_def)
  then have "slots_inv (known (OnDisconnect sid st s)) (gvTimers (OnDisconnect sid st s)) (gvNextTimer (OnDisconnect sid st s))"
    unfolding eq by (simp add: server_key_pair)
  moreover have "known_inv (OnDisconnect sid st s)"
    using KI unfolding known_inv_def eq by auto
  ultimately show "gov_inv (OnDisconnect sid st s)" by (simp add: gov_inv_def)
  have "reconnect_keys (gvTimers s) - {?k} \<subseteq> reconnect_keys ?T2"
  proof
    fix k assume "k \<in> reconnect_keys (gvTimers s) - {?k}"
    then obtain h tm where tm: "(h, tm) \<in> set (gvTimers s)" "is_TimerReconnect tm" "server_key (timer_info tm) = k" "k \<noteq> ?k"
      by (auto simp: reconnect_keys_def)
    then have "Some h \<noteq> siTimerReconnect p" "Some h \<noteq> siTimerHeartbeat p"
      using D(5) [OF p, of True h tm] D(5) [OF p, of False h tm] by (auto simp: slot_def)
    with tm show "k \<in> reconnect_keys ?T2" by (force simp: reconnect_keys_def)
  qed
  then show "alive (OnDisconnect sid st s) k" if "alive s k \<or> k = server_key st"
    using that unfolding alive_def eq reconnect_keys_append
    by (auto simp: reconnect_keys_append)
qed


lemma set_remove_nth: "set (remove_nth n xs) \<subseteq> set xs"
  by (auto simp: remove_nth_def dest: in_set_takeD in_set_dropD)

lemma set_split_nth:
  assumes "n < length xs"
  shows "set xs = insert (xs ! n) (set (remove_nth n xs))"
proof -
  have "xs = take n xs @ xs ! n # drop (Suc n) xs" using assms by (rule id_take_nth_drop)
  then show ?thesis unfolding remove_nth_def by (metis Un_insert_right list.simps(15) set_append)
qed

lemma store_session_inv:
  assumes inv: "gov_inv s" and p: "known s k = Some p"
  shows "gov_inv (store_info (fst k) (snd k) (p\<lparr>siSessionId := x\<rparr>) s)"
    "alive (store_info (fst k) (snd k) (p\<lparr>siSessionId := x\<rparr>) s) = alive s"
proof -
  have S: "slots_inv (known s) (gvTimers s) (gvNextTimer s)" "known_inv s" using inv by (auto simp: gov_inv_def)
  have "slots_inv ((known s)(k \<mapsto> p\<lparr>siSessionId := x\<rparr>)) (gvTimers s) (gvNextTimer s)"
    using slots_invD(2) [OF S(1) p] by (intro slots_update [OF S(1) p]) (auto simp: server_key_def slot_def)
  then show "gov_inv (store_info (fst k) (snd k) (p\<lparr>siSessionId := x\<rparr>) s)"
    using S(2) by (auto simp: gov_inv_def known_inv_def)
  show "alive (store_info (fst k) (snd k) (p\<lparr>siSessionId := x\<rparr>) s) = alive s"
    by (simp add: alive_def fun_eq_iff)
qed

lemma OnHeartbeat_inv:
  assumes "gov_inv s" "known s k = Some p"
  shows "gov_inv (OnHeartbeat p s)" "alive (OnHeartbeat p s) = alive s"
  using assms slots_invD(2) [of "known s" _ _ k p]
  by (auto simp: OnHeartbeat_def gov_inv_def known_inv_def alive_def fun_eq_iff)

lemma OnConnectSucess_inv:
  assumes inv: "gov_inv s" and p: "known s (server_key st) = Some p"
  shows "gov_inv (OnConnectSucess sid st ok s)"
    and "alive s k \<or> \<not> ok \<and> k = server_key st \<Longrightarrow> alive (OnConnectSucess sid st ok s) k"
proof -
  let ?s1 = "store_info (siServerType st) (siServerIndex st) (p\<lparr>siSessionId := sid\<rparr>) s"
  have s1: "gov_inv ?s1" "alive ?s1 = alive s" "known ?s1 (server_key st) = Some (p\<lparr>siSessionId := sid\<rparr>)"
    using store_session_inv [OF inv p, of sid] by (simp_all add: server_key_def)
  have eq: "OnConnectSucess sid st ok s = (if ok then OnHeartbeat (p\<lparr>siSessionId := sid\<rparr>) ?s1 else OnDisconnect sid st s)"
    using p by (simp add: OnConnectSucess_def GetServerInstanceInfo_known Let_def)
  show "gov_inv (OnConnectSucess sid st ok s)"
    unfolding eq using OnHeartbeat_inv [OF s1(1,3)] OnDisconnect_inv(1) [OF inv p] by simp
  show "alive (OnConnectSucess sid st ok s) k" if "alive s k \<or> \<not> ok \<and> k = server_key st"
    unfolding eq using that OnHeartbeat_inv [OF s1(1,3)] s1(2) OnDisconnect_inv(2) [OF inv p] by (cases ok) auto
qed

lemma arm_heartbeat_inv:
  assumes inv: "gov_inv s" and p: "known s (server_key st) = Some p"
  defines "s1 \<equiv> store_info (siServerType st) (siServerIndex st) (p\<lparr>siTimerHeartbeat := Some (gvNextTimer s)\<rparr>)
    (s\<lparr>gvTimers := filter (\<lambda>t. Some (fst t) \<noteq> siTimerHeartbeat p) (gvTimers s) @ [(gvNextTimer s, TimerHeartbeat st)],
       gvNextTimer := gvNextTimer s + 1\<rparr>)"
  shows "gov_inv s1" "alive s k \<Longrightarrow> alive s1 k"
proof -
  let ?k = "server_key st" and ?n = "gvNextTimer s"
  let ?T1 = "filter (\<lambda>t. Some (fst t) \<noteq> siTimerHeartbeat p) (gvTimers s)"
  let ?p1 = "p\<lparr>siTimerHeartbeat := None\<rparr>" and ?p2 = "p\<lparr>siTimerHeartbeat := Some ?n\<rparr>"
  have S: "slots_inv (known s) (gvTimers s) ?n" and KI: "known_inv s" using inv by (auto simp: gov_inv_def)
  note D = slots_invD [OF S]
  have kp: "server_key p = ?k" by (rule D(2) [OF p])
  have "slots_inv ((known s)(?k \<mapsto> ?p1)) ?T1 ?n"
    using slots_clear [OF S p, of ?p1 False] kp by (simp add: server_key_def slot_def)
  then have "slots_inv ((known s)(?k \<mapsto> ?p1, ?k \<mapsto> ?p2)) (?T1 @ [(?n, TimerHeartbeat st)]) (?n + 1)"
    using kp by (intro slots_arm [where b = False and p = ?p1]) (auto simp: server_key_def slot_def)
  then show "gov_inv s1"
    using KI unfolding gov_inv_def known_inv_def s1_def by (auto simp: server_key_pair)
  have "\<not> is_TimerReconnect tm" if "(h, tm) \<in> set (gvTimers s)" "Some h = siTimerHeartbeat p" for h tm
    using D(5) [OF p, of False h tm] that by (simp add: slot_def)
  then have "filter (is_TimerReconnect \<circ> snd) ?T1 = filter (is_TimerReconnect \<circ> snd) (gvTimers s)"
    unfolding filter_filter by (intro filter_cong) auto
  then show "alive s1 k" if "alive s k"
    using that by (simp add: alive_def s1_def reconnect_keys_append) (simp add: reconnect_keys_def)
qed

definition heartbeat_armed :: "server_instance_info \<Rightarrow> server_instance_info \<Rightarrow> gov \<Rightarrow> gov" where
  "heartbeat_armed st p s = store_info (siServerType st) (siServerIndex st) (p\<lparr>siTimerHeartbeat := Some (gvNextTimer s)\<rparr>)
    (s\<lparr>gvTimers := filter (\<lambda>t. Some (fst t) \<noteq> siTimerHeartbeat p) (gvTimers s) @ [(gvNextTimer s, TimerHeartbeat st)],
       gvNextTimer := gvNextTimer s + 1\<rparr>)"

lemma OnHeartbeat_resume_known:
  assumes "known s (server_key st) = Some p"
  shows "OnHeartbeat_resume err st s =
    (if err \<noteq> 0 then OnDisconnect (siSessionId st) st ((heartbeat_armed st p s)\<lparr>gvClosed := gvClosed s @ [siSessionId st]\<rparr>)
     else heartbeat_armed st p s)"
proof -
  have "gov_cancel h s = s\<lparr>gvTimers := filter (\<lambda>t. Some (fst t) \<noteq> h) (gvTimers s)\<rparr>" for h
    by (cases h) (auto simp: gov_cancel_def)
  then show ?thesis
    using assms by (simp add: OnHeartbeat_resume_def GetServerInstanceInfo_known gov_ExecAfter_def store_info_def heartbeat_armed_def)
qed

lemma OnHeartbeat_resume_inv:
  assumes inv: "gov_inv s" and p: "known s (server_key st) = Some p"
  shows "gov_inv (OnHeartbeat_resume err st s)" "alive s k \<Longrightarrow> alive (OnHeartbeat_resume err st s) k"
proof -
  let ?s1 = "heartbeat_armed st p s"
  let ?s2 = "?s1\<lparr>gvClosed := gvClosed s @ [siSessionId st]\<rparr>"
  note H = arm_heartbeat_inv [OF inv p, folded heartbeat_armed_def] and eq = OnHeartbeat_resume_known [OF p, of err]
  have "known ?s1 (server_key st) \<noteq> None" by (simp add: heartbeat_armed_def server_key_pair)
  then have s2: "gov_inv ?s2" "alive ?s2 = alive ?s1" "known ?s2 (server_key st) \<noteq> None"
    using H(1) by (auto simp: gov_inv_def known_inv_def alive_def fun_eq_iff)
  then obtain q where q: "known ?s2 (server_key st) = Some q" by blast
  show "gov_inv (OnHeartbeat_resume err st s)"
    unfolding eq using H(1) OnDisconnect_inv(1) [OF s2(1) q] by (cases "err = 0") simp_all
  show "alive (OnHeartbeat_resume err st s) k" if "alive s k"
    unfolding eq using H(2) [OF that] s2(2) OnDisconnect_inv(2) [OF s2(1) q] by (cases "err = 0") simp_all
qed

lemma TimerFired_inv:
  assumes inv: "gov_inv s" and tm: "map_of (gvTimers s) h = Some tm"
  shows "\<exists>s'. timer_function tm (s\<lparr>gvTimers := filter (\<lambda>t. fst t \<noteq> h) (gvTimers s)\<rparr>) = Some s' \<and>
    gov_inv s' \<and> (\<forall>k. alive s k \<longrightarrow> alive s' k)"
proof -
  let ?s1 = "s\<lparr>gvTimers := filter (\<lambda>t. fst t \<noteq> h) (gvTimers s)\<rparr>"
  have S: "slots_inv (known s) (gvTimers s) (gvNextTimer s)" and KI: "known_inv s" using inv by (auto simp: gov_inv_def)
  have i1: "gov_inv ?s1" using slots_filter [OF S] KI by (auto simp: gov_inv_def known_inv_def)
  have mem: "(h, tm) \<in> set (gvTimers s)" by (rule map_of_SomeD [OF tm])
  then obtain p where p: "known s (server_key (timer_info tm)) = Some p" using slots_invD(3) [OF S] by blast
  then have p1: "known ?s1 (server_key (timer_info tm)) = Some p" by simp
  have kp: "server_key p = server_key (timer_info tm)" by (rule slots_invD(2) [OF S p])
  have "t = (h, tm)" if "t \<in> set (gvTimers s)" "fst t = h" for t
    using that mem slots_invD(1) [OF S] by (metis eq_key_imp_eq_value prod.collapse)
  then have rest: "reconnect_keys (gvTimers s) \<subseteq> reconnect_keys (gvTimers ?s1) \<union>
      (if is_TimerReconnect tm then {server_key (timer_info tm)} else {})"
    by (fastforce simp: reconnect_keys_def)
  show ?thesis
  proof (cases tm)
    case (TimerReconnect st)
    have "timer_function tm ?s1 = Some (ConnectServerInstance p ?s1)"
      using p1 TimerReconnect by (simp add: GetServerInstanceInfo_known)
    moreover have ck: "connect_keys (ConnectServerInstance p ?s1) = insert (server_key st) (connect_keys s)"
      using kp TimerReconnect by (simp add: ConnectServerInstance_def connect_keys_def)
    moreover have "gov_inv (ConnectServerInstance p ?s1)"
      using i1 p ck TimerReconnect by (auto simp: gov_inv_def known_inv_def ConnectServerInstance_def)
    moreover have "alive (ConnectServerInstance p ?s1) k" if "alive s k" for k
      using that ck rest TimerReconnect unfolding alive_def by (auto simp: ConnectServerInstance_def)
    ultimately show ?thesis by blast
  next
    case (TimerHeartbeat st)
    have "timer_function tm ?s1 = Some (OnHeartbeat p ?s1)"
      using p1 TimerHeartbeat by (simp add: GetServerInstanceInfo_known)
    moreover have "alive ?s1 k" if "alive s k" for k
      using that rest TimerHeartbeat unfolding alive_def by auto
    ultimately show ?thesis using OnHeartbeat_inv [OF i1 p1] by auto
  qed
qed

lemma HeartbeatReq_inv:
  assumes inv: "gov_inv s"
  shows "gov_inv (OnHandleSSHeartbeatReq sid hd1 tm s)" "alive (OnHandleSSHeartbeatReq sid hd1 tm s) = alive s"
proof -
  let ?k = "(sh_src_server_type hd1, sh_src_server_index hd1)"
  have sent: "gov_inv (s'\<lparr>gvSent := x\<rparr>) = gov_inv s'" "alive (s'\<lparr>gvSent := x\<rparr>) = alive s'" for s' x
    by (auto simp: gov_inv_def known_inv_def alive_def)
  show "gov_inv (OnHandleSSHeartbeatReq sid hd1 tm s)" "alive (OnHandleSSHeartbeatReq sid hd1 tm s) = alive s"
    using inv store_session_inv [OF inv, of ?k _ sid]
    by (simp_all add: OnHandleSSHeartbeatReq_def sent known_def Let_def split: option.splits)
qed

lemma gov_do_inv:
  assumes inv: "gov_inv s"
  shows "\<exists>s'. gov_do e s = Some s' \<and> gov_inv s' \<and> (\<forall>k. alive s k \<longrightarrow> alive s' k)"
proof (cases e)
  case (ConnectDone n sid ok)
  show ?thesis
  proof (cases "n < length (gvConnecting s)")
    case True
    obtain ip port st where c: "gvConnecting s ! n = (ip, port, st)" by (cases "gvConnecting s ! n") auto
    let ?s1 = "s\<lparr>gvConnecting := remove_nth n (gvConnecting s),
        gvSessions := (if ok then gvSessions s @ [(sid, st)] else gvSessions s)\<rparr>"
    have ck: "connect_keys s = insert (server_key st) (connect_keys ?s1)"
      using set_split_nth [OF True] c by (simp add: connect_keys_def)
    have sk: "session_keys ?s1 = (if ok then insert (server_key st) (session_keys s) else session_keys s)"
      by (simp add: session_keys_def)
    have i1: "gov_inv ?s1" using inv ck sk by (auto simp: gov_inv_def known_inv_def split: if_splits)
    obtain p where p: "known ?s1 (server_key st) = Some p" using inv ck by (auto simp: gov_inv_def known_inv_def)
    have "alive ?s1 k \<or> \<not> ok \<and> k = server_key st" if "alive s k" for k
      using that unfolding alive_def ck sk by auto
    then show ?thesis
      using ConnectDone True c OnConnectSucess_inv [OF i1 p, where sid = sid and ok = ok] by (auto simp: Let_def)
  qed (use ConnectDone inv in simp)
next
  case (SessionClosed n)
  show ?thesis
  proof (cases "n < length (gvSessions s)")
    case True
    obtain sid st where c: "gvSessions s ! n = (sid, st)" by (cases "gvSessions s ! n") auto
    let ?s1 = "s\<lparr>gvSessions := remove_nth n (gvSessions s)\<rparr>"
    have sk: "session_keys s = insert (server_key st) (session_keys ?s1)"
      using set_split_nth [OF True] c by (simp add: session_keys_def)
    have i1: "gov_inv ?s1" using inv sk by (auto simp: gov_inv_def known_inv_def)
    obtain p where p: "known ?s1 (server_key st) = Some p" using inv sk by (auto simp: gov_inv_def known_inv_def)
    have "alive ?s1 k \<or> k = server_key st" if "alive s k" for k
      using that unfolding alive_def sk by auto
    then show ?thesis
      using SessionClosed True c OnDisconnect_inv [OF i1 p, where sid = sid] by auto
  qed (use SessionClosed inv in simp)
next
  case (HeartbeatDone n err)
  show ?thesis
  proof (cases "n < length (gvHeartbeats s)")
    case True
    let ?st = "gvHeartbeats s ! n" and ?s1 = "s\<lparr>gvHeartbeats := remove_nth n (gvHeartbeats s)\<rparr>"
    have i1: "gov_inv ?s1"
      using inv unfolding gov_inv_def known_inv_def by (simp add: order_trans [OF image_mono [OF set_remove_nth]])
    obtain p where p: "known ?s1 (server_key ?st) = Some p"
      using inv nth_mem [OF True] by (auto simp: gov_inv_def known_inv_def)
    have "alive ?s1 = alive s" by (simp add: alive_def fun_eq_iff)
    then show ?thesis
      using HeartbeatDone True OnHeartbeat_resume_inv [OF i1 p, where err = err] by auto
  qed (use HeartbeatDone inv in simp)
next
  case (TimerFired h)
  then show ?thesis using inv TimerFired_inv [OF inv] by (cases "map_of (gvTimers s) h") auto
next
  case (HeartbeatReq sid hd1 t)
  then show ?thesis using HeartbeatReq_inv [OF inv] by simp
qed

lemma gov_run_inv:
  assumes "gov_inv s"
  shows "\<exists>s'. gov_run es s = Some s' \<and> gov_inv s' \<and> (\<forall>k. alive s k \<longrightarrow> alive s' k)"
  using assms
proof (induction es arbitrary: s)
  case (Cons e es)
  then show ?case using gov_do_inv [of s e] by fastforce
qed simp


section \<open>The state after start-up\<close>

definition config_key :: "server_list_config_data \<Rightarrow> int32 \<times> int32" where
  "config_key d = (slServerType d, slServerIndex d)"

definition infos :: "server_map \<Rightarrow> server_instance_info set" where
  "infos m = (\<Union>e \<in> set m. snd ` set (snd e))"

lemma server_key_instance_info [simp]: "server_key (instance_info d) = config_key d"
  by (simp add: instance_info_def server_key_def config_key_def Let_def split: prod.splits)

lemma timers_instance_info [simp]: "siTimerReconnect (instance_info d) = None" "siTimerHeartbeat (instance_info d) = None"
  by (simp_all add: instance_info_def ServerInstanceInfo_def Let_def split: prod.splits)

lemma set_put: "set (put k v m) \<subseteq> insert (k, v) (set m)"
  by (induction k v m rule: put.induct) auto

lemma set_update: "set (AList.update k v m) \<subseteq> insert (k, v) (set m)"
  by (induction m) auto

lemma subset_insert_chain: "A \<subseteq> B \<union> C \<Longrightarrow> B \<subseteq> insert v D \<Longrightarrow> D \<subseteq> C \<Longrightarrow> A \<subseteq> insert v C"
  by blast

lemma infos_mono: "set m \<subseteq> insert e (set m') \<Longrightarrow> infos m \<subseteq> snd ` set (snd e) \<union> infos m'"
  unfolding infos_def by blast

lemma infos_inner: "snd ` set (inner t m) \<subseteq> infos m"
proof (cases "map_of m t")
  case (Some x)
  then show ?thesis
    using UN_upper [OF map_of_SomeD [OF Some], of "\<lambda>e. snd ` set (snd e)"] by (simp add: inner_def infos_def)
qed (simp add: inner_def)

lemma infos_assign: "infos (assign t i v m) \<subseteq> insert v (infos m)"
proof -
  have p: "snd ` set (put i v (inner t m)) \<subseteq> insert v (snd ` set (inner t m))"
    using image_mono [OF set_put [of i v "inner t m"], of snd] by simp
  have "infos (assign t i v m) \<subseteq> snd ` set (put i v (inner t m)) \<union> infos m"
    using infos_mono [OF set_update [of t "put i v (inner t m)" m]] by (simp add: assign_def)
  then show ?thesis by (rule subset_insert_chain [OF _ p infos_inner])
qed

lemma find_server_infos: "find_server t i m = Some p \<Longrightarrow> p \<in> infos m"
  by (force simp: find_server_def infos_def split: option.splits dest: map_of_SomeD)

lemma InitConfig_row_simps [simp]:
  "gvServerType (InitConfig_row ds d s) = gvServerType s" "gvServerId (InitConfig_row ds d s) = gvServerId s"
  "gvTimers (InitConfig_row ds d s) = gvTimers s" "gvConnecting (InitConfig_row ds d s) = gvConnecting s"
  "gvSessions (InitConfig_row ds d s) = gvSessions s" "gvHeartbeats (InitConfig_row ds d s) = gvHeartbeats s"
  by (simp_all add: InitConfig_row_def Let_def)

lemma InitConfig_row_servers:
  "find_server t i (gvServerList (InitConfig_row ds d s)) =
     (if config_key d = (t, i) then Some (instance_info d) else find_server t i (gvServerList s))"
  by (auto simp: InitConfig_row_def Let_def config_key_def)

lemma find_server_inner: "map_of (inner t m) i = find_server t i m"
  by (simp add: inner_def find_server_def split: option.splits)

lemma is_mine_cong [simp]: "is_mine (s\<lparr>gvServerList := x\<rparr>) d = is_mine s d"
  by (simp add: is_mine_def)

lemma InitConfig_row_connects:
  "find_server t i (gvConnectServerList (InitConfig_row ds d s)) =
     (case find_server t i (gvConnectServerList s) of
        Some p \<Rightarrow> Some p
      | None \<Rightarrow> if config_key d = (t, i) \<and> t \<in> set ds \<and> \<not> is_mine s d then Some (instance_info d) else None)"
  by (auto simp: InitConfig_row_def Let_def config_key_def find_server_inner split: option.splits)

lemma InitConfig_row_infos:
  "infos (gvConnectServerList (InitConfig_row ds d s)) \<subseteq> insert (instance_info d) (infos (gvConnectServerList s))"
  using infos_assign by (auto simp: InitConfig_row_def Let_def)

lemma InitConfig_rows:
  fixes s :: gov and rows and ds
  defines "s' \<equiv> fold (InitConfig_row ds) rows s"
  shows "gvTimers s' = gvTimers s" "gvConnecting s' = gvConnecting s" "gvSessions s' = gvSessions s"
    "gvHeartbeats s' = gvHeartbeats s"
    and "find_server t i (gvServerList s') = (case find (\<lambda>d. config_key d = (t, i)) (rev rows) of
        Some d \<Rightarrow> Some (instance_info d) | None \<Rightarrow> find_server t i (gvServerList s))"
    and "find_server t i (gvConnectServerList s') = (case find_server t i (gvConnectServerList s) of
        Some p \<Rightarrow> Some p
      | None \<Rightarrow> map_option instance_info (find (\<lambda>d. config_key d = (t, i) \<and> t \<in> set ds \<and> \<not> is_mine s d) rows))"
    and "infos (gvConnectServerList s') \<subseteq> instance_info ` set rows \<union> infos (gvConnectServerList s)"
proof -
  show "gvTimers s' = gvTimers s" "gvConnecting s' = gvConnecting s" "gvSessions s' = gvSessions s" "gvHeartbeats s' = gvHeartbeats s"
    unfolding s'_def by (induction rows arbitrary: s) simp_all
  show "find_server t i (gvServerList s') = (case find (\<lambda>d. config_key d = (t, i)) (rev rows) of
        Some d \<Rightarrow> Some (instance_info d) | None \<Rightarrow> find_server t i (gvServerList s))"
    unfolding s'_def
    by (induction rows arbitrary: s rule: rev_induct) (simp_all add: InitConfig_row_servers)
  have m: "is_mine (InitConfig_row ds d s) = is_mine s" for d s by (simp add: is_mine_def fun_eq_iff)
  show "find_server t i (gvConnectServerList s') = (case find_server t i (gvConnectServerList s) of
        Some p \<Rightarrow> Some p
      | None \<Rightarrow> map_option instance_info (find (\<lambda>d. config_key d = (t, i) \<and> t \<in> set ds \<and> \<not> is_mine s d) rows))"
    unfolding s'_def
    by (induction rows arbitrary: s) (auto simp: InitConfig_row_connects m split: option.splits)
  show "infos (gvConnectServerList s') \<subseteq> instance_info ` set rows \<union> infos (gvConnectServerList s)"
    unfolding s'_def
  proof (induction rows arbitrary: s)
    case (Cons d rows)
    then show ?case using Cons [of "InitConfig_row ds d s"] InitConfig_row_infos [of ds d s] by auto
  qed simp
qed


lemma InitConnect_eq:
  "InitConnect s = s\<lparr>gvConnecting := gvConnecting s @
     map (\<lambda>st. (siServerIp st, word_of_int (siPort st), st)) (concat (map (\<lambda>e. map snd (snd e)) (gvConnectServerList s)))\<rparr>"
proof -
  have one: "fold (\<lambda>(_, st). ConnectServerInstance st) m s = s\<lparr>gvConnecting := gvConnecting s @
     map (\<lambda>st. (siServerIp st, word_of_int (siPort st), st)) (map snd m)\<rparr>" for m :: "(int \<times> server_instance_info) list" and s
    by (induction m arbitrary: s) (auto simp: ConnectServerInstance_def)
  have "fold (\<lambda>(_, m). fold (\<lambda>(_, st). ConnectServerInstance st) m) cl s = s\<lparr>gvConnecting := gvConnecting s @
     map (\<lambda>st. (siServerIp st, word_of_int (siPort st), st)) (concat (map (\<lambda>e. map snd (snd e)) cl))\<rparr>" for cl :: server_map
    by (induction cl arbitrary: s) (auto simp: one)
  then show ?thesis by (simp add: InitConnect_def)
qed

lemma Gov_OnInit_simps [simp]:
  "gvServerList (Gov_OnInit s) = gvServerList s" "gvTimers (Gov_OnInit s) = gvTimers s"
  "gvSessions (Gov_OnInit s) = gvSessions s" "gvHeartbeats (Gov_OnInit s) = gvHeartbeats s"
  by (simp_all add: Gov_OnInit_def InitConnect_eq InitListen_def)

lemma Gov_OnInit_connects:
  "gvConnecting s = [] \<Longrightarrow> connect_keys (Gov_OnInit s) = server_key ` infos (gvConnectServerList s)"
  by (auto simp: Gov_OnInit_def InitConnect_eq InitListen_def connect_keys_def infos_def image_UN image_image)

text \<open>The server as it comes up: its identity set, its configuration read, its connects started.\<close>

definition started :: "string \<Rightarrow> int32 \<Rightarrow> u32 \<Rightarrow> server_list_config_data list \<Rightarrow> gov" where
  "started name ty i rows = Gov_OnInit (InitConfig rows (SetServerInstance name ty i ServiceGovernmentModule))"

definition is_self :: "int32 \<Rightarrow> u32 \<Rightarrow> server_list_config_data \<Rightarrow> bool" where
  "is_self ty i d \<longleftrightarrow> config_key d = (ty, sint i)"

lemma is_mine_self: "gvServerType s = ty \<Longrightarrow> gvServerId s = sint i \<Longrightarrow> is_mine s = is_self ty i"
  by (auto simp: is_mine_def is_self_def config_key_def fun_eq_iff)

lemma started_facts:
  fixes rows and ty and i and name
  assumes self: "find (is_self ty i) rows = Some mine"
  defines "s \<equiv> InitConfig rows (SetServerInstance name ty i ServiceGovernmentModule)"
  shows "gvTimers s = []" "gvConnecting s = []" "gvSessions s = []" "gvHeartbeats s = []"
    and "find_server t j (gvServerList s) = map_option instance_info (find (\<lambda>d. config_key d = (t, j)) (rev rows))"
    and "find_server t j (gvConnectServerList s) =
      map_option instance_info (find (\<lambda>d. config_key d = (t, j) \<and> t \<in> set (slConnectList mine) \<and> \<not> is_self ty i d) rows)"
    and "infos (gvConnectServerList s) \<subseteq> instance_info ` set rows"
proof -
  let ?s0 = "SetServerInstance name ty i ServiceGovernmentModule\<lparr>gvConnectServerList := [], gvServerList := []\<rparr>"
  let ?s1 = "InitConfig_mine mine ?s0"
  have m: "is_mine ?s0 = is_self ty i" by (rule is_mine_self) (simp_all add: SetServerInstance_def)
  have eq: "s = fold (InitConfig_row (slConnectList mine)) rows ?s1"
    using self m by (simp add: s_def InitConfig_def)
  have m1: "is_mine ?s1 = is_self ty i"
    by (rule is_mine_self) (simp_all add: InitConfig_mine_def SetServerInstance_def split: prod.splits)
  have s1: "gvTimers ?s1 = []" "gvConnecting ?s1 = []" "gvSessions ?s1 = []" "gvHeartbeats ?s1 = []"
      "gvServerList ?s1 = []" "gvConnectServerList ?s1 = []"
    by (simp_all add: InitConfig_mine_def SetServerInstance_def ServiceGovernmentModule_def split: prod.splits)
  note R = InitConfig_rows [where s = ?s1 and rows = rows and ds = "slConnectList mine", folded eq]
  show "gvTimers s = []" "gvConnecting s = []" "gvSessions s = []" "gvHeartbeats s = []"
    using R(1-4) s1 by simp_all
  show "find_server t j (gvServerList s) = map_option instance_info (find (\<lambda>d. config_key d = (t, j)) (rev rows))"
    unfolding R(5) s1 by (simp add: find_server_def split: option.splits)
  show "find_server t j (gvConnectServerList s) =
      map_option instance_info (find (\<lambda>d. config_key d = (t, j) \<and> t \<in> set (slConnectList mine) \<and> \<not> is_self ty i d) rows)"
    unfolding R(6) s1 m1 by (simp add: find_server_def)
  show "infos (gvConnectServerList s) \<subseteq> instance_info ` set rows"
    using R(7) s1 by (simp add: infos_def)
qed

lemma started_inv:
  assumes self: "find (is_self ty i) rows = Some mine"
  shows "gov_inv (started name ty i rows)"
    and "d \<in> set rows \<Longrightarrow> slServerType d \<in> set (slConnectList mine) \<Longrightarrow> \<not> is_self ty i d \<Longrightarrow>
      alive (started name ty i rows) (config_key d)"
proof -
  let ?s = "InitConfig rows (SetServerInstance name ty i ServiceGovernmentModule)"
  note F = started_facts [OF self, where name = name]
  have K: "known (started name ty i rows) (t, j) = map_option instance_info (find (\<lambda>d. config_key d = (t, j)) (rev rows))" for t j
    unfolding started_def known_def GetServerInstanceInfo_def using F(5) by simp
  have known: "known (started name ty i rows) (config_key d) \<noteq> None" if "d \<in> set rows" for d
    using K [of "fst (config_key d)" "snd (config_key d)"] that by (auto simp: find_None_iff)
  have "slots_inv (known (started name ty i rows)) [] n" for n
    using K by (auto simp: slots_inv_def find_Some_iff slot_def)
  moreover have "connect_keys (started name ty i rows) \<subseteq> config_key ` set rows"
    unfolding started_def Gov_OnInit_connects [OF F(2)] using F(7) by auto
  then have "known_inv (started name ty i rows)"
    using known F(3,4) by (force simp: known_inv_def started_def session_keys_def)
  ultimately show "gov_inv (started name ty i rows)"
    using F(1) by (simp add: gov_inv_def started_def)
  assume d: "d \<in> set rows" "slServerType d \<in> set (slConnectList mine)" "\<not> is_self ty i d"
  then have "find (\<lambda>d'. config_key d' = config_key d \<and> slServerType d \<in> set (slConnectList mine) \<and> \<not> is_self ty i d') rows \<noteq> None"
    by (auto simp: find_None_iff)
  then obtain d' where d': "find (\<lambda>d'. config_key d' = config_key d \<and> slServerType d \<in> set (slConnectList mine) \<and> \<not> is_self ty i d') rows = Some d'"
    by (elim not_None_eq [THEN iffD1, THEN exE])
  then have "config_key d' = config_key d" by (auto simp: find_Some_iff)
  then obtain p where "find_server (slServerType d) (slServerIndex d) (gvConnectServerList ?s) = Some p" "server_key p = config_key d"
    using F(6) [of "slServerType d" "slServerIndex d"] d' unfolding config_key_def [of d] by simp
  then have "config_key d \<in> server_key ` infos (gvConnectServerList ?s)" using find_server_infos by force
  then show "alive (started name ty i rows) (config_key d)"
    using Gov_OnInit_connects [OF F(2)] by (simp add: alive_def started_def)
qed


lemma one_timer:
  assumes "slots_inv K T n"
  shows "length (filter (\<lambda>t. is_TimerReconnect (snd t) = b \<and> server_key (timer_info (snd t)) = k) T) \<le> 1"
proof (rule ccontr)
  let ?F = "filter (\<lambda>t. is_TimerReconnect (snd t) = b \<and> server_key (timer_info (snd t)) = k) T"
  assume "\<not> length ?F \<le> 1"
  then obtain x y zs where F: "?F = x # y # zs" by (cases ?F; cases "tl ?F") auto
  have m: "t \<in> set T \<and> is_TimerReconnect (snd t) = b \<and> server_key (timer_info (snd t)) = k" if "t \<in> set ?F" for t
    using that by simp
  have "\<exists>p. K k = Some p \<and> slot b p = Some (fst t)" if "t \<in> set ?F" for t
    using m [OF that] slots_invD(3) [OF assms, of "fst t" "snd t"] by auto
  then have "fst x = fst y" unfolding F by (metis list.set_intros(1,2) option.inject)
  moreover have "distinct (map fst ?F)" using slots_invD(1) [OF assms] by (simp add: distinct_map_filter)
  ultimately show False unfolding F by simp
qed

section \<open>Properties\<close>


definition sample_gate :: server_list_config_data where
  "sample_gate = ServerListConfigData\<lparr>slNId := 10001, slServerType := 1, slServerIndex := 1, slConnectList := [2]\<rparr>"

definition sample_logic :: server_list_config_data where
  "sample_logic = ServerListConfigData\<lparr>slNId := 20001, slServerType := 2, slServerIndex := 1\<rparr>"


text \<open>
  a server is chosen by key with the CRC-32 of the key: the index lies between 1 and the number
  of servers of the type, and when their indices are exactly these, the session of an existing server
  is returned (0 while it is not connected).
\<close>

theorem key_routes_to_server:
  assumes m: "map_of (gvServerList s) t = Some m" "m \<noteq> []" "length m < 2 ^ 31" and key: "length strKey < 2 ^ 32"
    and idx: "fst ` set m = {1 .. int (length m)}"
  shows "\<exists>p. GetServerKeyIndex t strKey s = Some (int (unat (crc32_ref strKey) mod length m) + 1) \<and>
    GetServerInstanceInfo t (int (unat (crc32_ref strKey) mod length m) + 1) s = Some p \<and>
    GetServerSessionIdByKey t strKey s = Some (siSessionId p)"
proof -
  let ?n = "length m" and ?c = "crc32_ref strKey"
  let ?i = "int (unat ?c mod ?n) + 1"
  have n: "?n < 2 ^ 64" "0 < ?n" using m by auto
  have "unat ((ucast ?c :: size_t) mod size_of m) = unat ?c mod ?n"
    using n by (simp add: unat_mod unat_size_of)
  moreover have lt: "unat ?c mod ?n < ?n" using n by simp
  ultimately have "unat ((ucast ?c :: size_t) mod size_of m + 1) = unat ?c mod ?n + 1"
    using m(3) by (subst unat_sz_add) auto
  then have "uint ((ucast ?c :: size_t) mod size_of m + 1) = ?i" by (simp add: uint_nat)
  moreover have "is_int32 ?i" using lt m(3) by (simp add: is_int32_def)
  ultimately have g: "GetServerKeyIndex t strKey s = Some ?i"
    using m(1) key by (simp add: GetServerKeyIndex_def CRC32_string_eq crc32_of_ref)
  have "?i \<in> fst ` set m" unfolding idx using lt by simp
  then obtain p where "map_of m ?i = Some p" by (metis map_of_eq_None_iff not_None_eq)
  then have "GetServerInstanceInfo t ?i s = Some p" using m(1) by (simp add: GetServerInstanceInfo_def find_server_def)
  then show ?thesis using g by (simp add: GetServerSessionIdByKey_def GetServerSessionId_def)
qed


theorem key_routes_to_server_witness:
  "GetServerSessionIdByKey 2 ''player'' (ServiceGovernmentModule\<lparr>gvServerList :=
     [(2, [(1, ServerInstanceInfo\<lparr>siSessionId := 5\<rparr>), (2, ServerInstanceInfo\<lparr>siSessionId := 6\<rparr>)])]\<rparr>) \<in> {Some 5, Some 6}"
proof -
  let ?m = "[(1 :: int, ServerInstanceInfo\<lparr>siSessionId := 5\<rparr>), (2, ServerInstanceInfo\<lparr>siSessionId := 6\<rparr>)]"
  let ?s = "ServiceGovernmentModule\<lparr>gvServerList := [(2, ?m)]\<rparr>"
  have "fst ` set ?m = {1 .. int (length ?m)}" by auto
  then obtain j p where p: "GetServerInstanceInfo 2 j ?s = Some p" "GetServerSessionIdByKey 2 ''player'' ?s = Some (siSessionId p)"
    using key_routes_to_server [of ?s 2 ?m "''player''"] by auto
  from p(1) have "siSessionId p = 5 \<or> siSessionId p = 6"
    by (auto simp: GetServerInstanceInfo_def find_server_def split: if_splits)
  then show ?thesis using p(2) by auto
qed

text \<open>
  When the heartbeat of an earlier session of a server fails after a new session was established,
  the new session keeps its entry, but its heartbeat timer is cancelled and a reconnect is
  scheduled, so a second connection to the connected server will be opened.
\<close>

theorem stale_heartbeat_disturbs_new_session:
  assumes p: "known s (server_key st) = Some p"
    and stale: "siSessionId p \<noteq> siSessionId st" "err \<noteq> 0"
  shows "\<exists>p'. known (OnHeartbeat_resume err st s) (server_key st) = Some p' \<and>
    siSessionId p' = siSessionId p \<and> siTimerHeartbeat p' = None \<and>
    server_key st \<in> reconnect_keys (gvTimers (OnHeartbeat_resume err st s))"
proof -
  let ?s2 = "(heartbeat_armed st p s)\<lparr>gvClosed := gvClosed s @ [siSessionId st]\<rparr>"
  have "known ?s2 (server_key st) = Some (p\<lparr>siTimerHeartbeat := Some (gvNextTimer s)\<rparr>)"
    by (simp add: heartbeat_armed_def server_key_pair)
  then show ?thesis
    using stale unfolding OnHeartbeat_resume_known [OF p]
    by (simp add: OnDisconnect_def GetServerInstanceInfo_known gov_ExecAfter_def Let_def server_key_pair reconnect_keys_append)
qed

lemmas gov_exec = started_def SetServerInstance_def ServiceGovernmentModule_def ServerInstanceInfo_def InitConfig_def
  InitConfig_row_def InitConfig_mine_def instance_info_def is_mine_def sample_gate_def sample_logic_def
  ServerListConfigData_def AddressToIpPort_def assign_def inner_def find_server_def Gov_OnInit_def InitConnect_def
  InitListen_def ConnectServerInstance_def remove_nth_def OnConnectSucess_def GetServerInstanceInfo_def
  OnHeartbeat_def store_info_def OnDisconnect_def gov_cancel_def gov_ExecAfter_def Let_def

text \<open>A run in which it happens: session 9 closes while its heartbeat is unanswered, session 10 replaces it.\<close>

definition stale_run :: "gov option" where
  "stale_run = gov_run [ConnectDone 0 9 True, SessionClosed 0, TimerFired 0, ConnectDone 0 10 True]
     (started ''gate'' 1 1 [sample_gate, sample_logic])"

theorem stale_heartbeat_disturbs_new_session_witness:
  "\<exists>s st p p'. stale_run = Some s \<and> gvHeartbeats s ! 0 = st \<and> siSessionId st = 9 \<and>
     known s (2, 1) = Some p \<and> siSessionId p = 10 \<and>
     known (OnHeartbeat_resume 1 st s) (2, 1) = Some p' \<and> siSessionId p' = 10 \<and>
     (2, 1) \<in> reconnect_keys (gvTimers (OnHeartbeat_resume 1 st s))"
proof -
  obtain s where s: "stale_run = Some s" "siSessionId (gvHeartbeats s ! 0) = 9" "server_key (gvHeartbeats s ! 0) = (2, 1)"
      "map_option siSessionId (known s (2, 1)) = Some 10"
    by (simp add: stale_run_def gov_exec server_key_def known_def)
  then obtain p where "known s (2, 1) = Some p" "siSessionId p = 10" by auto
  then show ?thesis
    using s stale_heartbeat_disturbs_new_session [of s "gvHeartbeats s ! 0" p 1] by auto
qed

end
