(* ===== verification/Pb_Message.thy ===== *)
theory Pb_Message
  imports Cpp_Std
begin

text \<open>
  Protocol buffer messages as the database code sees them through reflection: a message has a type
  name and its fields in descriptor order, each with a name and a value whose constructor is the
  field's C++ type. A message field carries the default instance of its type (its descriptor) and
  the value, absent or present, or the repeated values. The library itself is not part of the
  sources: serialising and parsing, and printing and reading floating point numbers (type \<open>'d\<close>),
  are the components of the argument \<open>lib\<close>.
\<close>

datatype 'd message = Message (type_name: string) (message_fields: "(string \<times> 'd pb_value) list")
and 'd pb_value =
    VInt32 int | VInt64 int | VUint32 int | VUint64 int | VDouble 'd | VFloat 'd | VBool bool
  | VEnum int | VString string | VMessage "'d message" "'d message option" | VRepeated "'d message" "'d message list"

datatype CppType =
    CPPTYPE_INT32 | CPPTYPE_INT64 | CPPTYPE_UINT32 | CPPTYPE_UINT64 | CPPTYPE_DOUBLE | CPPTYPE_FLOAT
  | CPPTYPE_BOOL | CPPTYPE_ENUM | CPPTYPE_STRING | CPPTYPE_MESSAGE

fun cpp_type :: "'d pb_value \<Rightarrow> CppType" where
  "cpp_type (VInt32 _) = CPPTYPE_INT32"
| "cpp_type (VInt64 _) = CPPTYPE_INT64"
| "cpp_type (VUint32 _) = CPPTYPE_UINT32"
| "cpp_type (VUint64 _) = CPPTYPE_UINT64"
| "cpp_type (VDouble _) = CPPTYPE_DOUBLE"
| "cpp_type (VFloat _) = CPPTYPE_FLOAT"
| "cpp_type (VBool _) = CPPTYPE_BOOL"
| "cpp_type (VEnum _) = CPPTYPE_ENUM"
| "cpp_type (VString _) = CPPTYPE_STRING"
| "cpp_type (VMessage _ _) = CPPTYPE_MESSAGE"
| "cpp_type (VRepeated _ _) = CPPTYPE_MESSAGE"

fun is_repeated :: "'d pb_value \<Rightarrow> bool" where
  "is_repeated (VRepeated _ _) = True"
| "is_repeated _ = False"

record 'd pb_lib =
  SerializeAsString :: "'d message \<Rightarrow> string"
  ParseFromString :: "'d message \<Rightarrow> string \<Rightarrow> 'd message"
  ftoa :: "'d \<Rightarrow> string"
  atof :: "string \<Rightarrow> 'd"
  nonzero :: "'d \<Rightarrow> bool"

fun HasField :: "'d pb_lib \<Rightarrow> 'd pb_value \<Rightarrow> bool" where
  "HasField lib (VInt32 i) = (i \<noteq> 0)"
| "HasField lib (VInt64 i) = (i \<noteq> 0)"
| "HasField lib (VUint32 i) = (i \<noteq> 0)"
| "HasField lib (VUint64 i) = (i \<noteq> 0)"
| "HasField lib (VDouble d) = nonzero lib d"
| "HasField lib (VFloat d) = nonzero lib d"
| "HasField lib (VBool b) = b"
| "HasField lib (VEnum i) = (i \<noteq> 0)"
| "HasField lib (VString s) = (s \<noteq> [])"
| "HasField lib (VMessage _ m) = (m \<noteq> None)"
| "HasField lib (VRepeated _ _) = False"

text \<open>Values at the width of their type.\<close>

fun value_ok :: "'d pb_value \<Rightarrow> bool" where
  "value_ok (VInt32 i) = is_int32 i"
| "value_ok (VInt64 i) = is_int64 i"
| "value_ok (VUint32 i) = (0 \<le> i \<and> i < 2 ^ 32)"
| "value_ok (VUint64 i) = (0 \<le> i \<and> i < 2 ^ 64)"
| "value_ok (VEnum i) = is_int32 i"
| "value_ok _ = True"

text \<open>\<open>strtoull\<close>: a leading minus negates in unsigned arithmetic, an overflow saturates.\<close>

definition strtoull :: "string \<Rightarrow> int" where
  "strtoull s =
     (case split_sign (dropWhile is_space s) of
        (neg, t) \<Rightarrow> let v = int (digits_value (takeWhile is_digit t))
                     in if v \<ge> 2 ^ 64 then 2 ^ 64 - 1 else if neg then (- v) mod 2 ^ 64 else v)"

lemma strtoull_to_string:
  assumes "0 \<le> i" "i < 2 ^ 64"
  shows "strtoull (to_string i) = i"
proof -
  have "split_sign (dropWhile is_space (nat_to_string (nat i))) = (False, nat_to_string (nat i))"
    using split_sign_nat [of "nat i" "[]"] by simp
  moreover have tw: "takeWhile is_digit (nat_to_string (nat i)) = nat_to_string (nat i)"
    using takeWhile_digits [of "[]" "nat i"] unfolding append_Nil2 by simp
  ultimately show ?thesis
    using assms unfolding strtoull_def to_string_def by (simp add: tw le_nat_iff del: takeWhile_eq_all_conv)
qed

lemma to_string_no_nul: "c_str (to_string i) = to_string i"
  using to_string_chars [of i] is_digit_special by (intro c_str_id) fastforce

end
