(* ===== verification/Db_Utils.thy ===== *)
theory Db_Utils
  imports Pb_Message
begin

text \<open>
  Messages in databases (common/database/db_utils.h, db_utils.cpp, db_define.h): which fields are
  keys, the conversion of field values to strings and back, lists of byte strings packed with
  32-bit lengths, and \<open>PbMessageKVHandle\<close>, which stores a message in a key-value store. The
  result \<open>None\<close> is undefined behaviour of the C++ code (a read past the end of a string, a
  reflection call on a field of another kind) or a loop that does not end. The byte order of the
  host is the argument \<open>e\<close>. The store is reached only through the functions of the handle, whose
  laws are the locale \<open>kv_store\<close>. A \<open>std::unordered_set\<close> is a list without repetitions whose
  order stands for the iteration order.
\<close>

section \<open>Packed lists\<close>

definition AppendRawData :: "endian \<Rightarrow> string \<Rightarrow> string \<Rightarrow> string" where
  "AppendRawData e strOutput strInput =
     (let nLen = ucast (size_of strInput) :: u32 in strOutput @ store_u32 e nLen @ strInput)"

definition UINT32_MAX :: u32 where
  "UINT32_MAX = 0xFFFFFFFF"

text \<open>The result index and the data; a \<open>std::string\<close> is followed in memory by one NUL.\<close>

definition PaserRawData :: "endian \<Rightarrow> string \<Rightarrow> u32 \<Rightarrow> (u32 \<times> string option) option" where
  "PaserRawData e strInput nStart =
     (if ucast nStart \<ge> size_of strInput then Some (UINT32_MAX, None)
      else if ucast nStart + 4 \<ge> size_of strInput then Some (UINT32_MAX, None)
      else let pInput = drop (unat nStart) (strInput @ [CHR 0x00]);
               nLen = load_u32 e pInput
           in if size_of strInput < ucast (nStart + nLen) then Some (UINT32_MAX, None)
              else if length pInput < 4 + unat nLen then None
              else Some (ucast (ucast nStart + 4 + ucast nLen :: size_t), Some (take (unat nLen) (drop 4 pInput))))"

partial_function (option) PaserList_loop :: "endian \<Rightarrow> string \<Rightarrow> u32 \<Rightarrow> string list \<Rightarrow> string list option" where
  "PaserList_loop e strInput indexBegin vecElems =
     (if ucast indexBegin < size_of strInput then
        (case PaserRawData e strInput indexBegin of
           None \<Rightarrow> None
         | Some (i, d) \<Rightarrow>
             PaserList_loop e strInput i
               (if i < UINT32_MAX then vecElems @ [case d of None \<Rightarrow> [] | Some x \<Rightarrow> x] else vecElems))
      else Some vecElems)"

definition PaserList :: "endian \<Rightarrow> string \<Rightarrow> string list option" where
  "PaserList e strInput = PaserList_loop e strInput 0 []"

definition set_insert :: "'a \<Rightarrow> 'a list \<Rightarrow> 'a list" where
  "set_insert x xs = (if x \<in> set xs then xs else xs @ [x])"

definition PaserList_set :: "endian \<Rightarrow> string \<Rightarrow> string list option" where
  "PaserList_set e strInput = map_option (\<lambda>v. fold set_insert v []) (PaserList e strInput)"

definition PacketList :: "endian \<Rightarrow> string list \<Rightarrow> string \<Rightarrow> string" where
  "PacketList e vecInput strOutput = fold (\<lambda>x out. AppendRawData e out x) vecInput strOutput"

section \<open>Keys and field values\<close>

definition DbPbFieldKey :: "string \<rightharpoonup> string list" where
  "DbPbFieldKey = map_of
     [(''Db.UserCount'', [''count_type'', ''count_subtype'']), (''Db.ClientCache'', [''cache_type'']),
      (''Db.ClientLoginInfo'', [''login_tick'', ''login_channel''])]"

definition IsDBCommonKeyType :: "CppType \<Rightarrow> bool" where
  "IsDBCommonKeyType t \<longleftrightarrow>
     t = CPPTYPE_INT32 \<or> t = CPPTYPE_UINT32 \<or> t = CPPTYPE_INT64 \<or> t = CPPTYPE_UINT64 \<or> t = CPPTYPE_STRING"

definition IsDBKey :: "'d message \<Rightarrow> string \<times> 'd pb_value \<Rightarrow> bool" where
  "IsDBKey message f =
     (if \<not> IsDBCommonKeyType (cpp_type (snd f)) then False
      else case DbPbFieldKey (type_name message) of None \<Rightarrow> False | Some ks \<Rightarrow> fst f \<in> set ks)"

definition DBProtoMessageToStringAsBlob :: "'d pb_lib \<Rightarrow> 'd message \<Rightarrow> string" where
  "DBProtoMessageToStringAsBlob lib message = SerializeAsString lib message"

fun DBProtoMessageToString :: "'d pb_lib \<Rightarrow> 'd message \<Rightarrow> 'd pb_value \<Rightarrow> string" where
  "DBProtoMessageToString lib message (VDouble d) = ftoa lib d"
| "DBProtoMessageToString lib message (VFloat d) = ftoa lib d"
| "DBProtoMessageToString lib message (VEnum i) = to_string i"
| "DBProtoMessageToString lib message (VMessage p m) = DBProtoMessageToStringAsBlob lib message"
| "DBProtoMessageToString lib message (VRepeated p ms) = DBProtoMessageToStringAsBlob lib message"
| "DBProtoMessageToString lib message (VString s) = s"
| "DBProtoMessageToString lib message (VInt64 i) = to_string i"
| "DBProtoMessageToString lib message (VInt32 i) = to_string i"
| "DBProtoMessageToString lib message (VUint64 i) = to_string i"
| "DBProtoMessageToString lib message (VUint32 i) = to_string i"
| "DBProtoMessageToString lib message (VBool b) = to_string (if b then 1 else 0)"

fun DBStringToProtoMessageAsBlob :: "'d pb_lib \<Rightarrow> 'd pb_value \<Rightarrow> string \<Rightarrow> 'd pb_value option" where
  "DBStringToProtoMessageAsBlob lib (VMessage p m) value = Some (VMessage p (Some (ParseFromString lib p value)))"
| "DBStringToProtoMessageAsBlob lib _ value = None"

fun DBStringToProtoMessage :: "'d pb_lib \<Rightarrow> 'd pb_value \<Rightarrow> string \<Rightarrow> 'd pb_value option" where
  "DBStringToProtoMessage lib (VDouble _) value = Some (VDouble (atof lib (c_str value)))"
| "DBStringToProtoMessage lib (VFloat _) value = Some (VFloat (atof lib (c_str value)))"
| "DBStringToProtoMessage lib (VEnum _) value = Some (VEnum (atoi (c_str value)))"
| "DBStringToProtoMessage lib (VMessage p m) value = DBStringToProtoMessageAsBlob lib (VMessage p m) value"
| "DBStringToProtoMessage lib (VRepeated p ms) value = DBStringToProtoMessageAsBlob lib (VRepeated p ms) value"
| "DBStringToProtoMessage lib (VString _) value = Some (VString value)"
| "DBStringToProtoMessage lib (VInt64 _) value = Some (VInt64 (atoll (c_str value)))"
| "DBStringToProtoMessage lib (VInt32 _) value = Some (VInt32 (atoi (c_str value)))"
| "DBStringToProtoMessage lib (VUint64 _) value = Some (VUint64 (strtoull (c_str value)))"
| "DBStringToProtoMessage lib (VUint32 _) value = Some (VUint32 (atoll (c_str value) mod 2 ^ 32))"
| "DBStringToProtoMessage lib (VBool _) value = Some (VBool (atoi (c_str value) \<noteq> 0))"

section \<open>Messages in a key-value store\<close>

record 's kv_handle =
  funGet :: "string \<Rightarrow> 's \<Rightarrow> string"
  funPut :: "string \<Rightarrow> string \<Rightarrow> 's \<Rightarrow> 's"
  funDel :: "string \<Rightarrow> 's \<Rightarrow> 's"
  funRang :: "(string \<Rightarrow> string \<Rightarrow> nat \<Rightarrow> 's \<Rightarrow> (string \<times> string) list) option"

definition strTableSpacer :: string where
  "strTableSpacer = ''#''"

definition RangeLimit :: nat where
  "RangeLimit = 100000"

definition common_key :: "string \<Rightarrow> string \<Rightarrow> string" where
  "common_key strTabName strCommonKeyList = strTabName @ strTableSpacer @ strCommonKeyList"

text \<open>
  \<open>GetMessageElementKey\<close> and \<open>GetMessageRepeatedElementKey\<close> differ only in how they reach the
  element, here the argument \<open>msg\<close>.
\<close>

definition GetMessageElementKey :: "endian \<Rightarrow> 'd pb_lib \<Rightarrow> string \<Rightarrow> string \<Rightarrow> 'd message \<Rightarrow> string" where
  "GetMessageElementKey e lib strTabName strCommonKeyList msg =
     fold (\<lambda>f key. if \<not> IsDBKey msg f then key
                    else AppendRawData e key (DBProtoMessageToString lib msg (snd f)))
       (message_fields msg) (common_key strTabName strCommonKeyList)"

text \<open>One field of the top-level message in \<open>MessageUpdateOnKV\<close>: the common keys so far and the store.\<close>

definition update_repeated ::
    "endian \<Rightarrow> 'd pb_lib \<Rightarrow> 's kv_handle \<Rightarrow> string \<Rightarrow> string \<Rightarrow> 'd message \<Rightarrow> bool \<times> string list \<times> 's \<Rightarrow> bool \<times> string list \<times> 's" where
  "update_repeated e lib kv strTabName strCommonKeyList msg acc =
     (case acc of (bSetKeysModify, setKeys, s) \<Rightarrow>
        let strElementKey = GetMessageElementKey e lib strTabName strCommonKeyList msg;
            (bSetKeysModify, setKeys) =
              (if \<not> bSetKeysModify \<and> strElementKey \<notin> set setKeys then (True, set_insert strElementKey setKeys)
               else (bSetKeysModify, setKeys))
        in (bSetKeysModify, setKeys, funPut kv strElementKey (SerializeAsString lib msg) s))"

definition update_singular ::
    "endian \<Rightarrow> 'd pb_lib \<Rightarrow> 's kv_handle \<Rightarrow> string \<Rightarrow> string \<Rightarrow> 'd message \<Rightarrow> bool \<times> string list \<times> 's \<Rightarrow> bool \<times> string list \<times> 's" where
  "update_singular e lib kv strTabName strCommonKeyList msg acc =
     (case acc of (bSetKeysModify, setKeys, s) \<Rightarrow>
        let strElementKey = GetMessageElementKey e lib strTabName strCommonKeyList msg;
            (bSetKeysModify, setKeys) =
              (if strElementKey \<notin> set setKeys then (True, set_insert strElementKey setKeys) else (bSetKeysModify, setKeys))
        in (bSetKeysModify, setKeys, funPut kv strElementKey (SerializeAsString lib msg) s))"

definition update_table ::
    "endian \<Rightarrow> 'd pb_lib \<Rightarrow> 's kv_handle \<Rightarrow> string \<Rightarrow> string \<Rightarrow> bool \<Rightarrow> 'd message list \<Rightarrow> 's \<Rightarrow> 's option" where
  "update_table e lib kv strTabName strCommonKeyList repeated msgs s =
     (let strCommonKey = (if funRang kv = None then common_key strTabName strCommonKeyList else [])
      in case (if funRang kv = None then PaserList_set e (funGet kv strCommonKey s) else Some []) of
           None \<Rightarrow> None
         | Some setKeys \<Rightarrow>
             (case fold ((if repeated then update_repeated else update_singular) e lib kv strTabName strCommonKeyList)
                     msgs (False, setKeys, s) of
                (bSetKeysModify, setKeys, s) \<Rightarrow>
                  Some (if bSetKeysModify then funPut kv strCommonKey (PacketList e setKeys []) s else s)))"

definition update_field ::
    "endian \<Rightarrow> 'd pb_lib \<Rightarrow> 's kv_handle \<Rightarrow> 'd message \<Rightarrow> string \<times> 'd pb_value \<Rightarrow> string \<times> 's \<Rightarrow> (string \<times> 's) option" where
  "update_field e lib kv message f acc =
     (case acc of (strCommonKeyList, s) \<Rightarrow>
        if IsDBCommonKeyType (cpp_type (snd f))
        then Some (AppendRawData e strCommonKeyList (DBProtoMessageToString lib message (snd f)), s)
        else case snd f of
               VRepeated _ ms \<Rightarrow>
                 if ms = [] then Some (strCommonKeyList, s)
                 else map_option (Pair strCommonKeyList) (update_table e lib kv (fst f) strCommonKeyList True ms s)
             | VMessage _ (Some m) \<Rightarrow>
                 map_option (Pair strCommonKeyList) (update_table e lib kv (fst f) strCommonKeyList False [m] s)
             | v \<Rightarrow> if HasField lib v then None else Some (strCommonKeyList, s))"

fun for_each :: "('f \<Rightarrow> 'a \<Rightarrow> 'a option) \<Rightarrow> 'f list \<Rightarrow> 'a \<Rightarrow> 'a option" where
  "for_each step [] a = Some a"
| "for_each step (f # fs) a = (case step f a of None \<Rightarrow> None | Some a' \<Rightarrow> for_each step fs a')"

definition MessageUpdateOnKV ::
    "endian \<Rightarrow> 'd pb_lib \<Rightarrow> 's kv_handle \<Rightarrow> 'd message \<Rightarrow> 's \<Rightarrow> 's option" where
  "MessageUpdateOnKV e lib kv message s =
     map_option snd (for_each (update_field e lib kv message) (message_fields message) ([], s))"

text \<open>\<open>MessageDeleteOnKV\<close>.\<close>

definition delete_element ::
    "endian \<Rightarrow> 'd pb_lib \<Rightarrow> 's kv_handle \<Rightarrow> string \<Rightarrow> string \<Rightarrow> 'd message \<Rightarrow> string list \<times> 's \<Rightarrow> string list \<times> 's" where
  "delete_element e lib kv strTabName strCommonKeyList msg acc =
     (case acc of (setKeys, s) \<Rightarrow>
        let strElementKey = GetMessageElementKey e lib strTabName strCommonKeyList msg
        in (filter (\<lambda>k. k \<noteq> strElementKey) setKeys, funDel kv strElementKey s))"

definition delete_table ::
    "endian \<Rightarrow> 'd pb_lib \<Rightarrow> 's kv_handle \<Rightarrow> string \<Rightarrow> string \<Rightarrow> 'd message list \<Rightarrow> 's \<Rightarrow> 's option" where
  "delete_table e lib kv strTabName strCommonKeyList msgs s =
     (let strCommonKey = (if funRang kv = None then common_key strTabName strCommonKeyList else [])
      in case (if funRang kv = None then PaserList_set e (funGet kv strCommonKey s) else Some []) of
           None \<Rightarrow> None
         | Some setKeys \<Rightarrow>
             (case fold (delete_element e lib kv strTabName strCommonKeyList) msgs (setKeys, s) of
                (setKeys, s) \<Rightarrow>
                  Some (if setKeys = [] then funDel kv strCommonKey s
                        else funPut kv strCommonKey (PacketList e setKeys []) s)))"

definition delete_field ::
    "endian \<Rightarrow> 'd pb_lib \<Rightarrow> 's kv_handle \<Rightarrow> 'd message \<Rightarrow> string \<times> 'd pb_value \<Rightarrow> string \<times> 's \<Rightarrow> (string \<times> 's) option" where
  "delete_field e lib kv message f acc =
     (case acc of (strCommonKeyList, s) \<Rightarrow>
        if IsDBCommonKeyType (cpp_type (snd f))
        then Some (AppendRawData e strCommonKeyList (DBProtoMessageToString lib message (snd f)), s)
        else case snd f of
               VRepeated _ ms \<Rightarrow>
                 if ms = [] then Some (strCommonKeyList, s)
                 else map_option (Pair strCommonKeyList) (delete_table e lib kv (fst f) strCommonKeyList ms s)
             | VMessage _ (Some m) \<Rightarrow>
                 map_option (Pair strCommonKeyList) (delete_table e lib kv (fst f) strCommonKeyList [m] s)
             | v \<Rightarrow> if HasField lib v then None else Some (strCommonKeyList, s))"

definition MessageDeleteOnKV ::
    "endian \<Rightarrow> 'd pb_lib \<Rightarrow> 's kv_handle \<Rightarrow> 'd message \<Rightarrow> 's \<Rightarrow> 's option" where
  "MessageDeleteOnKV e lib kv message s =
     map_option snd (for_each (delete_field e lib kv message) (message_fields message) ([], s))"

text \<open>\<open>MessageLoadOnKV\<close>: the keys to read, then their values added to the field.\<close>

fun load_value :: "'d pb_lib \<Rightarrow> string \<Rightarrow> 'd pb_value \<Rightarrow> 'd pb_value" where
  "load_value lib str (VRepeated p ms) = VRepeated p (ms @ [ParseFromString lib p str])"
| "load_value lib str (VMessage p m) = VMessage p (Some (ParseFromString lib p str))"
| "load_value lib str v = v"

definition load_all :: "endian \<Rightarrow> 'd pb_lib \<Rightarrow> 's kv_handle \<Rightarrow> string \<Rightarrow> 's \<Rightarrow> 'd pb_value \<Rightarrow> (string list \<times> 'd pb_value) option" where
  "load_all e lib kv strCommonKey s v =
     (case funRang kv of
        None \<Rightarrow> map_option (\<lambda>ks. (ks, v)) (PaserList e (funGet kv strCommonKey s))
      | Some rang \<Rightarrow>
          Some ([], fold (\<lambda>(k, str). load_value lib str) (rang strCommonKey (strCommonKey @ [CHR 0xFF]) RangeLimit s) v))"

definition load_keys ::
    "endian \<Rightarrow> 'd pb_lib \<Rightarrow> 's kv_handle \<Rightarrow> string \<Rightarrow> string \<Rightarrow> 's \<Rightarrow> 'd pb_value \<Rightarrow> (string list \<times> 'd pb_value) option" where
  "load_keys e lib kv strTabName strCommonKeyList s v =
     (case v of
        VRepeated _ ms \<Rightarrow>
          if ms \<noteq> [] then Some (map (GetMessageElementKey e lib strTabName strCommonKeyList) ms, v)
          else load_all e lib kv (common_key strTabName strCommonKeyList) s v
      | VMessage _ (Some m) \<Rightarrow> Some ([GetMessageElementKey e lib strTabName strCommonKeyList m], v)
      | _ \<Rightarrow> if HasField lib v then None else load_all e lib kv (common_key strTabName strCommonKeyList) s v)"

definition load_field ::
    "endian \<Rightarrow> 'd pb_lib \<Rightarrow> 's kv_handle \<Rightarrow> 's \<Rightarrow> 'd message \<Rightarrow> string \<times> 'd pb_value \<Rightarrow>
       string \<times> (string \<times> 'd pb_value) list \<Rightarrow> (string \<times> (string \<times> 'd pb_value) list) option" where
  "load_field e lib kv s message f acc =
     (case acc of (strCommonKeyList, done) \<Rightarrow>
        if IsDBCommonKeyType (cpp_type (snd f))
        then Some (AppendRawData e strCommonKeyList (DBProtoMessageToString lib message (snd f)), done @ [f])
        else case load_keys e lib kv (fst f) strCommonKeyList s (snd f) of
               None \<Rightarrow> None
             | Some (vecKeySet, v) \<Rightarrow>
                 Some (strCommonKeyList, done @ [(fst f, fold (\<lambda>k. load_value lib (funGet kv k s)) vecKeySet v)]))"

definition MessageLoadOnKV ::
    "endian \<Rightarrow> 'd pb_lib \<Rightarrow> 's kv_handle \<Rightarrow> 's \<Rightarrow> 'd message \<Rightarrow> 'd message option" where
  "MessageLoadOnKV e lib kv s message =
     map_option (\<lambda>(_, fs). Message (type_name message) fs)
       (for_each (load_field e lib kv s message) (message_fields message) ([], []))"

text \<open>\<open>ForEachDBMessageData\<close>: the element messages a function is applied to, with their field's name.\<close>

definition ForEachDBMessageData :: "'d message \<Rightarrow> (string \<times> 'd message) list" where
  "ForEachDBMessageData message =
     concat (map (\<lambda>(n, v). case v of VRepeated _ ms \<Rightarrow> map (Pair n) ms | VMessage _ (Some m) \<Rightarrow> [(n, m)] | _ \<Rightarrow> [])
       (message_fields message))"

section \<open>Packing and parsing lists\<close>

definition packed :: "endian \<Rightarrow> string list \<Rightarrow> string" where
  "packed e xs = concat (map (\<lambda>x. store_u32 e (word_of_nat (length x)) @ x) xs)"

lemma packed_simps [simp]:
  "packed e [] = []" "packed e (x # xs) = store_u32 e (word_of_nat (length x)) @ x @ packed e xs"
  "packed e (xs @ ys) = packed e xs @ packed e ys"
  by (simp_all add: packed_def)

lemma ucast_size_of: "(ucast (size_of xs) :: u32) = word_of_nat (length xs)"
  by (simp add: size_of_def unsigned_of_nat word_unat_eq_iff unat_of_nat take_bit_eq_mod mod_mod_cancel)

lemma store_u32_not_Nil [simp]: "store_u32 e w \<noteq> []"
  by (cases e) simp_all

lemma packed_Nil_iff [simp]: "packed e xs = [] \<longleftrightarrow> xs = []"
  by (cases xs; cases e) simp_all

lemma AppendRawData_eq: "AppendRawData e out x = out @ packed e [x]"
  by (simp add: AppendRawData_def Let_def ucast_size_of del: store_u32.simps)

lemma PacketList_eq: "PacketList e xs out = out @ packed e xs"
  by (induction xs arbitrary: out) (simp_all add: PacketList_def AppendRawData_eq del: store_u32.simps)

lemma load_store_u32_append: "load_u32 e (store_u32 e w @ rest) = w"
  by (rule load_store_u32)

lemma PaserRawData_packed:
  assumes len: "length (pre @ packed e (x # post)) < 2 ^ 32 - 1"
  shows "PaserRawData e (pre @ packed e (x # post)) (word_of_nat (length pre)) =
    (if x = [] \<and> post = [] then Some (UINT32_MAX, None)
     else Some (word_of_nat (length (pre @ packed e [x])), Some x))"
proof -
  let ?s = "pre @ packed e (x # post)" and ?p = "word_of_nat (length pre) :: u32"
  have l: "length pre < 2 ^ 32" "length ?s < 2 ^ 64" "length pre + length x < 2 ^ 32" "length x < 2 ^ 32"
    using len by auto
  have p: "unat ?p = length pre" using l by (simp add: unat_of_nat_u32)
  have d: "drop (unat ?p) (?s @ [CHR 0x00]) = store_u32 e (word_of_nat (length x)) @ x @ packed e post @ [CHR 0x00]"
    by (simp add: p del: store_u32.simps)
  have n: "unat (load_u32 e (drop (unat ?p) (?s @ [CHR 0x00]))) = length x"
    unfolding d load_store_u32_append using l by (simp add: unat_of_nat_u32)
  let ?n = "load_u32 e (drop (unat ?p) (?s @ [CHR 0x00]))"
  have up: "unat (ucast ?p :: size_t) = length pre" using p by simp
  have us: "unat (size_of ?s) = length ?s" using l(2) by (rule unat_size_of)
  have ls: "length ?s = length pre + 4 + length x + length (packed e post)" by simp
  have up4: "unat (ucast ?p + 4 :: size_t) = length pre + 4"
    using up l(1) by (subst unat_sz_add) simp_all
  have c1: "\<not> ucast ?p \<ge> size_of ?s" unfolding word_le_nat_alt up us ls by simp
  have c2: "(ucast ?p + 4 \<ge> size_of ?s) \<longleftrightarrow> x = [] \<and> post = []" unfolding word_le_nat_alt up4 us ls by simp
  have "unat (a + b) = unat a + unat b" if "unat a + unat b < 2 ^ 32" for a b :: u32
    using that by (simp add: unat_word_ariths)
  from this [of ?p ?n] have "unat (?p + ?n) = length pre + length x" using n p l(3) by simp
  then have c3: "\<not> size_of ?s < ucast (?p + ?n)" unfolding word_less_nat_alt us ls by simp
  have c4: "\<not> length (drop (unat ?p) (?s @ [CHR 0x00])) < 4 + unat ?n" unfolding n unfolding d by simp
  have "unat (ucast ?p + 4 + ucast ?n :: size_t) = length pre + 4 + length x"
    using up4 n len ls by (subst unat_sz_add) simp_all
  then have "(ucast ?p + 4 + ucast ?n :: size_t) = size_of (pre @ packed e [x])"
    using len by (simp add: word_unat_eq_iff unat_size_of)
  then have r: "(ucast (ucast ?p + 4 + ucast ?n :: size_t) :: u32) = word_of_nat (length (pre @ packed e [x]))"
    by (simp only: ucast_size_of)
  have t: "take (unat ?n) (drop 4 (drop (unat ?p) (?s @ [CHR 0x00]))) = x"
    unfolding n unfolding d by simp
  show ?thesis
    unfolding PaserRawData_def Let_def by (simp only: c1 c2 c3 c4 r t if_False)
qed

definition parsed :: "string list \<Rightarrow> string list" where
  "parsed xs = (if xs \<noteq> [] \<and> last xs = [] then butlast xs else xs)"

lemma PaserList_packed:
  assumes "length (pre @ packed e xs) < 2 ^ 32 - 1"
  shows "PaserList_loop e (pre @ packed e xs) (word_of_nat (length pre)) acc = Some (acc @ parsed xs)"
  using assms
proof (induction xs arbitrary: pre acc)
  case Nil
  then have "\<not> ucast (word_of_nat (length pre) :: u32) < size_of pre"
    by (simp add: word_less_nat_alt unat_size_of unat_of_nat_u32)
  then show ?case by (subst PaserList_loop.simps) (simp add: parsed_def)
next
  case (Cons x xs)
  let ?s = "pre @ packed e (x # xs)"
  have c: "ucast (word_of_nat (length pre) :: u32) < size_of ?s"
    using Cons.prems by (simp add: word_less_nat_alt unat_size_of unat_of_nat_u32)
  have mx: "\<not> ucast UINT32_MAX < size_of ?s" using Cons.prems
    by (simp add: word_less_nat_alt unat_size_of UINT32_MAX_def)
  show ?case
  proof (cases "x = [] \<and> xs = []")
    case True
    then show ?thesis
      using c mx PaserRawData_packed [OF Cons.prems]
      by (subst PaserList_loop.simps, subst PaserList_loop.simps) (simp add: parsed_def)
  next
    case False
    let ?i = "word_of_nat (length (pre @ packed e [x])) :: u32"
    have "unat ?i = length (pre @ packed e [x])" using Cons.prems by (intro unat_of_nat_u32) simp
    then have i: "?i < UINT32_MAX" using Cons.prems unfolding word_less_nat_alt UINT32_MAX_def by simp
    have P: "PaserRawData e ?s (word_of_nat (length pre)) = Some (?i, Some x)"
      unfolding PaserRawData_packed [OF Cons.prems] using False by (rule if_not_P)
    have "PaserList_loop e ?s (word_of_nat (length pre)) acc = PaserList_loop e ?s ?i (acc @ [x])"
      by (subst PaserList_loop.simps) (simp only: c i P if_True option.case prod.case)
    also have "\<dots> = Some ((acc @ [x]) @ parsed xs)"
      using Cons.IH [of "pre @ packed e [x]" "acc @ [x]"] Cons.prems by simp
    also have "(acc @ [x]) @ parsed xs = acc @ parsed (x # xs)" using False by (cases xs) (auto simp: parsed_def)
    finally show ?thesis .
  qed
qed


lemma PaserList_overread:
  assumes x: "x \<noteq> []" "length x < 2 ^ 32" and n: "length x + 1 < n" "n \<le> length x + 4" "n < 2 ^ 32"
  shows "PaserList e (store_u32 e (word_of_nat n) @ x) = None"
proof -
  let ?s = "store_u32 e (word_of_nat n) @ x"
  have us: "unat (size_of ?s) = length x + 4" using x(2) by (subst unat_size_of) simp_all
  have c1: "\<not> ucast (0 :: u32) \<ge> size_of ?s" unfolding word_le_nat_alt us by simp
  have c2: "\<not> ucast (0 :: u32) + 4 \<ge> size_of ?s" unfolding word_le_nat_alt us using x(1) by (cases x) simp_all
  have ld: "load_u32 e (drop (unat (0 :: u32)) (?s @ [CHR 0x00])) = word_of_nat n"
    by (simp del: store_u32.simps)
  have un: "unat (word_of_nat n :: u32) = n" using n(3) by (rule unat_of_nat_u32)
  have c3: "\<not> size_of ?s < ucast (0 + word_of_nat n :: u32)"
    unfolding word_less_nat_alt us using n(2) un by simp
  have c4: "length (drop (unat (0 :: u32)) (?s @ [CHR 0x00])) < 4 + unat (word_of_nat n :: u32)"
    unfolding un using n(1) by simp
  have "PaserRawData e ?s 0 = None"
    unfolding PaserRawData_def Let_def by (simp only: c1 c2 c3 c4 ld if_False if_True)
  moreover have "ucast (0 :: u32) < size_of ?s" using c1 by (simp only: not_le)
  ultimately show ?thesis
    unfolding PaserList_def by (subst PaserList_loop.simps) (simp only: if_True option.case)
qed

section \<open>Element keys\<close>

definition key_strings :: "'d pb_lib \<Rightarrow> 'd message \<Rightarrow> string list" where
  "key_strings lib msg = map (\<lambda>f. DBProtoMessageToString lib msg (snd f)) (filter (IsDBKey msg) (message_fields msg))"

lemma element_key_eq: "GetMessageElementKey e lib tab c msg = common_key tab c @ packed e (key_strings lib msg)"
proof -
  have "fold (\<lambda>f key. if \<not> IsDBKey msg f then key else AppendRawData e key (DBProtoMessageToString lib msg (snd f))) fs k =
      k @ packed e (map (\<lambda>f. DBProtoMessageToString lib msg (snd f)) (filter (IsDBKey msg) fs))" for fs k
    by (induction fs arbitrary: k) (auto simp: AppendRawData_eq simp del: store_u32.simps)
  then show ?thesis by (simp add: GetMessageElementKey_def key_strings_def)
qed

text \<open>Packed lists of short strings are uniquely decodable.\<close>

lemma packed_inj:
  assumes "\<forall>x \<in> set xs \<union> set ys. length x < 2 ^ 32"
  shows "packed e xs = packed e ys \<longleftrightarrow> xs = ys"
  using assms
proof (induction xs arbitrary: ys)
  case (Cons x xs)
  show ?case
  proof (cases ys)
    case (Cons y zs)
    have "x = y \<and> packed e xs = packed e zs" if eq: "packed e (x # xs) = packed e (y # zs)"
    proof -
      have "store_u32 e (word_of_nat (length x)) = store_u32 e (word_of_nat (length y))"
        using eq by (metis append_eq_append_conv length_store_u32 packed_simps(2))
      then have "(word_of_nat (length x) :: u32) = word_of_nat (length y)" by (metis append_Nil2 load_store_u32)
      then have "length x = length y"
        using Cons.prems \<open>ys = y # zs\<close> by (metis Un_iff list.set_intros(1) unat_of_nat_u32)
      then show ?thesis using eq by simp
    qed
    then show ?thesis using Cons.IH [of zs] Cons.prems \<open>ys = y # zs\<close> by (auto simp del: store_u32.simps)
  qed simp
qed (metis packed_Nil_iff)

lemma common_key_inj:
  assumes "CHR ''#'' \<notin> set n" "CHR ''#'' \<notin> set n'"
  shows "common_key n c @ x = common_key n' c' @ x' \<Longrightarrow> n = n' \<and> c @ x = c' @ x'"
proof -
  assume "common_key n c @ x = common_key n' c' @ x'"
  then have eq: "n @ CHR ''#'' # c @ x = n' @ CHR ''#'' # c' @ x'" by (simp add: common_key_def strTableSpacer_def)
  have tw: "takeWhile (\<lambda>ch. ch \<noteq> CHR ''#'') (m @ CHR ''#'' # r) = m" if "CHR ''#'' \<notin> set m" for m r
    using that by (subst takeWhile_append2) auto
  have "n = n'" using tw [OF assms(1)] tw [OF assms(2)] eq by metis
  with eq show ?thesis by simp
qed

section \<open>Tables of a message\<close>

text \<open>
  The tables a message writes, with the common key list in force at each, and the entries they make.
\<close>

fun kv_tables :: "endian \<Rightarrow> 'd pb_lib \<Rightarrow> 'd message \<Rightarrow> (string \<times> 'd pb_value) list \<Rightarrow> string \<Rightarrow> (string \<times> string \<times> 'd message list) list" where
  "kv_tables e lib message [] c = []"
| "kv_tables e lib message (f # fs) c =
     (if IsDBCommonKeyType (cpp_type (snd f))
      then kv_tables e lib message fs (AppendRawData e c (DBProtoMessageToString lib message (snd f)))
      else (case snd f of
              VRepeated _ ms \<Rightarrow> if ms = [] then [] else [(fst f, c, ms)]
            | VMessage _ (Some m) \<Rightarrow> [(fst f, c, [m])]
            | _ \<Rightarrow> []) @ kv_tables e lib message fs c)"

definition table_entries :: "endian \<Rightarrow> 'd pb_lib \<Rightarrow> string \<times> string \<times> 'd message list \<Rightarrow> (string \<times> string) list" where
  "table_entries e lib t = (case t of (n, c, ms) \<Rightarrow> map (\<lambda>m. (GetMessageElementKey e lib n c m, SerializeAsString lib m)) ms)"

definition kv_entries :: "endian \<Rightarrow> 'd pb_lib \<Rightarrow> (string \<times> string \<times> 'd message list) list \<Rightarrow> (string \<times> string) list" where
  "kv_entries e lib ts = concat (map (table_entries e lib) ts)"

definition table_commons :: "(string \<times> string \<times> 'd message list) list \<Rightarrow> string set" where
  "table_commons ts = (\<lambda>(n, c, ms). common_key n c) ` set ts"

definition elements_ok :: "'d pb_lib \<Rightarrow> 'd message list \<Rightarrow> bool" where
  "elements_ok lib ms \<longleftrightarrow> distinct (map (key_strings lib) ms) \<and>
     (\<forall>m \<in> set ms. key_strings lib m \<noteq> [] \<and> (\<forall>k \<in> set (key_strings lib m). length k < 2 ^ 32))"

definition tables_ok :: "'d pb_lib \<Rightarrow> (string \<times> string \<times> 'd message list) list \<Rightarrow> bool" where
  "tables_ok lib ts \<longleftrightarrow> distinct (map fst ts) \<and> (\<forall>(n, c, ms) \<in> set ts. CHR ''#'' \<notin> set n \<and> elements_ok lib ms)"

lemma tables_ok_Cons:
  "tables_ok lib ((n, c, ms) # ts) \<longleftrightarrow>
     n \<notin> fst ` set ts \<and> CHR ''#'' \<notin> set n \<and> elements_ok lib ms \<and> tables_ok lib ts"
  by (auto simp: tables_ok_def)

lemma element_key_table:
  assumes "CHR ''#'' \<notin> set n" "CHR ''#'' \<notin> set n'" "GetMessageElementKey e lib n c m = common_key n' c' @ x"
  shows "n = n' \<and> c @ packed e (key_strings lib m) = c' @ x"
  using common_key_inj [OF assms(1,2)] assms(3) unfolding element_key_eq by blast

lemma table_entries_distinct:
  assumes "elements_ok lib ms" "CHR ''#'' \<notin> set n"
  shows "distinct (map fst (table_entries e lib (n, c, ms)))"
proof -
  have "inj_on (\<lambda>m. GetMessageElementKey e lib n c m) (set ms)"
  proof (rule inj_onI)
    fix m m' assume m: "m \<in> set ms" "m' \<in> set ms" and eq: "GetMessageElementKey e lib n c m = GetMessageElementKey e lib n c m'"
    have "packed e (key_strings lib m) = packed e (key_strings lib m')" using eq by (simp add: element_key_eq)
    then have "key_strings lib m = key_strings lib m'"
      using assms(1) m by (subst (asm) packed_inj) (auto simp: elements_ok_def)
    then show "m = m'" using assms(1) m unfolding elements_ok_def distinct_map by (auto dest: inj_onD)
  qed
  then show ?thesis
    using assms(1) by (simp add: table_entries_def comp_def distinct_map elements_ok_def)
qed

lemma kv_entries_keys:
  assumes "tables_ok lib ts" "k \<in> fst ` set (kv_entries e lib ts)"
  shows "\<exists>n c ms m. (n, c, ms) \<in> set ts \<and> m \<in> set ms \<and> k = GetMessageElementKey e lib n c m \<and> CHR ''#'' \<notin> set n \<and>
    key_strings lib m \<noteq> []"
  using assms by (fastforce simp: kv_entries_def table_entries_def tables_ok_def elements_ok_def)

lemma kv_entries_distinct: "tables_ok lib ts \<Longrightarrow> distinct (map fst (kv_entries e lib ts))"
proof (induction ts)
  case (Cons t ts)
  obtain n c ms where t: "t = (n, c, ms)" by (cases t) auto
  note ok = Cons.prems [unfolded t tables_ok_Cons]
  have "fst ` set (table_entries e lib (n, c, ms)) \<inter> fst ` set (kv_entries e lib ts) = {}"
  proof (rule ccontr)
    assume "\<not> ?thesis"
    then obtain k where k: "k \<in> fst ` set (table_entries e lib (n, c, ms))" "k \<in> fst ` set (kv_entries e lib ts)" by blast
    obtain n' c' ms' m' where k': "(n', c', ms') \<in> set ts" "k = GetMessageElementKey e lib n' c' m'" "CHR ''#'' \<notin> set n'"
      using kv_entries_keys [OF _ k(2)] ok by blast
    obtain m where "k = GetMessageElementKey e lib n c m" using k(1) by (auto simp: table_entries_def)
    then have "GetMessageElementKey e lib n c m = common_key n' c' @ packed e (key_strings lib m')"
      using k'(2) element_key_eq by metis
    then have "n = n'" using element_key_table k'(3) ok by blast
    then show False using k'(1) ok by force
  qed
  then show ?case
    using Cons.IH table_entries_distinct [of lib ms n e c] ok by (simp add: kv_entries_def t)
qed (simp add: kv_entries_def)

lemma kv_entries_not_common:
  assumes ok: "tables_ok lib ts" and k: "k \<in> fst ` set (kv_entries e lib ts)"
  shows "k \<notin> table_commons ts"
proof
  assume "k \<in> table_commons ts"
  then obtain n c ms where c: "(n, c, ms) \<in> set ts" "k = common_key n c" by (auto simp: table_commons_def)
  obtain n' c' ms' m' where k': "(n', c', ms') \<in> set ts" "m' \<in> set ms'" "k = GetMessageElementKey e lib n' c' m'" "CHR ''#'' \<notin> set n'"
      "key_strings lib m' \<noteq> []"
    using kv_entries_keys [OF ok k] by blast
  have "CHR ''#'' \<notin> set n" using ok c(1) by (auto simp: tables_ok_def)
  then have e: "n' = n" "c' @ packed e (key_strings lib m') = c"
    using element_key_table [of n' n e lib c' m' c "[]"] c(2) k'(3,4) by simp_all
  then have "(n, c', ms') = (n, c, ms)"
    using ok c(1) k'(1) unfolding tables_ok_def by (metis eq_key_imp_eq_value)
  then show False using e(2) k'(5) by simp
qed

text \<open>A message whose tables all hold data, which the library reads back as it wrote it.\<close>

definition field_complete :: "'d pb_lib \<Rightarrow> string \<times> 'd pb_value \<Rightarrow> bool" where
  "field_complete lib f \<longleftrightarrow> IsDBCommonKeyType (cpp_type (snd f)) \<or>
     (case snd f of
        VRepeated p ms \<Rightarrow> ms \<noteq> [] \<and> (\<forall>m \<in> set ms. ParseFromString lib p (SerializeAsString lib m) = m)
      | VMessage p (Some m) \<Rightarrow> ParseFromString lib p (SerializeAsString lib m) = m
      | _ \<Rightarrow> False)"

text \<open>Loading adds what it finds: a repeated field keeps the elements that named the keys.\<close>

definition reloaded :: "string \<times> 'd pb_value \<Rightarrow> string \<times> 'd pb_value" where
  "reloaded f = (fst f, case snd f of VRepeated p ms \<Rightarrow> VRepeated p (ms @ ms) | v \<Rightarrow> v)"

lemma field_complete_ok: "\<forall>f \<in> set fs. field_complete lib f \<Longrightarrow> \<forall>f \<in> set fs. IsDBCommonKeyType (cpp_type (snd f)) \<or> cpp_type (snd f) = CPPTYPE_MESSAGE"
  by (fastforce simp: field_complete_def split: pb_value.splits)

lemma load_repeated:
  "(\<And>m. m \<in> set ms \<Longrightarrow> ParseFromString lib p (get m) = m) \<Longrightarrow>
   fold (\<lambda>m. load_value lib (get m)) ms (VRepeated p acc) = VRepeated p (acc @ ms)"
  by (induction ms arbitrary: acc) auto

section \<open>Key-value stores\<close>

text \<open>What the code relies on of a store: a look-up sees the last put or delete of its key and nothing else.\<close>

locale kv_store =
  fixes kv :: "'s kv_handle"
  assumes get_put: "funGet kv k' (funPut kv k v s) = (if k' = k then v else funGet kv k' s)"
    and get_del: "funGet kv k' (funDel kv k s) = (if k' = k then [] else funGet kv k' s)"
begin

lemma update_step:
  assumes "g = update_repeated \<or> g = update_singular"
  shows "\<exists>b' ks'. g e lib kv tab c m (b, ks, s) =
    (b', ks', funPut kv (GetMessageElementKey e lib tab c m) (SerializeAsString lib m) s)"
  using assms by (elim disjE) (auto simp: update_repeated_def update_singular_def Let_def)

text \<open>Element writes of one table: the last write of a key counts.\<close>

lemma get_update_elements:
  assumes "fold (g e lib kv tab c) msgs (b, ks, s) = (b', ks', s')" "g = update_repeated \<or> g = update_singular"
  shows "funGet kv k s' = (case map_of (rev (map (\<lambda>m. (GetMessageElementKey e lib tab c m, SerializeAsString lib m)) msgs)) k of
      Some v \<Rightarrow> v | None \<Rightarrow> funGet kv k s)"
  using assms
proof (induction msgs arbitrary: b ks s)
  case (Cons m msgs)
  obtain b1 ks1 where "g e lib kv tab c m (b, ks, s) = (b1, ks1, funPut kv (GetMessageElementKey e lib tab c m) (SerializeAsString lib m) s)"
    using update_step [OF Cons.prems(2)] by blast
  with Cons.prems Cons.IH show ?case by (auto simp: get_put map_add_def split: option.splits)
qed simp

lemma get_update_table:
  assumes "update_table e lib kv tab c r msgs s = Some s'" "k \<noteq> common_key tab c" "funRang kv = None"
  shows "funGet kv k s' = (case map_of (rev (map (\<lambda>m. (GetMessageElementKey e lib tab c m, SerializeAsString lib m)) msgs)) k of
      Some v \<Rightarrow> v | None \<Rightarrow> funGet kv k s)"
  using assms
proof -
  obtain ks b' ks' s1 where "fold ((if r then update_repeated else update_singular) e lib kv tab c) msgs (False, ks, s) = (b', ks', s1)"
      "s' = (if b' then funPut kv (common_key tab c) (PacketList e ks' []) s1 else s1)"
    using assms(1,3) by (auto simp: update_table_def Let_def split: option.splits prod.splits)
  moreover have "(if r then update_repeated else update_singular) = update_repeated \<or> (if r then update_repeated else update_singular) = update_singular"
    by simp
  ultimately show ?thesis
    using get_update_elements [of "if r then update_repeated else update_singular" e lib tab c msgs False ks s b' ks' s1 k] assms(2)
    by (auto simp: get_put)
qed

lemma update_table_total:
  assumes "PaserList_set e (funGet kv (common_key tab c) s) \<noteq> None" "funRang kv = None"
  shows "update_table e lib kv tab c r msgs s \<noteq> None"
  using assms by (auto simp: update_table_def Let_def split: prod.splits)

lemma common_not_entry:
  assumes ok: "tables_ok lib ((n, c, ms) # ts)" and t: "(n', c', ms') \<in> set ts"
  shows "common_key n' c' \<noteq> common_key n c" "common_key n' c' \<notin> fst ` set (table_entries e lib (n, c, ms))"
proof -
  have n: "n \<noteq> n'" "CHR ''#'' \<notin> set n" "CHR ''#'' \<notin> set n'"
    using ok t by (force simp: tables_ok_def)+
  show "common_key n' c' \<noteq> common_key n c" using common_key_inj [OF n(3,2), of c' "[]" c "[]"] n(1) by auto
  have "GetMessageElementKey e lib n c m \<noteq> common_key n' c'" for m
    using element_key_table [OF n(2,3), of e lib c m c' "[]"] n(1) by auto
  then show "common_key n' c' \<notin> fst ` set (table_entries e lib (n, c, ms))"
    unfolding table_entries_def by force
qed

definition store_ok :: "endian \<Rightarrow> (string \<times> string \<times> 'd message list) list \<Rightarrow> 's \<Rightarrow> bool" where
  "store_ok e ts s \<longleftrightarrow> (\<forall>(n, c, ms) \<in> set ts. PaserList_set e (funGet kv (common_key n c) s) \<noteq> None)"

definition updated :: "endian \<Rightarrow> 'd pb_lib \<Rightarrow> (string \<times> string \<times> 'd message list) list \<Rightarrow> 's \<Rightarrow> 's \<Rightarrow> bool" where
  "updated e lib ts s s' \<longleftrightarrow> (\<forall>k. k \<notin> table_commons ts \<longrightarrow>
     funGet kv k s' = (case map_of (rev (kv_entries e lib ts)) k of Some v \<Rightarrow> v | None \<Rightarrow> funGet kv k s))"

lemma update_table_step:
  assumes rang: "funRang kv = None" and ok: "tables_ok lib ((n, c, ms) # ts)" and st: "store_ok e ((n, c, ms) # ts) s"
  obtains s1 where "update_table e lib kv n c r ms s = Some s1" "store_ok e ts s1"
    "\<And>s'. updated e lib ts s1 s' \<Longrightarrow> updated e lib ((n, c, ms) # ts) s s'"
proof -
  obtain s1 where u: "update_table e lib kv n c r ms s = Some s1"
    using update_table_total [of e n c s] st rang unfolding store_ok_def by fastforce
  note G = get_update_table [OF u _ rang, folded table_entries_def [of e lib "(n, c, ms)", simplified]]
  have "funGet kv (common_key n' c') s1 = funGet kv (common_key n' c') s" if "(n', c', ms') \<in> set ts" for n' c' ms'
  proof -
    have "map_of (rev (table_entries e lib (n, c, ms))) (common_key n' c') = None"
      unfolding map_of_eq_None_iff set_rev by (rule common_not_entry(2) [OF ok that])
    then show ?thesis using G [OF common_not_entry(1) [OF ok that]] by simp
  qed
  then have "store_ok e ts s1" using st unfolding store_ok_def by fastforce
  moreover have "updated e lib ((n, c, ms) # ts) s s'" if "updated e lib ts s1 s'" for s'
    using that G unfolding updated_def table_commons_def kv_entries_def
    by (auto simp: map_add_def split: option.splits)
  ultimately show ?thesis using that u by blast
qed

definition fields_ok :: "(string \<times> 'd pb_value) list \<Rightarrow> bool" where
  "fields_ok fs \<longleftrightarrow> (\<forall>f \<in> set fs. IsDBCommonKeyType (cpp_type (snd f)) \<or> cpp_type (snd f) = CPPTYPE_MESSAGE)"

lemma update_tables:
  assumes rang: "funRang kv = None"
    and "fields_ok fs" "tables_ok lib (kv_tables e lib message fs c)" "store_ok e (kv_tables e lib message fs c) s"
  shows "\<exists>c' s'. for_each (update_field e lib kv message) fs (c, s) = Some (c', s') \<and>
    updated e lib (kv_tables e lib message fs c) s s'"
  using assms(2-)
proof (induction fs arbitrary: c s)
  case Nil
  then show ?case by (simp add: updated_def kv_entries_def)
next
  case (Cons f fs)
  have fok: "fields_ok fs" using Cons.prems(1) by (simp add: fields_ok_def)
  show ?case
  proof (cases "IsDBCommonKeyType (cpp_type (snd f))")
    case True
    then show ?thesis using Cons.IH [OF fok] Cons.prems(2,3) by (auto simp: update_field_def)
  next
    case False
    then have m: "cpp_type (snd f) = CPPTYPE_MESSAGE" using Cons.prems(1) by (simp add: fields_ok_def)
    have go: ?thesis if ts: "kv_tables e lib message (f # fs) c = (fst f, c, ms) # kv_tables e lib message fs c"
        and uf: "update_field e lib kv message f (c, s) = map_option (Pair c) (update_table e lib kv (fst f) c r ms s)" for ms r
    proof -
      obtain s1 where s1: "update_table e lib kv (fst f) c r ms s = Some s1"
          "store_ok e (kv_tables e lib message fs c) s1"
          "\<And>s'. updated e lib (kv_tables e lib message fs c) s1 s' \<Longrightarrow> updated e lib ((fst f, c, ms) # kv_tables e lib message fs c) s s'"
        using update_table_step [OF rang Cons.prems(2,3) [unfolded ts]] by metis
      have "tables_ok lib (kv_tables e lib message fs c)" using Cons.prems(2) unfolding ts tables_ok_Cons by blast
      then obtain c' s' where "for_each (update_field e lib kv message) fs (c, s1) = Some (c', s')"
          "updated e lib (kv_tables e lib message fs c) s1 s'"
        using Cons.IH [OF fok _ s1(2)] by blast
      then show ?thesis using s1 uf unfolding ts by auto
    qed
    show ?thesis
    proof (cases "snd f")
      case (VMessage p x)
      then show ?thesis
        using go [of _ False] False Cons.IH [OF fok] Cons.prems(2,3) by (cases x) (auto simp: update_field_def)
    next
      case (VRepeated p ms)
      then show ?thesis
        using go [of ms True] False Cons.IH [OF fok] Cons.prems(2,3) by (cases "ms = []") (auto simp: update_field_def)
    qed (use m in auto)
  qed
qed

lemma load_tables:
  assumes "\<forall>f \<in> set fs. field_complete lib f"
    and "\<forall>(k, v) \<in> set (kv_entries e lib (kv_tables e lib message fs c)). funGet kv k s = v"
  shows "\<exists>c'. for_each (load_field e lib kv s message) fs (c, done1) = Some (c', done1 @ map reloaded fs)"
  using assms
proof (induction fs arbitrary: c done1)
  case (Cons f fs)
  have fc: "field_complete lib f" "\<forall>f \<in> set fs. field_complete lib f" using Cons.prems(1) by simp_all
  show ?case
  proof (cases "IsDBCommonKeyType (cpp_type (snd f))")
    case True
    have "reloaded f = f" using True by (cases f; cases "snd f") (auto simp: reloaded_def IsDBCommonKeyType_def)
    then show ?thesis
      using Cons.IH [OF fc(2), of "AppendRawData e c (DBProtoMessageToString lib message (snd f))" "done1 @ [f]"] Cons.prems(2) True
      by (auto simp: load_field_def)
  next
    case False
    have rest: "\<exists>c'. for_each (load_field e lib kv s message) fs (c, done1 @ [reloaded f]) = Some (c', done1 @ map reloaded (f # fs))"
      using Cons.IH [OF fc(2), of c "done1 @ [reloaded f]"] Cons.prems(2) False by (auto simp: kv_entries_def)
    have "load_field e lib kv s message f (c, done1) = Some (c, done1 @ [reloaded f])"
    proof (cases "snd f")
      case (VRepeated p ms)
      then have ms: "ms \<noteq> []" "\<And>m. m \<in> set ms \<Longrightarrow> ParseFromString lib p (SerializeAsString lib m) = m"
        using fc(1) False by (auto simp: field_complete_def)
      have "funGet kv (GetMessageElementKey e lib (fst f) c m) s = SerializeAsString lib m" if "m \<in> set ms" for m
        using Cons.prems(2) False VRepeated ms(1) that by (auto simp: kv_entries_def table_entries_def)
      then show ?thesis
        using load_repeated [of ms lib p "\<lambda>m. funGet kv (GetMessageElementKey e lib (fst f) c m) s" ms] ms False VRepeated
        by (simp add: load_field_def load_keys_def reloaded_def fold_map comp_def)
    next
      case (VMessage p x)
      then obtain m where x: "x = Some m" "ParseFromString lib p (SerializeAsString lib m) = m"
        using fc(1) False by (cases x) (auto simp: field_complete_def)
      have "funGet kv (GetMessageElementKey e lib (fst f) c m) s = SerializeAsString lib m"
        using Cons.prems(2) False VMessage x(1) by (auto simp: kv_entries_def table_entries_def)
      then show ?thesis using x False VMessage by (simp add: load_field_def load_keys_def reloaded_def)
    qed (use fc(1) False in \<open>auto simp: field_complete_def\<close>)
    then show ?thesis using rest by simp
  qed
qed simp

text \<open>What was saved is loaded again by its keys.\<close>

lemma update_then_load:
  assumes rang: "funRang kv = None"
    and c: "\<forall>f \<in> set (message_fields message). field_complete lib f"
    and ok: "tables_ok lib (kv_tables e lib message (message_fields message) [])"
    and st: "store_ok e (kv_tables e lib message (message_fields message) []) s"
  shows "\<exists>s'. MessageUpdateOnKV e lib kv message s = Some s' \<and>
    MessageLoadOnKV e lib kv s' message = Some (Message (type_name message) (map reloaded (message_fields message)))"
proof -
  let ?fs = "message_fields message"
  let ?ts = "kv_tables e lib message ?fs []"
  have "fields_ok ?fs" unfolding fields_ok_def by (rule field_complete_ok [OF c])
  then obtain c' s' where u: "for_each (update_field e lib kv message) ?fs ([], s) = Some (c', s')" "updated e lib ?ts s s'"
    using update_tables [OF rang _ ok st] by blast
  have "funGet kv k s' = v" if "(k, v) \<in> set (kv_entries e lib ?ts)" for k v
  proof -
    have "map_of (rev (kv_entries e lib ?ts)) k = Some v"
      using kv_entries_distinct [OF ok, of e] that by (intro map_of_is_SomeI) (simp_all add: rev_map [symmetric])
    moreover have "k \<notin> table_commons ?ts" using kv_entries_not_common [OF ok] that by force
    ultimately show ?thesis using u(2) unfolding updated_def by simp
  qed
  then have "\<exists>c'. for_each (load_field e lib kv s' message) ?fs ([], []) = Some (c', [] @ map reloaded ?fs)"
    by (intro load_tables [OF c]) auto
  then show ?thesis using u(1) by (auto simp: MessageUpdateOnKV_def MessageLoadOnKV_def)
qed

end

section \<open>Properties\<close>

text \<open>
  C31: a list of strings is packed and parsed back, except that an empty last string is dropped: the
  parser takes the end of the input for an error before it has read the length.
\<close>

theorem PaserList_PacketList:
  assumes "length (PacketList e xs []) < 2 ^ 32 - 1"
  shows "PaserList e (PacketList e xs []) = Some (if xs \<noteq> [] \<and> last xs = [] then butlast xs else xs)"
  using PaserList_packed [of "[]" e xs "[]"] assms by (simp add: PaserList_def PacketList_eq parsed_def)

theorem PaserList_PacketList_witness:
  "PaserList BigEndian (PacketList BigEndian [''ab'', [], ''c''] []) = Some [''ab'', [], ''c'']"
  using PaserList_PacketList [of BigEndian "[''ab'', [], ''c'']"] by (simp add: PacketList_eq del: store_u32.simps)

text \<open>
  A stored length that exceeds the bytes that follow it by two, three or four passes the parser's
  check, which forgets the four bytes of the length itself: the parser reads past the end of the
  string.
\<close>

theorem PaserList_reads_past_end:
  assumes "x \<noteq> []" "length x + 1 < n" "n \<le> length x + 4" "n < 2 ^ 32"
  shows "PaserList e (store_u32 e (word_of_nat n) @ x) = None"
  using PaserList_overread [of x n e] assms by simp

theorem PaserList_reads_past_end_witness: "PaserList LittleEndian (store_u32 LittleEndian (word_of_nat 4) @ ''a'') = None"
  using PaserList_reads_past_end [of "''a''" 4 LittleEndian] by simp

lemma scalar_round_trip:
  assumes "value_ok v" "cpp_type v \<notin> {CPPTYPE_DOUBLE, CPPTYPE_FLOAT, CPPTYPE_MESSAGE}"
  shows "DBStringToProtoMessage lib v (DBProtoMessageToString lib m v) = Some v"
proof -
  have i: "atoi (to_string i) = i" if "is_int32 i" for i using atoi_to_string [OF that, of "[]"] by simp
  have l: "atoll (to_string i) = i" if "is_int64 i" for i using atoll_to_string [OF that, of "[]"] by simp
  have "is_int64 i" if "0 \<le> i" "i < 2 ^ 32" for i using that by (simp add: is_int64_def)
  with i l show ?thesis
    using assms by (cases v) (auto simp: to_string_no_nul strtoull_to_string is_int32_def)
qed

text \<open>
  C32: every integer, enumeration, boolean and string field keeps its value when it is written to a
  database column and read back, at the full range of its type.
\<close>

theorem db_field_round_trip:
  assumes "value_ok v" "cpp_type v \<notin> {CPPTYPE_DOUBLE, CPPTYPE_FLOAT, CPPTYPE_MESSAGE}"
  shows "DBStringToProtoMessage lib v (DBProtoMessageToString lib m v) = Some v"
  using assms by (rule scalar_round_trip)

theorem db_field_round_trip_witness:
  "\<forall>lib :: unit pb_lib. DBStringToProtoMessage lib (VInt64 (- 5)) (DBProtoMessageToString lib (Message ''M'' []) (VInt64 (- 5))) = Some (VInt64 (- 5))"
  by (intro allI db_field_round_trip) (simp_all add: is_int64_def)

end
