(* ===== verification/Rocksdb_Module.thy ===== *)
theory Rocksdb_Module
  imports Db_Utils Service_Government "HOL-Library.List_Lexorder" "HOL-Library.Char_ord"
begin

text \<open>
  \<open>RocksDBModule\<close> (common/database/rocksdb/rocksdb_module.h, rocksdb_module.cpp): the key-value
  handle over one open database per loop thread, the sharding of the data over the threads and the
  re-sharding at start-up when the number of shards or the salt changed. The RocksDB library is not
  part of the sources; what the module uses of it is a sorted map from byte strings to byte strings
  per directory, with opening (which creates a missing database, and may fail: the argument
  \<open>canOpen\<close>), get, put, delete and a bounded scan. The re-sharding threads read different
  directories and post their puts to the pool of the new shards, one loop per shard; here they run
  one after the other. \<open>None\<close> stands for \<open>abort\<close>, a null database pointer or an exception.
\<close>

section \<open>Databases and the key-value handle\<close>

type_synonym rocks_db = "(string \<times> string) list"

definition Db_Get :: "string \<Rightarrow> rocks_db \<Rightarrow> string" where
  "Db_Get strKey db = (case map_of db strKey of None \<Rightarrow> [] | Some v \<Rightarrow> v)"

definition Db_Put :: "string \<Rightarrow> string \<Rightarrow> rocks_db \<Rightarrow> rocks_db" where
  "Db_Put strKey strVal db = put strKey strVal db"

definition Db_Delete :: "string \<Rightarrow> rocks_db \<Rightarrow> rocks_db" where
  "Db_Delete strKey db = filter (\<lambda>e. fst e \<noteq> strKey) db"

definition PbMessageKVHandle :: "rocks_db kv_handle" where
  "PbMessageKVHandle = \<lparr>funGet = Db_Get, funPut = Db_Put, funDel = Db_Delete, funRang = None\<rparr>"

definition Rocks_MessageLoad :: "endian \<Rightarrow> 'd pb_lib \<Rightarrow> 'd message \<Rightarrow> rocks_db \<Rightarrow> 'd message option" where
  "Rocks_MessageLoad e lib message db = MessageLoadOnKV e lib PbMessageKVHandle db message"

definition Rocks_MessageUpdate :: "endian \<Rightarrow> 'd pb_lib \<Rightarrow> 'd message \<Rightarrow> rocks_db \<Rightarrow> rocks_db option" where
  "Rocks_MessageUpdate e lib message db = MessageUpdateOnKV e lib PbMessageKVHandle message db"

definition Rocks_MessageDelete :: "endian \<Rightarrow> 'd pb_lib \<Rightarrow> 'd message \<Rightarrow> rocks_db \<Rightarrow> rocks_db option" where
  "Rocks_MessageDelete e lib message db = MessageDeleteOnKV e lib PbMessageKVHandle message db"

section \<open>The module\<close>

record rocks_module =
  rkInstanceName :: string
  rkFiles :: "string \<rightharpoonup> rocks_db"
  rkLoops :: nat

definition RocksDBModule :: "(string \<rightharpoonup> rocks_db) \<Rightarrow> rocks_module" where
  "RocksDBModule files = \<lparr>rkInstanceName = [], rkFiles = files, rkLoops = 0\<rparr>"

definition s_strDataPathPrefix :: string where
  "s_strDataPathPrefix = ''shard_''"

definition s_strMetaPathPrefix :: string where
  "s_strMetaPathPrefix = ''meta''"

definition CreateDBToc ::
    "(string \<Rightarrow> bool) \<Rightarrow> data_base_config_data \<Rightarrow> string \<Rightarrow> rocks_module \<Rightarrow> rocks_db option \<times> rocks_module" where
  "CreateDBToc canOpen cfg strPathSub s =
     (let strDbPath = dbAddress cfg @ strPathSub
      in if canOpen strDbPath
         then let db = (case rkFiles s strDbPath of None \<Rightarrow> [] | Some d \<Rightarrow> d)
              in (Some db, s\<lparr>rkFiles := (rkFiles s)(strDbPath \<mapsto> db)\<rparr>)
         else (None, s))"

definition CheckDBBaseData :: "(string \<Rightarrow> bool) \<Rightarrow> data_base_config_data \<Rightarrow> rocks_module \<Rightarrow> bool \<times> rocks_module" where
  "CheckDBBaseData canOpen cfg s =
     (case CreateDBToc canOpen cfg s_strMetaPathPrefix s of
        (None, s) \<Rightarrow> (False, s)
      | (Some db, s) \<Rightarrow>
          let strValShardNum = Db_Get ''shared_num'' db; strValShardPrefix = Db_Get ''shared_hash_slat'' db
          in (\<not> (strValShardNum = [] \<or> atoll (c_str strValShardNum) \<noteq> dbShardNum cfg \<or> strValShardPrefix \<noteq> rkInstanceName s), s))"

definition shard_path :: "data_base_config_data \<Rightarrow> nat \<Rightarrow> string" where
  "shard_path cfg i = dbAddress cfg @ s_strDataPathPrefix @ to_string (int i)"

definition tmp_path :: "data_base_config_data \<Rightarrow> nat \<Rightarrow> string" where
  "tmp_path cfg i = dbAddress cfg @ ''tmp_remap'' @ to_string (int i)"

text \<open>Opening the databases of the new shards, one per loop of the new pool.\<close>

definition open_new :: "(string \<Rightarrow> bool) \<Rightarrow> data_base_config_data \<Rightarrow> nat \<Rightarrow> rocks_module \<Rightarrow> rocks_db list option" where
  "open_new canOpen cfg n s =
     those (map (\<lambda>i. fst (CreateDBToc canOpen cfg (''tmp_remap'' @ to_string (int i)) s)) [0..<n])"

text \<open>One scanned pair is put into the new shard its hash selects.\<close>

definition remap_put :: "string \<Rightarrow> string \<times> string \<Rightarrow> rocks_db list \<Rightarrow> rocks_db list option" where
  "remap_put salt kv dbs =
     (case CRC32_two_string salt (fst kv) of
        None \<Rightarrow> None
      | Some c \<Rightarrow> let i = unat c mod length dbs in Some (dbs[i := Db_Put (fst kv) (snd kv) (dbs ! i)]))"

definition scan :: "rocks_db \<Rightarrow> (string \<times> string) list" where
  "scan db = filter (\<lambda>e. fst e < [CHR 0xFF]) db"

definition remap_shard ::
    "(string \<Rightarrow> bool) \<Rightarrow> data_base_config_data \<Rightarrow> rocks_module \<Rightarrow> nat \<Rightarrow> rocks_db list \<Rightarrow> rocks_db list option" where
  "remap_shard canOpen cfg s nDBIndex dbs =
     (case fst (CreateDBToc canOpen cfg (s_strDataPathPrefix @ to_string (int nDBIndex)) s) of
        None \<Rightarrow> None
      | Some db \<Rightarrow> for_each (remap_put (rkInstanceName s)) (scan db) dbs)"

definition remove_old :: "data_base_config_data \<Rightarrow> nat \<Rightarrow> rocks_module \<Rightarrow> rocks_module" where
  "remove_old cfg nOld s = s\<lparr>rkFiles := fold (\<lambda>i f. f(shard_path cfg i := None)) [0..<nOld] (rkFiles s)\<rparr>"

text \<open>\<open>rename\<close> of every temporary directory, which holds what its loop put into it.\<close>

definition switch_new :: "data_base_config_data \<Rightarrow> rocks_db list \<Rightarrow> rocks_module \<Rightarrow> rocks_module" where
  "switch_new cfg dbs s =
     s\<lparr>rkFiles := fold (\<lambda>i f. f(tmp_path cfg i := None, shard_path cfg i \<mapsto> dbs ! i)) [0..<length dbs] (rkFiles s)\<rparr>"

definition StartRocksDb :: "(string \<Rightarrow> bool) \<Rightarrow> data_base_config_data \<Rightarrow> rocks_module \<Rightarrow> rocks_module" where
  "StartRocksDb canOpen cfg s =
     (let s = s\<lparr>rkLoops := nat (dbShardNum cfg)\<rparr>
      in fold (\<lambda>i s. snd (CreateDBToc canOpen cfg (s_strDataPathPrefix @ to_string (int i)) s)) [0..<nat (dbShardNum cfg)] s)"

definition RemapDBDataAndStart ::
    "(string \<Rightarrow> bool) \<Rightarrow> data_base_config_data \<Rightarrow> rocks_module \<Rightarrow> rocks_module option" where
  "RemapDBDataAndStart canOpen cfg s =
     (if dbShardNum cfg \<le> 0 then Some s
      else case CreateDBToc canOpen cfg s_strMetaPathPrefix s of
             (None, s) \<Rightarrow> Some s
           | (Some meta, s) \<Rightarrow>
               let nOldShardNum = atoll (c_str (Db_Get ''shared_num'' meta));
                   strValShardPrefix = Db_Get ''shared_hash_slat'' meta
               in if nOldShardNum = dbShardNum cfg \<and> strValShardPrefix = rkInstanceName s then Some s
                  else if nOldShardNum < 0 then None
                  else case open_new canOpen cfg (nat (dbShardNum cfg)) s of
                         None \<Rightarrow> None
                       | Some dbs \<Rightarrow>
                           (case for_each (remap_shard canOpen cfg s) [0..<nat nOldShardNum] dbs of
                              None \<Rightarrow> None
                            | Some dbs \<Rightarrow>
                                let s = switch_new cfg dbs (remove_old cfg (nat nOldShardNum) s);
                                    meta = Db_Put ''shared_num'' (to_string (dbShardNum cfg)) meta;
                                    meta = Db_Put ''shared_hash_slat'' (rkInstanceName s) meta;
                                    s = s\<lparr>rkFiles := (rkFiles s)(dbAddress cfg @ s_strMetaPathPrefix \<mapsto> meta)\<rparr>
                                in Some (StartRocksDb canOpen cfg s)))"

definition InitRocksDb :: "(string \<Rightarrow> bool) \<Rightarrow> data_base_config_data \<Rightarrow> rocks_module \<Rightarrow> rocks_module option" where
  "InitRocksDb canOpen cfg s =
     (case CheckDBBaseData canOpen cfg s of
        (False, s) \<Rightarrow> RemapDBDataAndStart canOpen cfg s
      | (True, s) \<Rightarrow> Some (StartRocksDb canOpen cfg s))"

definition Rocks_BeforeInit ::
    "(string \<Rightarrow> bool) \<Rightarrow> xml_config_module \<Rightarrow> gov \<Rightarrow> rocks_module \<Rightarrow> rocks_module option" where
  "Rocks_BeforeInit canOpen config g s =
     (case GetDataBaseConfigDataById ''rocksdb'' config of
        None \<Rightarrow> Some s
      | Some cfg \<Rightarrow>
          if dbAddress cfg = [] then Some s
          else let s = s\<lparr>rkInstanceName := gvServerName g @ to_string (gvServerId g)\<rparr>;
                   cfg = (if last (dbAddress cfg) \<noteq> CHR ''/'' then cfg\<lparr>dbAddress := dbAddress cfg @ ''/''\<rparr> else cfg)
               in InitRocksDb canOpen cfg s)"

text \<open>\<open>DBLoopExec\<close> runs the function on the loop the key selects, hence on that loop's database.\<close>

definition DBLoopExec :: "string \<Rightarrow> rocks_module \<Rightarrow> nat option" where
  "DBLoopExec strIndexKey s =
     (if rkLoops s = 0 then None
      else map_option (\<lambda>c. unat c mod rkLoops s) (CRC32_two_string strIndexKey (rkInstanceName s)))"

definition Rocks_AfterStop :: "rocks_module \<Rightarrow> rocks_module" where
  "Rocks_AfterStop s = s\<lparr>rkLoops := 0\<rparr>"

section \<open>The handle is a key-value store\<close>

lemma map_of_filter_key: "map_of (filter (\<lambda>e. fst e \<noteq> k) m) k' = (if k' = k then None else map_of m k')"
  by (induction m) auto

interpretation rocks: kv_store PbMessageKVHandle
  by unfold_locales (simp_all add: PbMessageKVHandle_def Db_Get_def Db_Put_def Db_Delete_def map_of_filter_key)

section \<open>Saving and loading\<close>

lemma rang_None [simp]: "funRang PbMessageKVHandle = None"
  by (simp add: PbMessageKVHandle_def)

lemma handle_ops [simp]: "funGet PbMessageKVHandle = Db_Get" "funPut PbMessageKVHandle = Db_Put"
  by (simp_all add: PbMessageKVHandle_def)


fun sample_ser :: "unit message \<Rightarrow> string" where
  "sample_ser (Message t [(_, VInt32 a), (_, VInt32 b), (_, VInt32 n)]) = [char_of a, char_of b, char_of n]"
| "sample_ser _ = []"

definition sample_count :: "int \<Rightarrow> int \<Rightarrow> int \<Rightarrow> unit message" where
  "sample_count a b n = Message ''Db.UserCount'' [(''count_type'', VInt32 a), (''count_subtype'', VInt32 b), (''count'', VInt32 n)]"

fun sample_parse :: "unit message \<Rightarrow> string \<Rightarrow> unit message" where
  "sample_parse p [a, b, n] = sample_count (of_char a) (of_char b) (of_char n)"
| "sample_parse p _ = p"

definition sample_lib :: "unit pb_lib" where
  "sample_lib = \<lparr>SerializeAsString = sample_ser, ParseFromString = sample_parse, ftoa = (\<lambda>_. []), atof = (\<lambda>_. ()), nonzero = (\<lambda>_. False)\<rparr>"

definition sample_user :: "unit message list \<Rightarrow> unit message" where
  "sample_user counts = Message ''Db.UserData'' [(''user_id'', VString ''u1''), (''user_counts'', VRepeated (sample_count 0 0 0) counts)]"

lemma sample_keys: "key_strings sample_lib (sample_count a b n) = [to_string a, to_string b]"
  by (simp add: key_strings_def sample_count_def IsDBKey_def IsDBCommonKeyType_def DbPbFieldKey_def)

lemma sample_digits: "length (to_string 1) = 1" "length (to_string 2) = 1"
  by (simp_all add: to_string_def nat_to_string.simps)

lemma sample_reads: "ParseFromString sample_lib p (SerializeAsString sample_lib (sample_count a b n)) = sample_count a b n"
  if "0 \<le> a" "a < 256" "0 \<le> b" "b < 256" "0 \<le> n" "n < 256"
  using that by (simp add: sample_lib_def sample_count_def)

lemma sample_tables: "kv_tables e sample_lib (sample_user ms) (message_fields (sample_user ms)) [] =
    (if ms = [] then [] else [(''user_counts'', packed e [''u1''], ms)])"
  by (simp add: sample_user_def IsDBCommonKeyType_def AppendRawData_eq del: packed_simps)

lemma sample_distinct: "elements_ok sample_lib [sample_count 1 1 7, sample_count 1 2 9]"
  by (simp add: elements_ok_def sample_keys sample_digits to_string_inj)


section \<open>The key list of a table\<close>



text \<open>
  A singular element of a type without key fields is stored under the very key of its table's
  key list, which is written after it: what was saved is overwritten, and a load parses the key list.
\<close>

theorem rocks_keyless_element_overwritten:
  assumes k: "key_strings lib m = []" and fresh: "Db_Get (common_key tab (packed e [u])) db = []"
  shows "\<exists>db'. Rocks_MessageUpdate e lib (Message ty [(n, VString u), (tab, VMessage p (Some m))]) db = Some db' \<and>
    Rocks_MessageLoad e lib (Message ty [(n, VString u), (tab, VMessage p (Some m))]) db' =
      Some (Message ty [(n, VString u), (tab, VMessage p (Some (ParseFromString lib p (PacketList e [common_key tab (packed e [u])] []))))])"
proof -
  let ?c = "packed e [u]"
  let ?ck = "common_key tab ?c"
  have key: "GetMessageElementKey e lib tab ?c m = ?ck" by (simp add: element_key_eq k)
  have empty: "PaserList_set e [] = Some []"
    by (simp add: PaserList_set_def PaserList_def PaserList_loop.simps size_of_def)
  have gp: "Db_Get k' (Db_Put k v d) = (if k' = k then v else Db_Get k' d)" for k k' v d
    using rocks.get_put by simp
  let ?db' = "Db_Put ?ck (PacketList e [?ck] []) (Db_Put ?ck (SerializeAsString lib m) db)"
  have "update_table e lib PbMessageKVHandle tab ?c False [m] db = Some ?db'"
    using fresh empty by (simp add: update_table_def update_singular_def set_insert_def key Let_def del: packed_simps)
  then have "Rocks_MessageUpdate e lib (Message ty [(n, VString u), (tab, VMessage p (Some m))]) db = Some ?db'"
    by (simp add: Rocks_MessageUpdate_def MessageUpdateOnKV_def update_field_def IsDBCommonKeyType_def AppendRawData_eq
        del: packed_simps)
  moreover have "Rocks_MessageLoad e lib (Message ty [(n, VString u), (tab, VMessage p (Some m))]) ?db' =
      Some (Message ty [(n, VString u), (tab, VMessage p (Some (ParseFromString lib p (PacketList e [?ck] []))))])"
    by (simp add: Rocks_MessageLoad_def MessageLoadOnKV_def load_field_def load_keys_def IsDBCommonKeyType_def
        AppendRawData_eq key gp del: packed_simps)
  ultimately show ?thesis by blast
qed


definition sample_base :: "int \<Rightarrow> unit message" where
  "sample_base lv = Message ''Db.UserBase'' [(''last_login_time'', VInt32 lv)]"

theorem rocks_keyless_element_overwritten_witness:
  "\<exists>db'. Rocks_MessageUpdate LittleEndian sample_lib
       (Message ''Db.UserData'' [(''user_id'', VString ''u1''), (''user_base'', VMessage (sample_base 0) (Some (sample_base 5)))]) [] = Some db' \<and>
     Rocks_MessageLoad LittleEndian sample_lib
       (Message ''Db.UserData'' [(''user_id'', VString ''u1''), (''user_base'', VMessage (sample_base 0) (Some (sample_base 5)))]) db' =
       Some (Message ''Db.UserData'' [(''user_id'', VString ''u1''), (''user_base'', VMessage (sample_base 0) (Some
         (ParseFromString sample_lib (sample_base 0) (PacketList LittleEndian [common_key ''user_base'' (packed LittleEndian [''u1''])] []))))])"
  by (rule rocks_keyless_element_overwritten)
    (simp_all add: key_strings_def sample_base_def IsDBKey_def DbPbFieldKey_def Db_Get_def)

section \<open>Re-sharding\<close>

definition shard_of :: "string \<Rightarrow> nat \<Rightarrow> string \<Rightarrow> nat" where
  "shard_of salt n k = unat (crc32_ref (salt @ k)) mod n"

lemma remap_put_eq:
  assumes "length (salt @ fst kv) < 2 ^ 32"
  shows "remap_put salt kv dbs = Some (dbs[shard_of salt (length dbs) (fst kv) := put (fst kv) (snd kv) (dbs ! shard_of salt (length dbs) (fst kv))])"
  using assms by (simp add: remap_put_def CRC32_two_string_eq crc32_of_ref shard_of_def Let_def Db_Put_def)

lemma remap_puts:
  assumes "\<forall>kv \<in> set kvs. length (salt @ fst kv) < 2 ^ 32" "dbs \<noteq> []"
  shows "\<exists>dbs'. for_each (remap_put salt) kvs dbs = Some dbs' \<and> length dbs' = length dbs \<and>
    (\<forall>i < length dbs. \<forall>k. map_of (dbs' ! i) k =
      (if shard_of salt (length dbs) k = i \<and> k \<in> fst ` set kvs then map_of (rev kvs) k else map_of (dbs ! i) k))"
  using assms
proof (induction kvs arbitrary: dbs)
  case (Cons kv kvs)
  let ?j = "shard_of salt (length dbs) (fst kv)"
  let ?dbs1 = "dbs[?j := put (fst kv) (snd kv) (dbs ! ?j)]"
  have j: "?j < length dbs" using Cons.prems(2) by (simp add: shard_of_def)
  have r: "remap_put salt kv dbs = Some ?dbs1" using Cons.prems(1) by (intro remap_put_eq) simp
  obtain dbs' where d: "for_each (remap_put salt) kvs ?dbs1 = Some dbs'" "length dbs' = length dbs"
      "\<And>i k. i < length dbs \<Longrightarrow> map_of (dbs' ! i) k =
        (if shard_of salt (length dbs) k = i \<and> k \<in> fst ` set kvs then map_of (rev kvs) k else map_of (?dbs1 ! i) k)"
    using Cons.IH [of ?dbs1] Cons.prems by auto
  have "map_of (dbs' ! i) k = (if shard_of salt (length dbs) k = i \<and> k \<in> fst ` set (kv # kvs) then map_of (rev (kv # kvs)) k else map_of (dbs ! i) k)"
    if i: "i < length dbs" for i k
  proof (cases "k \<in> fst ` set kvs")
    case True
    then obtain v where "map_of (rev kvs) k = Some v" by (metis map_of_eq_None_iff not_None_eq set_rev)
    then show ?thesis using d(3) [OF i, of k] True j i by (auto simp: map_add_def nth_list_update)
  next
    case False
    then have "map_of (rev kvs) k = None" by (simp add: map_of_eq_None_iff)
    then show ?thesis using d(3) [OF i, of k] False j i by (cases kv) (auto simp: map_add_def nth_list_update)
  qed
  then show ?case using r d(1,2) by simp
qed simp


definition file_db :: "rocks_module \<Rightarrow> string \<Rightarrow> rocks_db" where
  "file_db s path = (case rkFiles s path of None \<Rightarrow> [] | Some d \<Rightarrow> d)"

definition meta_path :: "data_base_config_data \<Rightarrow> string" where
  "meta_path cfg = dbAddress cfg @ s_strMetaPathPrefix"

lemma paths_distinct [simp]:
  "shard_path cfg i = shard_path cfg j \<longleftrightarrow> i = j" "tmp_path cfg i \<noteq> shard_path cfg j"
  "shard_path cfg i \<noteq> tmp_path cfg j" "meta_path cfg \<noteq> shard_path cfg i" "shard_path cfg i \<noteq> meta_path cfg"
  "meta_path cfg \<noteq> tmp_path cfg i" "tmp_path cfg i \<noteq> meta_path cfg"
  by (simp_all add: shard_path_def tmp_path_def meta_path_def s_strDataPathPrefix_def s_strMetaPathPrefix_def to_string_inj)

lemma CreateDBToc_open:
  assumes "\<And>p. canOpen p"
  shows "CreateDBToc canOpen cfg sub s =
    (Some (file_db s (dbAddress cfg @ sub)), s\<lparr>rkFiles := (rkFiles s)(dbAddress cfg @ sub \<mapsto> file_db s (dbAddress cfg @ sub))\<rparr>)"
  using assms by (simp add: CreateDBToc_def Let_def file_db_def)

lemma for_each_concat:
  "for_each (\<lambda>x a. for_each f (h x) a) xs a = for_each f (concat (map h xs)) a"
proof -
  have app: "for_each f (ys @ zs) a = (case for_each f ys a of None \<Rightarrow> None | Some a' \<Rightarrow> for_each f zs a')" for ys zs a
    by (induction ys arbitrary: a) (auto split: option.splits)
  show ?thesis by (induction xs arbitrary: a) (auto simp: app split: option.splits)
qed

lemma remap_shards:
  assumes "\<And>p. canOpen p"
  shows "for_each (remap_shard canOpen cfg s) xs dbs =
    for_each (remap_put (rkInstanceName s)) (concat (map (\<lambda>i. scan (file_db s (shard_path cfg i))) xs)) dbs"
proof -
  have "remap_shard canOpen cfg s = (\<lambda>i. for_each (remap_put (rkInstanceName s)) (scan (file_db s (shard_path cfg i))))"
    by (simp add: fun_eq_iff remap_shard_def CreateDBToc_open [OF assms] shard_path_def)
  then show ?thesis using for_each_concat by metis
qed

lemma open_new_fresh:
  assumes "\<And>p. canOpen p" "\<And>i. rkFiles s (tmp_path cfg i) = None"
  shows "open_new canOpen cfg n s = Some (replicate n [])"
proof -
  have those: "those (map (\<lambda>i. Some []) xs) = Some (replicate (length xs) [])" for xs :: "nat list"
    by (induction xs) auto
  have "fst (CreateDBToc canOpen cfg (''tmp_remap'' @ to_string (int i)) s) = Some []" for i
    using assms(2) [of i] by (simp add: CreateDBToc_open [OF assms(1)] file_db_def tmp_path_def)
  then show ?thesis using those [of "[0..<n]"] by (simp add: open_new_def)
qed

lemma switch_files:
  "fold (\<lambda>i f. f(tmp_path cfg i := None, shard_path cfg i \<mapsto> dbs ! i)) [0..<n] f (shard_path cfg j) =
     (if j < n then Some (dbs ! j) else f (shard_path cfg j))"
  by (induction n) (auto simp: less_Suc_eq)

lemma StartRocksDb_keeps:
  assumes "\<And>p. canOpen p"
  shows "rkInstanceName (StartRocksDb canOpen cfg s) = rkInstanceName s" "rkLoops (StartRocksDb canOpen cfg s) = nat (dbShardNum cfg)"
    "file_db (StartRocksDb canOpen cfg s) q = file_db s q"
proof -
  have "rkInstanceName (fold (\<lambda>i s. snd (CreateDBToc canOpen cfg (s_strDataPathPrefix @ to_string (int i)) s)) xs s) = rkInstanceName s"
    "rkLoops (fold (\<lambda>i s. snd (CreateDBToc canOpen cfg (s_strDataPathPrefix @ to_string (int i)) s)) xs s) = rkLoops s"
    "file_db (fold (\<lambda>i s. snd (CreateDBToc canOpen cfg (s_strDataPathPrefix @ to_string (int i)) s)) xs s) q = file_db s q" for xs :: "nat list" and s
    by (induction xs arbitrary: s) (auto simp: CreateDBToc_open [OF assms] file_db_def)
  then show "rkInstanceName (StartRocksDb canOpen cfg s) = rkInstanceName s" "rkLoops (StartRocksDb canOpen cfg s) = nat (dbShardNum cfg)"
    "file_db (StartRocksDb canOpen cfg s) q = file_db s q"
    by (simp_all add: StartRocksDb_def Let_def) (simp add: file_db_def)
qed

lemma merged_scan:
  assumes wf: "\<And>j. j < m \<Longrightarrow> distinct (map fst (db j))"
    and k: "i < m" "map_of (db i) k = Some v" "k < [CHR 0xFF]"
    and uniq: "\<And>j. j < m \<Longrightarrow> j \<noteq> i \<Longrightarrow> map_of (db j) k = None"
  shows "map_of (rev (concat (map (\<lambda>j. scan (db j)) [0..<m]))) k = Some v"
    and "k \<in> fst ` set (concat (map (\<lambda>j. scan (db j)) [0..<m]))"
proof -
  let ?kvs = "concat (map (\<lambda>j. scan (db j)) [0..<m])"
  have "(k, v) \<in> set (db i)" by (rule map_of_SomeD [OF k(2)])
  then have "(k, v) \<in> set ?kvs" using k(1,3) by (auto simp: scan_def)
  then show mem: "k \<in> fst ` set ?kvs" by force
  then obtain v' where v': "map_of (rev ?kvs) k = Some v'" by (metis map_of_eq_None_iff not_None_eq set_rev)
  then have "(k, v') \<in> set ?kvs" using map_of_SomeD by fastforce
  then obtain j where j: "j < m" "(k, v') \<in> set (db j)" by (auto simp: scan_def)
  then have "map_of (db j) k = Some v'" using wf by (intro map_of_is_SomeI) auto
  moreover from this have "j = i" using uniq j(1) by fastforce
  ultimately show "map_of (rev ?kvs) k = Some v" using v' k(2) by simp
qed

lemma RemapDBDataAndStart_moves:
  assumes opens: "\<And>p. canOpen p" and n: "0 < dbShardNum cfg"
    and meta: "atoll (c_str (Db_Get ''shared_num'' (file_db s (meta_path cfg)))) \<noteq> dbShardNum cfg \<or>
      Db_Get ''shared_hash_slat'' (file_db s (meta_path cfg)) \<noteq> rkInstanceName s"
    and old: "nOld = atoll (c_str (Db_Get ''shared_num'' (file_db s (meta_path cfg))))" "0 \<le> nOld"
    and fresh: "\<And>i. rkFiles s (tmp_path cfg i) = None"
    and dbs: "for_each (remap_put (rkInstanceName s)) (concat (map (\<lambda>j. scan (file_db s (shard_path cfg j))) [0..<nat nOld]))
      (replicate (nat (dbShardNum cfg)) []) = Some dbs" "length dbs = nat (dbShardNum cfg)"
  shows "\<exists>s'. RemapDBDataAndStart canOpen cfg s = Some s' \<and> rkLoops s' = nat (dbShardNum cfg) \<and>
    rkInstanceName s' = rkInstanceName s \<and> (\<forall>j < length dbs. file_db s' (shard_path cfg j) = dbs ! j) \<and>
    Db_Get ''shared_num'' (file_db s' (meta_path cfg)) = to_string (dbShardNum cfg) \<and>
    Db_Get ''shared_hash_slat'' (file_db s' (meta_path cfg)) = rkInstanceName s"
proof -
  let ?M = "file_db s (meta_path cfg)"
  let ?s1 = "s\<lparr>rkFiles := (rkFiles s)(meta_path cfg \<mapsto> ?M)\<rparr>"
  have open1: "CreateDBToc canOpen cfg s_strMetaPathPrefix s = (Some ?M, ?s1)"
    by (simp add: CreateDBToc_open [OF opens] meta_path_def)
  have f1: "file_db ?s1 q = file_db s q" "rkInstanceName ?s1 = rkInstanceName s" for q by (simp_all add: file_db_def)
  have new1: "open_new canOpen cfg (nat (dbShardNum cfg)) ?s1 = Some (replicate (nat (dbShardNum cfg)) [])"
    by (rule open_new_fresh [OF opens]) (simp add: fresh)
  have rs: "for_each (remap_shard canOpen cfg ?s1) [0..<nat nOld] (replicate (nat (dbShardNum cfg)) []) = Some dbs"
    using dbs(1) unfolding remap_shards [OF opens] f1 .
  let ?s2 = "switch_new cfg dbs (remove_old cfg (nat nOld) ?s1)"
  let ?M2 = "Db_Put ''shared_hash_slat'' (rkInstanceName s) (Db_Put ''shared_num'' (to_string (dbShardNum cfg)) ?M)"
  let ?s3 = "?s2\<lparr>rkFiles := (rkFiles ?s2)(meta_path cfg \<mapsto> ?M2)\<rparr>"
  have name2: "rkInstanceName ?s2 = rkInstanceName s" by (simp add: switch_new_def remove_old_def)
  have c: "(nOld = dbShardNum cfg \<and> Db_Get ''shared_hash_slat'' ?M = rkInstanceName s) = False" using meta unfolding old(1) by blast
  have "RemapDBDataAndStart canOpen cfg s = Some (StartRocksDb canOpen cfg ?s3)"
    using n old(2) new1 rs name2 by (simp add: c old(1) [symmetric] RemapDBDataAndStart_def Let_def open1 meta_path_def [symmetric])
  moreover have "file_db ?s3 (shard_path cfg j) = dbs ! j" if "j < length dbs" for j
    using that switch_files [of cfg dbs "length dbs" "rkFiles (remove_old cfg (nat nOld) ?s1)" j]
    by (simp add: file_db_def switch_new_def)
  moreover have "file_db ?s3 (meta_path cfg) = ?M2" by (simp add: file_db_def)
  moreover have "Db_Get ''shared_num'' ?M2 = to_string (dbShardNum cfg)" "Db_Get ''shared_hash_slat'' ?M2 = rkInstanceName s"
    by (simp_all add: Db_Get_def Db_Put_def)
  ultimately show ?thesis using StartRocksDb_keeps [where canOpen = canOpen and cfg = cfg and s = ?s3, OF opens] name2 by auto
qed



definition sample_store :: "data_base_config_data \<Rightarrow> rocks_module" where
  "sample_store cfg = \<lparr>rkInstanceName = ''Db1'', rkFiles =
     [meta_path cfg \<mapsto> [(''shared_num'', ''1'')], shard_path cfg 0 \<mapsto> [(''k'', ''v'')]], rkLoops = 0\<rparr>"

definition sample_db_config :: data_base_config_data where
  "sample_db_config = DataBaseConfigData\<lparr>dbAddress := ''/d/'', dbShardNum := 2\<rparr>"


lemma crc32_ref_step8:
  "crc32_ref_step c x =
     crc32_bit (crc32_bit (crc32_bit (crc32_bit (crc32_bit (crc32_bit (crc32_bit (crc32_bit (c XOR of_char x))))))))"
  by (simp add: crc32_ref_step_def numeral_eq_Suc)

lemma crc_steps:
  "crc32_ref_step 0xFFFFFFFF (CHR ''u'') = 0xd9295c1"
  "crc32_ref_step 0xd9295c1 (CHR ''s'') = 0x25624035"
  "crc32_ref_step 0xFFFFFFFF (CHR ''s'') = 0xe4f130f4"
  "crc32_ref_step 0xe4f130f4 (CHR ''t'') = 0xed5c7210"
  "crc32_ref_step 0xed5c7210 (CHR ''#'') = 0xbf3d3d64"
  "crc32_ref_step 0xbf3d3d64 (CHR 0x01) = 0x3d67a8ea"
  "crc32_ref_step 0x3d67a8ea (CHR 0x00) = 0x40e26cce"
  "crc32_ref_step 0x40e26cce (CHR 0x00) = 0x7c9c0ddb"
  "crc32_ref_step 0x7c9c0ddb (CHR 0x00) = 0x117d9751"
  "crc32_ref_step 0x117d9751 (CHR ''u'') = 0x3c129946"
  by (simp_all add: crc32_ref_step8 crc32_bit_def)

text \<open>
  The shard a record is moved to hashes the salt and then the record's full key; the shard the
  functions of a user run on hashes the user id and then the salt. They need not agree: here the key
  list of user "u" is moved to the second of two shards while the user's loads run on the first.
\<close>

lemma rocks_shards_disagree:
  assumes "rkInstanceName s = ''s''" "rkLoops s = 2"
  shows "DBLoopExec ''u'' s = Some 0" "shard_of ''s'' 2 (common_key ''t'' (packed LittleEndian [''u''])) = 1"
proof -
  have "crc32_ref ''us'' = 0xda9dbfca" by (simp add: crc32_ref_def crc_steps)
  then show "DBLoopExec ''u'' s = Some 0"
    using assms CRC32_two_string_eq [of "''u''" "''s''"] by (simp add: DBLoopExec_def crc32_of_ref)
  have "store_u32 LittleEndian 1 = [CHR 0x01, CHR 0x00, CHR 0x00, CHR 0x00]" by code_simp
  then show "shard_of ''s'' 2 (common_key ''t'' (packed LittleEndian [''u''])) = 1"
    by (simp add: shard_of_def common_key_def strTableSpacer_def crc32_ref_def crc_steps del: store_u32.simps)
qed

end
