(* ===== verification/Net_Module.thy ===== *)
theory Net_Module
  imports Cat_Prelude
begin

text \<open>
  The sessions of \<open>NetModule\<close> (common/net/net_module.h, net_module.cpp, net_accepter.cpp): how a
  connection is accepted or opened, enters the session maps of its network loop and of the main
  loop, and is closed. What happens to the bytes of one session is in \<open>Net_Session\<close>. A session
  object is a number; the functions the code posts to a loop are the constructors of \<open>main_task\<close>
  and \<open>net_task\<close>, and each loop runs its own queue in order. Completions of socket operations
  and timers are events that happen in any order.
\<close>

section \<open>State\<close>

record net_session =
  nsLoop :: nat
  nsId :: session_id_t
  nsOpen :: bool
  nsAccepted :: bool
  nsFunConnect :: bool
  nsFunClose :: bool
  nsUserClose :: bool
  nsTimer :: bool

datatype main_task =
    MainAcceptInsert nat
  | MainConnect nat
  | MainConnectInsert nat
  | MainCloseCb nat session_id_t
  | MainRemove session_id_t

datatype net_task =
    NetAcceptInsert nat
  | NetConnectInsert nat
  | NetClose nat
  | NetErase session_id_t
  | NetSend nat
  | NetClear

datatype net_call = CallConnect | CallClose

record net_module =
  nmNextSessionId :: session_id_t
  nmObjects :: nat
  nmSession :: "nat \<Rightarrow> net_session"
  nmMapSession :: "session_id_t \<rightharpoonup> nat"
  nmMapNetLoop :: "nat \<Rightarrow> session_id_t \<rightharpoonup> nat"
  nmMainQueue :: "main_task list"
  nmNetQueue :: "nat \<Rightarrow> net_task list"
  nmAccepting :: "nat set"
  nmConnecting :: "nat set"
  nmRetrying :: "nat set"
  nmReading :: "nat set"
  nmWriting :: "nat set"
  nmCalls :: "(nat \<times> net_call \<times> session_id_t) list"

definition NetSession :: net_session where
  "NetSession = \<lparr>nsLoop = 0, nsId = 0, nsOpen = False, nsAccepted = False, nsFunConnect = False, nsFunClose = False,
     nsUserClose = False, nsTimer = False\<rparr>"

definition NetModule :: net_module where
  "NetModule = \<lparr>nmNextSessionId = 0, nmObjects = 0, nmSession = (\<lambda>_. NetSession), nmMapSession = Map.empty,
     nmMapNetLoop = (\<lambda>_. Map.empty), nmMainQueue = [], nmNetQueue = (\<lambda>_. []), nmAccepting = {}, nmConnecting = {},
     nmRetrying = {}, nmReading = {}, nmWriting = {}, nmCalls = []\<rparr>"

section \<open>Operations\<close>

definition post_main :: "main_task \<Rightarrow> net_module \<Rightarrow> net_module" where
  "post_main t s = s\<lparr>nmMainQueue := nmMainQueue s @ [t]\<rparr>"

definition post_net :: "nat \<Rightarrow> net_task \<Rightarrow> net_module \<Rightarrow> net_module" where
  "post_net l t s = s\<lparr>nmNetQueue := (nmNetQueue s)(l := nmNetQueue s l @ [t])\<rparr>"

definition set_session :: "nat \<Rightarrow> net_session \<Rightarrow> net_module \<Rightarrow> net_module" where
  "set_session p v s = s\<lparr>nmSession := (nmSession s)(p := v)\<rparr>"

definition CreateSessionId :: "net_module \<Rightarrow> session_id_t \<times> net_module" where
  "CreateSessionId s = (nmNextSessionId s + 1, s\<lparr>nmNextSessionId := nmNextSessionId s + 1\<rparr>)"

definition GetSessionInMainLoop :: "session_id_t \<Rightarrow> net_module \<Rightarrow> nat option" where
  "GetSessionInMainLoop sid s = nmMapSession s sid"

definition GetSessionInNetLoop :: "nat \<Rightarrow> session_id_t \<Rightarrow> net_module \<Rightarrow> nat option" where
  "GetSessionInNetLoop l sid s = nmMapNetLoop s l sid"

definition new_session :: "net_session \<Rightarrow> net_module \<Rightarrow> nat \<times> net_module" where
  "new_session v s = (nmObjects s, (set_session (nmObjects s) v s)\<lparr>nmObjects := nmObjects s + 1\<rparr>)"

text \<open>\<open>m_mapSession.emplace\<close> and \<open>t_mapSessionInNetLoop.emplace\<close> keep an existing entry.\<close>

definition emplace_main :: "session_id_t \<Rightarrow> nat \<Rightarrow> net_module \<Rightarrow> net_module" where
  "emplace_main sid p s =
     (if nmMapSession s sid = None then s\<lparr>nmMapSession := (nmMapSession s)(sid \<mapsto> p)\<rparr> else s)"

definition emplace_net :: "nat \<Rightarrow> session_id_t \<Rightarrow> nat \<Rightarrow> net_module \<Rightarrow> net_module" where
  "emplace_net l sid p s =
     (if nmMapNetLoop s l sid = None
      then s\<lparr>nmMapNetLoop := (nmMapNetLoop s)(l := (nmMapNetLoop s l)(sid \<mapsto> p))\<rparr> else s)"

definition DoSessionAsyncClose :: "nat \<Rightarrow> net_module \<Rightarrow> net_module" where
  "DoSessionAsyncClose p s = post_net (nsLoop (nmSession s p)) (NetClose p) s"

definition RemoveMapSession :: "session_id_t \<Rightarrow> net_module \<Rightarrow> net_module" where
  "RemoveMapSession sid s = post_main (MainRemove sid) s"

definition DoSessionCloseInNetLoop :: "nat \<Rightarrow> net_module \<Rightarrow> net_module" where
  "DoSessionCloseInNetLoop p s =
     (let v = nmSession s p;
          s = set_session p (v\<lparr>nsOpen := False, nsFunClose := False\<rparr>) s;
          s = (if nsFunClose v then post_main (MainCloseCb p (nsId v)) s else s)
      in RemoveMapSession (nsId v) s)"

definition DoTimerSessionReadTimeout :: "nat \<Rightarrow> session_id_t \<Rightarrow> net_module \<Rightarrow> net_module" where
  "DoTimerSessionReadTimeout l sid s =
     (case GetSessionInNetLoop l sid s of None \<Rightarrow> s | Some p \<Rightarrow> DoSessionAsyncClose p s)"

definition OnReadSession :: "nat \<Rightarrow> bool \<Rightarrow> net_module \<Rightarrow> net_module" where
  "OnReadSession p ok s =
     (let v = nmSession s p
      in case GetSessionInNetLoop (nsLoop v) (nsId v) s of
           None \<Rightarrow> s
         | Some q \<Rightarrow>
             let s = (if \<not> ok then DoSessionAsyncClose q s else s)
             in set_session q ((nmSession s q)\<lparr>nsTimer := True\<rparr>) s)"

text \<open>
  A completed read: the read function of an accepted session is \<open>OnReadSession\<close>, that of an opened
  one the caller's, whose result false closes the session (\<open>HandleSessionRead\<close>); then the next read
  starts. A failed read closes.
\<close>

definition SessionReadDone :: "nat \<Rightarrow> bool \<Rightarrow> bool \<Rightarrow> net_module \<Rightarrow> net_module" where
  "SessionReadDone p ec ok s =
     (if p \<notin> nmReading s then s
      else if ec then DoSessionAsyncClose p (s\<lparr>nmReading := nmReading s - {p}\<rparr>)
      else if nsAccepted (nmSession s p) then OnReadSession p ok s
      else if ok then s else DoSessionAsyncClose p s)"

text \<open>
  Sending on a session: the sender looks the session up on the main loop and posts the write to the
  session's loop; a write that ends with bytes left starts the next one, one that fails closes.
\<close>

definition SessionSend :: "session_id_t \<Rightarrow> net_module \<Rightarrow> net_module" where
  "SessionSend sid s =
     (case GetSessionInMainLoop sid s of None \<Rightarrow> s | Some p \<Rightarrow> post_net (nsLoop (nmSession s p)) (NetSend p) s)"

definition SessionWriteDone :: "nat \<Rightarrow> bool \<Rightarrow> bool \<Rightarrow> net_module \<Rightarrow> net_module" where
  "SessionWriteDone p ec left s =
     (if p \<notin> nmWriting s then s
      else if ec then DoSessionAsyncClose p (s\<lparr>nmWriting := nmWriting s - {p}\<rparr>)
      else if left then s else s\<lparr>nmWriting := nmWriting s - {p}\<rparr>)"

definition Accept :: "nat \<Rightarrow> net_module \<Rightarrow> net_module" where
  "Accept loops s =
     (case CreateSessionId s of (sid, s) \<Rightarrow>
        case new_session (NetSession\<lparr>nsLoop := nat sid mod loops, nsId := sid, nsAccepted := True\<rparr>) s of
          (p, s) \<Rightarrow> s\<lparr>nmAccepting := insert p (nmAccepting s)\<rparr>)"

definition AcceptDone :: "nat \<Rightarrow> nat \<Rightarrow> bool \<Rightarrow> net_module \<Rightarrow> net_module" where
  "AcceptDone loops p ec s =
     (if p \<notin> nmAccepting s then s
      else let s = s\<lparr>nmAccepting := nmAccepting s - {p}\<rparr>;
               s = (if \<not> ec then post_net (nsLoop (nmSession s p)) (NetAcceptInsert p)
                                   (set_session p ((nmSession s p)\<lparr>nsOpen := True\<rparr>) s)
                    else s)
           in Accept loops s)"

definition Connect :: "nat \<Rightarrow> bool \<Rightarrow> bool \<Rightarrow> net_module \<Rightarrow> net_module" where
  "Connect l hasConnectCb hasCloseCb s =
     (case new_session (NetSession\<lparr>nsLoop := l, nsFunConnect := hasConnectCb, nsFunClose := True, nsUserClose := hasCloseCb\<rparr>) s of
        (p, s) \<Rightarrow> post_main (MainConnect p) s)"

text \<open>
  A completed connect. The first attempt reports to the function \<open>Connect\<close> passed, which on failure
  starts a second attempt with no function to report to.
\<close>

definition SessionConnectDone :: "nat \<Rightarrow> bool \<Rightarrow> net_module \<Rightarrow> net_module" where
  "SessionConnectDone p ec s =
     (if p \<in> nmConnecting s then
        let s = s\<lparr>nmConnecting := nmConnecting s - {p}\<rparr>
        in if \<not> ec then
             (case CreateSessionId s of (sid, s) \<Rightarrow>
                let s = set_session p ((nmSession s p)\<lparr>nsId := sid, nsOpen := True\<rparr>) s;
                    s = post_net (nsLoop (nmSession s p)) (NetConnectInsert p) s
                in s\<lparr>nmReading := insert p (nmReading s)\<rparr>)
           else s\<lparr>nmRetrying := insert p (nmRetrying s)\<rparr>
      else if p \<in> nmRetrying s then
        let s = s\<lparr>nmRetrying := nmRetrying s - {p}\<rparr>
        in if \<not> ec then (set_session p ((nmSession s p)\<lparr>nsOpen := True\<rparr>) s)\<lparr>nmReading := insert p (nmReading s)\<rparr>
           else s
      else s)"

definition CloseInMainLoop :: "session_id_t \<Rightarrow> net_module \<Rightarrow> net_module" where
  "CloseInMainLoop sid s = (case nmMapSession s sid of None \<Rightarrow> s | Some p \<Rightarrow> DoSessionAsyncClose p s)"

definition TimerDone :: "nat \<Rightarrow> net_module \<Rightarrow> net_module" where
  "TimerDone p s =
     (let v = nmSession s p
      in if nsTimer v then DoTimerSessionReadTimeout (nsLoop v) (nsId v) (set_session p (v\<lparr>nsTimer := False\<rparr>) s) else s)"

section \<open>What the posted functions do\<close>

fun run_main :: "main_task \<Rightarrow> net_module \<Rightarrow> net_module" where
  "run_main (MainAcceptInsert p) s =
     (let s = emplace_main (nsId (nmSession s p)) p s in s\<lparr>nmReading := insert p (nmReading s)\<rparr>)"
| "run_main (MainConnect p) s = s\<lparr>nmConnecting := insert p (nmConnecting s)\<rparr>"
| "run_main (MainConnectInsert p) s =
     (let v = nmSession s p; s = emplace_main (nsId v) p s
      in if nsFunConnect v then s\<lparr>nmCalls := nmCalls s @ [(p, CallConnect, nsId v)]\<rparr> else s)"
| "run_main (MainCloseCb p sid) s =
     (let s = (if nsUserClose (nmSession s p) then s\<lparr>nmCalls := nmCalls s @ [(p, CallClose, sid)]\<rparr> else s)
      in case GetSessionInMainLoop sid s of
           None \<Rightarrow> s
         | Some q \<Rightarrow> (post_net (nsLoop (nmSession s q)) (NetErase sid) s)\<lparr>nmMapSession := (nmMapSession s)(sid := None)\<rparr>)"
| "run_main (MainRemove sid) s =
     (case GetSessionInMainLoop sid s of
        None \<Rightarrow> s
      | Some q \<Rightarrow> post_net (nsLoop (nmSession s q)) (NetErase sid) (s\<lparr>nmMapSession := (nmMapSession s)(sid := None)\<rparr>))"

fun run_net :: "nat \<Rightarrow> net_task \<Rightarrow> net_module \<Rightarrow> net_module" where
  "run_net l (NetAcceptInsert p) s =
     (let s = emplace_net l (nsId (nmSession s p)) p s;
          s = set_session p ((nmSession s p)\<lparr>nsTimer := True\<rparr>) s
      in post_main (MainAcceptInsert p) s)"
| "run_net l (NetConnectInsert p) s = post_main (MainConnectInsert p) (emplace_net l (nsId (nmSession s p)) p s)"
| "run_net l (NetClose p) s = DoSessionCloseInNetLoop p s"
| "run_net l (NetErase sid) s = s\<lparr>nmMapNetLoop := (nmMapNetLoop s)(l := (nmMapNetLoop s l)(sid := None))\<rparr>"
| "run_net l (NetSend p) s = s\<lparr>nmWriting := insert p (nmWriting s)\<rparr>"
| "run_net l NetClear s = s\<lparr>nmMapNetLoop := (nmMapNetLoop s)(l := Map.empty)\<rparr>"

text \<open>
  \<open>OnStop\<close> closes every session of the main map, in its unspecified order, the argument \<open>ps\<close>, and
  has the loops \<open>ls\<close> of the acceptors clear their maps. Stopping the loops is in \<open>Loop_Pool\<close>.
\<close>

definition Net_OnStop :: "nat list \<Rightarrow> nat list \<Rightarrow> net_module \<Rightarrow> net_module" where
  "Net_OnStop ps ls s = fold (\<lambda>l. post_net l NetClear) ls (fold DoSessionAsyncClose ps s)"

section \<open>Steps\<close>

inductive net_step :: "nat \<Rightarrow> net_module \<Rightarrow> net_module \<Rightarrow> bool" for loops where
  main: "nmMainQueue s = t # q \<Longrightarrow> net_step loops s (run_main t (s\<lparr>nmMainQueue := q\<rparr>))"
| net: "nmNetQueue s l = t # q \<Longrightarrow> net_step loops s (run_net l t (s\<lparr>nmNetQueue := (nmNetQueue s)(l := q)\<rparr>))"
| listen: "net_step loops s (Accept loops s)"
| accepted: "net_step loops s (AcceptDone loops p ec s)"
| connect: "net_step loops s (Connect l a b s)"
| connected: "net_step loops s (SessionConnectDone p ec s)"
| read: "net_step loops s (SessionReadDone p ec ok s)"
| send: "net_step loops s (SessionSend sid s)"
| written: "net_step loops s (SessionWriteDone p ec left s)"
| close: "net_step loops s (CloseInMainLoop sid s)"
| timer: "net_step loops s (TimerDone p s)"
| stop: "set ps = ran (nmMapSession s) \<Longrightarrow> net_step loops s (Net_OnStop ps ls s)"

section \<open>The life of one session\<close>

text \<open>
  What the state holds of one session object: its fields, the calls made for it, the functions
  posted for it in order, and the socket operations under way. The step relation on these views is
  the specification of a session's life; every step of the module is such a step or none for each
  session.
\<close>

fun main_refs :: "nat \<Rightarrow> main_task \<Rightarrow> bool" where
  "main_refs p (MainAcceptInsert q) = (q = p)"
| "main_refs p (MainConnect q) = (q = p)"
| "main_refs p (MainConnectInsert q) = (q = p)"
| "main_refs p (MainCloseCb q _) = (q = p)"
| "main_refs p (MainRemove _) = False"

fun net_refs :: "nat \<Rightarrow> net_task \<Rightarrow> bool" where
  "net_refs p (NetAcceptInsert q) = (q = p)"
| "net_refs p (NetConnectInsert q) = (q = p)"
| "net_refs p (NetClose q) = (q = p)"
| "net_refs p (NetErase _) = False"
| "net_refs p (NetSend q) = (q = p)"
| "net_refs p NetClear = False"

record session_view =
  pvNew :: bool
  pvSess :: net_session
  pvCalls :: "net_call list"
  pvMain :: "main_task list"
  pvNet :: "net_task list"
  pvAccepting :: bool
  pvConnecting :: bool
  pvRetrying :: bool
  pvLive :: bool

definition calls_of :: "nat \<Rightarrow> net_module \<Rightarrow> net_call list" where
  "calls_of p s = map (fst \<circ> snd) (filter (\<lambda>c. fst c = p) (nmCalls s))"

definition view :: "nat \<Rightarrow> net_module \<Rightarrow> session_view" where
  "view p s =
     \<lparr>pvNew = (nmObjects s \<le> p), pvSess = nmSession s p, pvCalls = calls_of p s,
      pvMain = filter (main_refs p) (nmMainQueue s), pvNet = filter (net_refs p) (nmNetQueue s (nsLoop (nmSession s p))),
      pvAccepting = (p \<in> nmAccepting s), pvConnecting = (p \<in> nmConnecting s), pvRetrying = (p \<in> nmRetrying s),
      pvLive = (p \<in> nmReading s \<union> nmWriting s \<union> ran (nmMapSession s) \<union> (\<Union>l. ran (nmMapNetLoop s l)))\<rparr>"

inductive view_step :: "nat \<Rightarrow> session_view \<Rightarrow> session_view \<Rightarrow> bool" for p where
  unmap: "b \<longrightarrow> pvLive v \<Longrightarrow> view_step p v (v\<lparr>pvLive := b\<rparr>)"
| field: "view_step p v (v\<lparr>pvSess := (pvSess v)\<lparr>nsTimer := t\<rparr>\<rparr>)"
| create_accept: "pvNew v \<Longrightarrow> nsFunConnect z = False \<Longrightarrow> nsUserClose z = False \<Longrightarrow> nsId z \<noteq> 0 \<Longrightarrow>
    view_step p v (v\<lparr>pvNew := False, pvSess := z, pvAccepting := True\<rparr>)"
| create_connect: "pvNew v \<Longrightarrow> nsFunClose z \<Longrightarrow> nsId z = 0 \<Longrightarrow>
    view_step p v (v\<lparr>pvNew := False, pvSess := z, pvMain := pvMain v @ [MainConnect p]\<rparr>)"
| accept_fail: "view_step p v (v\<lparr>pvAccepting := False\<rparr>)"
| accept_done: "pvAccepting v \<Longrightarrow>
    view_step p v (v\<lparr>pvAccepting := False, pvSess := (pvSess v)\<lparr>nsOpen := True\<rparr>, pvNet := pvNet v @ [NetAcceptInsert p]\<rparr>)"
| start: "pvMain v = MainConnect p # m \<Longrightarrow> view_step p v (v\<lparr>pvMain := m, pvConnecting := True\<rparr>)"
| connected: "pvConnecting v \<Longrightarrow> sid \<noteq> 0 \<Longrightarrow>
    view_step p v (v\<lparr>pvConnecting := False, pvSess := (pvSess v)\<lparr>nsId := sid, nsOpen := True\<rparr>,
      pvNet := pvNet v @ [NetConnectInsert p], pvLive := True\<rparr>)"
| failed: "pvConnecting v \<Longrightarrow> view_step p v (v\<lparr>pvConnecting := False, pvRetrying := True\<rparr>)"
| retry_done: "pvRetrying v \<Longrightarrow>
    view_step p v (v\<lparr>pvRetrying := False, pvSess := (pvSess v)\<lparr>nsOpen := True\<rparr>, pvLive := True\<rparr>)"
| retry_failed: "view_step p v (v\<lparr>pvRetrying := False\<rparr>)"
| ask_close: "pvLive v \<Longrightarrow> view_step p v (v\<lparr>pvNet := pvNet v @ [NetClose p]\<rparr>)"
| ask_send: "pvLive v \<Longrightarrow> view_step p v (v\<lparr>pvNet := pvNet v @ [NetSend p]\<rparr>)"
| net_send: "pvNet v = NetSend p # n \<Longrightarrow> view_step p v (v\<lparr>pvNet := n, pvLive := True\<rparr>)"
| net_accept: "pvNet v = NetAcceptInsert p # n \<Longrightarrow>
    view_step p v (v\<lparr>pvNet := n, pvSess := (pvSess v)\<lparr>nsTimer := True\<rparr>, pvLive := b, pvMain := pvMain v @ [MainAcceptInsert p]\<rparr>)"
| net_connect: "pvNet v = NetConnectInsert p # n \<Longrightarrow>
    view_step p v (v\<lparr>pvNet := n, pvLive := b, pvMain := pvMain v @ [MainConnectInsert p]\<rparr>)"
| net_close: "pvNet v = NetClose p # n \<Longrightarrow>
    view_step p v (v\<lparr>pvNet := n, pvSess := (pvSess v)\<lparr>nsOpen := False, nsFunClose := False\<rparr>,
      pvMain := pvMain v @ (if nsFunClose (pvSess v) then [MainCloseCb p (nsId (pvSess v))] else [])\<rparr>)"
| main_accept: "pvMain v = MainAcceptInsert p # m \<Longrightarrow> view_step p v (v\<lparr>pvMain := m, pvLive := True\<rparr>)"
| main_connect: "pvMain v = MainConnectInsert p # m \<Longrightarrow>
    view_step p v (v\<lparr>pvMain := m, pvLive := b,
      pvCalls := pvCalls v @ (if nsFunConnect (pvSess v) then [CallConnect] else [])\<rparr>)"
| main_close: "pvMain v = MainCloseCb p sid # m \<Longrightarrow>
    view_step p v (v\<lparr>pvMain := m, pvCalls := pvCalls v @ (if nsUserClose (pvSess v) then [CallClose] else [])\<rparr>)"

section \<open>What a session's life keeps\<close>

fun main_token :: "net_session \<Rightarrow> main_task \<Rightarrow> net_call list" where
  "main_token z (MainConnectInsert _) = (if nsFunConnect z then [CallConnect] else [])"
| "main_token z (MainCloseCb _ _) = (if nsUserClose z then [CallClose] else [])"
| "main_token z _ = []"

fun net_token :: "net_session \<Rightarrow> net_task \<Rightarrow> net_call list" where
  "net_token z (NetConnectInsert _) = (if nsFunConnect z then [CallConnect] else [])"
| "net_token z (NetClose _) = [CallClose]"
| "net_token z _ = []"

text \<open>The calls made or bound to be made, and the requests still in the network loop.\<close>

definition bound :: "session_view \<Rightarrow> net_call list" where
  "bound v = pvCalls v @ concat (map (main_token (pvSess v)) (pvMain v))"

definition asked :: "session_view \<Rightarrow> net_call list" where
  "asked v = concat (map (net_token (pvSess v)) (pvNet v))"

definition idle :: "session_view \<Rightarrow> bool" where
  "idle v \<longleftrightarrow> pvCalls v = [] \<and> pvNet v = [] \<and> \<not> pvLive v"

definition connected_tokens :: "session_view \<Rightarrow> bool" where
  "connected_tokens v \<longleftrightarrow>
     (if nsId (pvSess v) = 0 \<or> \<not> nsFunConnect (pvSess v) then CallConnect \<notin> set (bound v @ asked v)
      else \<exists>r. bound v @ asked v = CallConnect # r \<and> CallConnect \<notin> set r)"

definition view_ok :: "nat \<Rightarrow> session_view \<Rightarrow> bool" where
  "view_ok p v \<longleftrightarrow>
     (pvNew v \<longrightarrow> idle v \<and> pvMain v = [] \<and> \<not> pvAccepting v \<and> \<not> pvConnecting v \<and> \<not> pvRetrying v) \<and>
     (pvAccepting v \<longrightarrow> idle v \<and> pvMain v = [] \<and> \<not> pvConnecting v \<and> \<not> pvRetrying v) \<and>
     (pvConnecting v \<longrightarrow> idle v \<and> pvMain v = [] \<and> \<not> pvRetrying v) \<and>
     (pvRetrying v \<longrightarrow> idle v \<and> pvMain v = []) \<and>
     (MainConnect p \<in> set (pvMain v) \<longrightarrow> idle v \<and> pvMain v = [MainConnect p]) \<and>
     (pvConnecting v \<or> pvRetrying v \<or> MainConnect p \<in> set (pvMain v) \<longrightarrow> nsId (pvSess v) = 0 \<and> nsFunClose (pvSess v)) \<and>
     (\<not> pvNew v \<longrightarrow>
       filter (\<lambda>c. c = CallClose) (bound v) = (if nsFunClose (pvSess v) \<or> \<not> nsUserClose (pvSess v) then [] else [CallClose]) \<and>
       connected_tokens v)"

lemma token_cong [simp]:
  "main_token (z\<lparr>nsTimer := t\<rparr>) = main_token z" "net_token (z\<lparr>nsTimer := t\<rparr>) = net_token z"
  "main_token (z\<lparr>nsOpen := t\<rparr>) = main_token z" "net_token (z\<lparr>nsOpen := t\<rparr>) = net_token z"
  "main_token (z\<lparr>nsFunClose := t\<rparr>) = main_token z" "net_token (z\<lparr>nsFunClose := t\<rparr>) = net_token z"
  "main_token (z\<lparr>nsId := i\<rparr>) = main_token z" "net_token (z\<lparr>nsId := i\<rparr>) = net_token z"
proof -
  show "main_token (z\<lparr>nsTimer := t\<rparr>) = main_token z" by (rule ext) (rename_tac x, case_tac x, simp_all)
  show "net_token (z\<lparr>nsTimer := t\<rparr>) = net_token z" by (rule ext) (rename_tac x, case_tac x, simp_all)
  show "main_token (z\<lparr>nsOpen := t\<rparr>) = main_token z" by (rule ext) (rename_tac x, case_tac x, simp_all)
  show "net_token (z\<lparr>nsOpen := t\<rparr>) = net_token z" by (rule ext) (rename_tac x, case_tac x, simp_all)
  show "main_token (z\<lparr>nsFunClose := t\<rparr>) = main_token z" by (rule ext) (rename_tac x, case_tac x, simp_all)
  show "net_token (z\<lparr>nsFunClose := t\<rparr>) = net_token z" by (rule ext) (rename_tac x, case_tac x, simp_all)
  show "main_token (z\<lparr>nsId := i\<rparr>) = main_token z" by (rule ext) (rename_tac x, case_tac x, simp_all)
  show "net_token (z\<lparr>nsId := i\<rparr>) = net_token z" by (rule ext) (rename_tac x, case_tac x, simp_all)
qed

lemma connected_tokens_cong:
  "bound v' @ asked v' = bound v @ asked v \<Longrightarrow> nsId (pvSess v') = nsId (pvSess v) \<Longrightarrow>
   nsFunConnect (pvSess v') = nsFunConnect (pvSess v) \<Longrightarrow> connected_tokens v' = connected_tokens v"
  by (simp only: connected_tokens_def)

lemma connected_tokens_close:
  assumes "connected_tokens v" "bound v' = bound v" "asked v' = asked v @ [CallClose]" "nsId (pvSess v') = nsId (pvSess v)"
    and "nsFunConnect (pvSess v') = nsFunConnect (pvSess v)"
  shows "connected_tokens v'"
proof -
  have "\<exists>r'. xs @ [CallClose] = CallConnect # r' \<and> CallConnect \<notin> set r'" if "\<exists>r. xs = CallConnect # r \<and> CallConnect \<notin> set r" for xs
    using that by auto
  from this [of "bound v @ asked v"] show ?thesis using assms by (simp add: connected_tokens_def split: if_splits)
qed

lemma view_ok_busyI:
  assumes "\<not> pvNew v" "\<not> pvAccepting v" "\<not> pvConnecting v" "\<not> pvRetrying v" "MainConnect p \<notin> set (pvMain v)"
    and "filter (\<lambda>c. c = CallClose) (bound v) = (if nsFunClose (pvSess v) \<or> \<not> nsUserClose (pvSess v) then [] else [CallClose])"
    and "connected_tokens v"
  shows "view_ok p v"
  using assms by (simp add: view_ok_def)

lemma view_ok_busyD:
  assumes "view_ok p v" "\<not> (pvCalls v = [] \<and> pvNet v = [] \<and> \<not> pvLive v) \<or> (pvMain v \<noteq> [] \<and> MainConnect p \<notin> set (pvMain v))"
  shows "\<not> pvNew v \<and> \<not> pvAccepting v \<and> \<not> pvConnecting v \<and> \<not> pvRetrying v \<and> MainConnect p \<notin> set (pvMain v)"
    and "filter (\<lambda>c. c = CallClose) (bound v) = (if nsFunClose (pvSess v) \<or> \<not> nsUserClose (pvSess v) then [] else [CallClose])"
    and "connected_tokens v"
proof -
  have "\<not> idle v \<or> (pvMain v \<noteq> [] \<and> MainConnect p \<notin> set (pvMain v))" using assms(2) by (simp add: idle_def)
  then show "\<not> pvNew v \<and> \<not> pvAccepting v \<and> \<not> pvConnecting v \<and> \<not> pvRetrying v \<and> MainConnect p \<notin> set (pvMain v)"
    using assms(1) unfolding view_ok_def by blast
  then show "filter (\<lambda>c. c = CallClose) (bound v) = (if nsFunClose (pvSess v) \<or> \<not> nsUserClose (pvSess v) then [] else [CallClose])"
    "connected_tokens v" using assms(1) unfolding view_ok_def by blast+
qed

lemma view_ok_moved:
  assumes "view_ok p v" "\<not> (pvCalls v = [] \<and> pvNet v = [] \<and> \<not> pvLive v) \<or> (pvMain v \<noteq> [] \<and> MainConnect p \<notin> set (pvMain v))"
    and "pvNew v' = pvNew v" "pvAccepting v' = pvAccepting v" "pvConnecting v' = pvConnecting v" "pvRetrying v' = pvRetrying v"
    and "MainConnect p \<in> set (pvMain v') \<longrightarrow> MainConnect p \<in> set (pvMain v)"
    and "bound v' @ asked v' = bound v @ asked v"
    and "filter (\<lambda>c. c = CallClose) (bound v') = filter (\<lambda>c. c = CallClose) (bound v)"
    and "nsFunClose (pvSess v') = nsFunClose (pvSess v)" "nsUserClose (pvSess v') = nsUserClose (pvSess v)"
    and "nsId (pvSess v') = nsId (pvSess v)" "nsFunConnect (pvSess v') = nsFunConnect (pvSess v)"
  shows "view_ok p v'"
proof (rule view_ok_busyI)
  note b = view_ok_busyD [OF assms(1,2)]
  show "connected_tokens v'" using b(3) connected_tokens_cong [OF assms(8) assms(12,13)] by simp
qed (use view_ok_busyD [OF assms(1,2)] assms(3-13) in auto)

lemma view_ok_keep:
  assumes "view_ok p v" "pvNew v' = pvNew v" "idle v \<longrightarrow> idle v'" "pvMain v' = pvMain v" "pvAccepting v' \<longrightarrow> pvAccepting v"
    and "pvConnecting v' = pvConnecting v" "pvRetrying v' \<longrightarrow> pvRetrying v" "bound v' = bound v" "asked v' = asked v"
    and "nsFunClose (pvSess v') = nsFunClose (pvSess v)" "nsUserClose (pvSess v') = nsUserClose (pvSess v)"
    and "nsId (pvSess v') = nsId (pvSess v)" "nsFunConnect (pvSess v') = nsFunConnect (pvSess v)"
  shows "view_ok p v'"
proof -
  have "connected_tokens v' = connected_tokens v" using assms by (intro connected_tokens_cong) simp_all
  then show ?thesis using assms unfolding view_ok_def by metis
qed

lemma connect_drop:
  assumes "\<exists>r. xs @ CallClose # ys = CallConnect # r \<and> CallConnect \<notin> set r"
  shows "\<exists>r. xs @ ys = CallConnect # r \<and> CallConnect \<notin> set r"
  using assms by (cases xs) auto

lemma view_step_ok:
  assumes "view_step p v v'" "view_ok p v"
  shows "view_ok p v'"
  using assms
proof (induction rule: view_step.induct)
  case (unmap b v)
  then show ?case by (intro view_ok_keep [OF unmap(2)]) (auto simp: idle_def bound_def asked_def)
next
  case (field v t)
  then show ?case by (intro view_ok_keep [OF field]) (simp_all add: idle_def bound_def asked_def)
next
  case (create_accept v z)
  then have "pvMain v = []" "pvNet v = []" "pvCalls v = []" "\<not> pvLive v" "\<not> pvConnecting v" "\<not> pvRetrying v"
    by (simp_all add: view_ok_def idle_def)
  then show ?case using create_accept(2-4) by (simp add: view_ok_def idle_def bound_def asked_def connected_tokens_def)
next
  case (create_connect v z)
  then have "pvMain v = []" "pvNet v = []" "pvCalls v = []" "\<not> pvLive v" "\<not> pvConnecting v" "\<not> pvRetrying v" "\<not> pvAccepting v"
    by (simp_all add: view_ok_def idle_def)
  then show ?case using create_connect(2-3) by (simp add: view_ok_def idle_def bound_def asked_def connected_tokens_def)
next
  case (accept_fail v)
  then show ?case by (intro view_ok_keep [OF accept_fail]) (simp_all add: idle_def bound_def asked_def)
next
  case (accept_done v)
  then have "pvMain v = []" "pvNet v = []" "pvCalls v = []" "\<not> pvLive v" "\<not> pvConnecting v" "\<not> pvRetrying v" "\<not> pvNew v"
    by (auto simp: view_ok_def idle_def)
  with accept_done show ?case
    by (intro view_ok_busyI) (simp_all add: view_ok_def idle_def bound_def asked_def connected_tokens_def split: if_splits)
next
  case (start v m)
  then have "m = []" "pvNet v = []" "pvCalls v = []" "\<not> pvLive v" "\<not> pvConnecting v" "\<not> pvRetrying v" "\<not> pvNew v" "\<not> pvAccepting v"
    "nsId (pvSess v) = 0" "nsFunClose (pvSess v)"
    by (auto simp: view_ok_def idle_def)
  then show ?case by (simp add: view_ok_def idle_def bound_def asked_def connected_tokens_def)
next
  case (connected v sid)
  then have "pvMain v = []" "pvNet v = []" "pvCalls v = []" "\<not> pvRetrying v" "\<not> pvNew v" "\<not> pvAccepting v"
    "nsId (pvSess v) = 0" "nsFunClose (pvSess v)"
    by (auto simp: view_ok_def idle_def)
  with connected(2) show ?case by (simp add: view_ok_def idle_def bound_def asked_def connected_tokens_def)
next
  case (failed v)
  then have "pvMain v = []" "pvNet v = []" "pvCalls v = []" "\<not> pvLive v" "\<not> pvNew v" "\<not> pvAccepting v"
    "nsId (pvSess v) = 0" "nsFunClose (pvSess v)"
    by (auto simp: view_ok_def idle_def)
  then show ?case by (simp add: view_ok_def idle_def bound_def asked_def connected_tokens_def)
next
  case (retry_done v)
  then have "pvMain v = []" "pvNet v = []" "pvCalls v = []" "\<not> pvNew v" "\<not> pvAccepting v" "\<not> pvConnecting v"
    "nsId (pvSess v) = 0" "nsFunClose (pvSess v)"
    by (auto simp: view_ok_def idle_def)
  then show ?case by (simp add: view_ok_def idle_def bound_def asked_def connected_tokens_def)
next
  case (retry_failed v)
  then show ?case by (intro view_ok_keep [OF retry_failed]) (simp_all add: idle_def bound_def asked_def)
next
  case (ask_close v)
  note b = view_ok_busyD [OF ask_close(2) disjI1]
  have "connected_tokens (v\<lparr>pvNet := pvNet v @ [NetClose p]\<rparr>)"
    by (rule connected_tokens_close [OF b(3)]) (use ask_close(1) in \<open>simp_all add: bound_def asked_def\<close>)
  then show ?case using ask_close(1) b by (intro view_ok_busyI) (simp_all add: bound_def)
next
  case (ask_send v)
  then show ?case by (intro view_ok_moved [OF ask_send(2)]) (simp_all add: bound_def asked_def)
next
  case (net_send v n)
  then show ?case by (intro view_ok_moved [OF net_send(2)]) (simp_all add: bound_def asked_def)
next
  case (net_accept v n b)
  then show ?case by (intro view_ok_moved [OF net_accept(2)]) (simp_all add: bound_def asked_def)
next
  case (net_connect v n b)
  then show ?case by (intro view_ok_moved [OF net_connect(2)]) (simp_all add: bound_def asked_def)
next
  case (net_close v n)
  note b = view_ok_busyD [OF net_close(2) disjI1]
  let ?v = "v\<lparr>pvNet := n, pvSess := (pvSess v)\<lparr>nsOpen := False, nsFunClose := False\<rparr>,
      pvMain := pvMain v @ (if nsFunClose (pvSess v) then [MainCloseCb p (nsId (pvSess v))] else [])\<rparr>"
  have "asked v = CallClose # asked ?v" using net_close(1) by (simp add: asked_def)
  moreover have "bound ?v = bound v @ (if nsFunClose (pvSess v) \<and> nsUserClose (pvSess v) then [CallClose] else [])"
    by (simp add: bound_def)
  ultimately have "connected_tokens ?v"
    using b(3) net_close(1) connect_drop [of "bound v" "asked ?v"] by (auto simp: connected_tokens_def split: if_splits)
  moreover have "filter (\<lambda>c. c = CallClose) (bound ?v) = (if \<not> nsUserClose (pvSess v) then [] else [CallClose])"
    using b(2) net_close(1) \<open>bound ?v = _\<close> by (simp split: if_splits)
  ultimately show ?case using b(1) net_close(1) by (intro view_ok_busyI) simp_all
next
  case (main_accept v m)
  then have "MainConnect p \<notin> set (pvMain v)" by (auto simp: view_ok_def)
  with main_accept show ?case by (intro view_ok_moved [OF main_accept(2)]) (simp_all add: bound_def asked_def)
next
  case (main_connect v m b)
  then have "MainConnect p \<notin> set (pvMain v)" by (auto simp: view_ok_def)
  with main_connect show ?case by (intro view_ok_moved [OF main_connect(2)]) (simp_all add: bound_def asked_def)
next
  case (main_close v sid m)
  then have "MainConnect p \<notin> set (pvMain v)" by (auto simp: view_ok_def)
  with main_close show ?case by (intro view_ok_moved [OF main_close(2)]) (simp_all add: bound_def asked_def)
qed

section \<open>Every step of the module is a step of each session's life\<close>

definition in_use :: "net_module \<Rightarrow> nat set" where
  "in_use s = nmReading s \<union> nmWriting s \<union> ran (nmMapSession s) \<union> (\<Union>l. ran (nmMapNetLoop s l))"

definition module_inv :: "net_module \<Rightarrow> bool" where
  "module_inv s \<longleftrightarrow> 0 \<le> nmNextSessionId s \<and>
     (\<forall>p\<in>in_use s \<union> nmAccepting s \<union> nmConnecting s \<union> nmRetrying s. p < nmObjects s) \<and>
     (\<forall>t\<in>set (nmMainQueue s). \<forall>p. main_refs p t \<longrightarrow> p < nmObjects s) \<and>
     (\<forall>l. \<forall>t\<in>set (nmNetQueue s l). \<forall>p. net_refs p t \<longrightarrow> p < nmObjects s \<and> nsLoop (nmSession s p) = l)"

definition follows :: "net_module \<Rightarrow> net_module \<Rightarrow> bool" where
  "follows s s' \<longleftrightarrow> module_inv s' \<and> (\<forall>p. (view_step p)\<^sup>*\<^sup>* (view p s) (view p s'))"

lemma follows_refl: "module_inv s \<Longrightarrow> follows s s"
  by (simp add: follows_def)

lemma follows_trans: "follows s s' \<Longrightarrow> follows s' s'' \<Longrightarrow> follows s s''"
  unfolding follows_def by (meson rtranclp_trans)

lemma followsI:
  assumes "module_inv s'" "view_step q (view q s) (view q s') \<or> view q s' = view q s" "\<And>p. p \<noteq> q \<Longrightarrow> view p s' = view p s"
  shows "follows s s'"
  unfolding follows_def
proof (intro conjI allI)
  fix p
  show "(view_step p)\<^sup>*\<^sup>* (view p s) (view p s')"
    using assms(2,3) by (cases "p = q") auto
qed (rule assms(1))

lemma pvLive_view [simp]: "pvLive (view p s) \<longleftrightarrow> p \<in> in_use s"
  by (simp add: view_def in_use_def)

lemma follows_DoSessionAsyncClose:
  assumes "module_inv s" "q \<in> in_use s"
  shows "follows s (DoSessionAsyncClose q s)"
proof (rule followsI [of _ q])
  show "module_inv (DoSessionAsyncClose q s)"
    using assms by (auto simp: module_inv_def DoSessionAsyncClose_def post_net_def in_use_def)
  have "view q (DoSessionAsyncClose q s) = (view q s)\<lparr>pvNet := pvNet (view q s) @ [NetClose q]\<rparr>"
    by (simp add: view_def DoSessionAsyncClose_def post_net_def calls_of_def)
  then show "view_step q (view q s) (view q (DoSessionAsyncClose q s)) \<or> view q (DoSessionAsyncClose q s) = view q s"
    using assms(2) by (simp add: view_step.ask_close)
  show "view p (DoSessionAsyncClose q s) = view p s" if "p \<noteq> q" for p
    using that by (simp add: view_def DoSessionAsyncClose_def post_net_def calls_of_def)
qed

lemma follows_SessionSend:
  assumes "module_inv s"
  shows "follows s (SessionSend sid s)"
proof (cases "nmMapSession s sid")
  case None
  then show ?thesis using assms by (simp add: SessionSend_def GetSessionInMainLoop_def follows_refl)
next
  case (Some q)
  then have q: "q \<in> in_use s" by (auto simp: in_use_def ran_def)
  show ?thesis
  proof (rule followsI [of _ q])
    show "module_inv (SessionSend sid s)"
      using assms q Some by (auto simp: module_inv_def SessionSend_def GetSessionInMainLoop_def post_net_def in_use_def)
    have "view q (SessionSend sid s) = (view q s)\<lparr>pvNet := pvNet (view q s) @ [NetSend q]\<rparr>"
      using Some by (simp add: view_def SessionSend_def GetSessionInMainLoop_def post_net_def calls_of_def)
    then show "view_step q (view q s) (view q (SessionSend sid s)) \<or> view q (SessionSend sid s) = view q s"
      using q by (simp add: view_step.ask_send)
    show "view p (SessionSend sid s) = view p s" if "p \<noteq> q" for p
      using that Some by (simp add: view_def SessionSend_def GetSessionInMainLoop_def post_net_def calls_of_def)
  qed
qed

lemma follows_set_timer:
  assumes "module_inv s"
  shows "follows s (set_session q ((nmSession s q)\<lparr>nsTimer := t\<rparr>) s)"
proof (rule followsI [of _ q])
  let ?s = "set_session q ((nmSession s q)\<lparr>nsTimer := t\<rparr>) s"
  show "module_inv ?s" using assms by (auto simp: module_inv_def set_session_def in_use_def)
  have "view q ?s = (view q s)\<lparr>pvSess := (pvSess (view q s))\<lparr>nsTimer := t\<rparr>\<rparr>"
    by (simp add: view_def set_session_def calls_of_def)
  then show "view_step q (view q s) (view q ?s) \<or> view q ?s = view q s" by (metis view_step.field)
  show "view p ?s = view p s" if "p \<noteq> q" for p
    using that by (simp add: view_def set_session_def calls_of_def)
qed

lemma follows_CloseInMainLoop: "module_inv s \<Longrightarrow> follows s (CloseInMainLoop sid s)"
  by (auto simp: CloseInMainLoop_def in_use_def ran_def intro!: follows_refl follows_DoSessionAsyncClose split: option.splits)

lemma follows_OnReadSession:
  assumes "module_inv s"
  shows "follows s (OnReadSession p ok s)"
proof (cases "GetSessionInNetLoop (nsLoop (nmSession s p)) (nsId (nmSession s p)) s")
  case None
  then show ?thesis using assms by (simp add: OnReadSession_def follows_refl)
next
  case (Some q)
  then have q: "q \<in> in_use s" by (auto simp: in_use_def ran_def GetSessionInNetLoop_def)
  define s1 where "s1 = (if \<not> ok then DoSessionAsyncClose q s else s)"
  have "follows s s1" using assms q by (simp add: s1_def follows_refl follows_DoSessionAsyncClose)
  moreover from this have "follows s1 (set_session q ((nmSession s1 q)\<lparr>nsTimer := True\<rparr>) s1)"
    by (intro follows_set_timer) (simp add: follows_def)
  ultimately show ?thesis using Some by (auto simp: OnReadSession_def Let_def s1_def intro: follows_trans)
qed

text \<open>Operations that only let go of the session, of its read or of its map entries.\<close>

lemma follows_less:
  assumes "module_inv s" "module_inv s'" "in_use s' \<subseteq> in_use s"
    and "nmObjects s' = nmObjects s" "nmSession s' = nmSession s" "nmCalls s' = nmCalls s"
    and "\<And>p. filter (main_refs p) (nmMainQueue s') = filter (main_refs p) (nmMainQueue s)"
    and "\<And>p l. filter (net_refs p) (nmNetQueue s' l) = filter (net_refs p) (nmNetQueue s l)"
    and "nmAccepting s' = nmAccepting s" "nmConnecting s' = nmConnecting s" "nmRetrying s' = nmRetrying s"
  shows "follows s s'"
  unfolding follows_def
proof (intro conjI allI)
  fix p
  have "view p s' = (view p s)\<lparr>pvLive := p \<in> in_use s'\<rparr>" using assms(4-11) by (simp add: view_def calls_of_def in_use_def)
  moreover have "view_step p (view p s) ((view p s)\<lparr>pvLive := p \<in> in_use s'\<rparr>)"
    using assms(3) by (intro view_step.unmap) auto
  ultimately show "(view_step p)\<^sup>*\<^sup>* (view p s) (view p s')" by simp
qed (rule assms(2))

lemma follows_let_go:
  assumes "module_inv s"
  shows "follows s (s\<lparr>nmReading := nmReading s - A\<rparr>)" "follows s (s\<lparr>nmWriting := nmWriting s - A\<rparr>)"
  using assms by (intro follows_less; auto simp: module_inv_def in_use_def)+

lemma DoSessionAsyncClose_let_go:
  "DoSessionAsyncClose p (s\<lparr>nmReading := A\<rparr>) = (DoSessionAsyncClose p s)\<lparr>nmReading := A\<rparr>"
  "DoSessionAsyncClose p (s\<lparr>nmWriting := A\<rparr>) = (DoSessionAsyncClose p s)\<lparr>nmWriting := A\<rparr>"
  "nmReading (DoSessionAsyncClose p s) = nmReading s" "nmWriting (DoSessionAsyncClose p s) = nmWriting s"
  "in_use (DoSessionAsyncClose p s) = in_use s"
  by (simp_all add: DoSessionAsyncClose_def post_net_def in_use_def)

lemma follows_SessionReadDone:
  assumes "module_inv s"
  shows "follows s (SessionReadDone p ec ok s)"
proof (cases "p \<in> nmReading s")
  case True
  then have c: "follows s (DoSessionAsyncClose p s)"
    using assms by (intro follows_DoSessionAsyncClose) (simp_all add: in_use_def)
  then have "follows s (DoSessionAsyncClose p (s\<lparr>nmReading := nmReading s - {p}\<rparr>))"
    using follows_trans [OF c follows_let_go(1) [of _ "{p}"]] by (simp add: DoSessionAsyncClose_let_go follows_def)
  with c show ?thesis using True assms by (simp add: SessionReadDone_def follows_OnReadSession follows_refl)
qed (use assms in \<open>simp add: SessionReadDone_def follows_refl\<close>)

lemma follows_SessionWriteDone:
  assumes "module_inv s"
  shows "follows s (SessionWriteDone p ec left s)"
proof (cases "p \<in> nmWriting s")
  case True
  then have c: "follows s (DoSessionAsyncClose p s)"
    using assms by (intro follows_DoSessionAsyncClose) (simp_all add: in_use_def)
  then have "follows s (DoSessionAsyncClose p (s\<lparr>nmWriting := nmWriting s - {p}\<rparr>))"
    using follows_trans [OF c follows_let_go(2) [of _ "{p}"]] by (simp add: DoSessionAsyncClose_let_go follows_def)
  with c show ?thesis using True assms by (simp add: SessionWriteDone_def follows_let_go follows_refl)
qed (use assms in \<open>simp add: SessionWriteDone_def follows_refl\<close>)

lemma follows_TimerDone:
  assumes "module_inv s"
  shows "follows s (TimerDone p s)"
proof -
  let ?s = "set_session p ((nmSession s p)\<lparr>nsTimer := False\<rparr>) s"
  have t: "follows s ?s" by (rule follows_set_timer [OF assms])
  then have "follows ?s (DoSessionAsyncClose q ?s)" if "nmMapNetLoop s l i = Some q" for l i q
    using that by (intro follows_DoSessionAsyncClose) (auto simp: follows_def in_use_def ran_def set_session_def)
  with t show ?thesis using assms
    by (auto simp: TimerDone_def Let_def DoTimerSessionReadTimeout_def GetSessionInNetLoop_def set_session_def
        intro: follows_refl follows_trans split: option.splits)
qed

lemma follows_close_all:
  "module_inv s \<Longrightarrow> set ps \<subseteq> in_use s \<Longrightarrow> follows s (fold DoSessionAsyncClose ps s)"
proof (induction ps arbitrary: s)
  case (Cons p ps)
  then have "follows s (DoSessionAsyncClose p s)" by (intro follows_DoSessionAsyncClose) simp_all
  moreover from this Cons have "follows (DoSessionAsyncClose p s) (fold DoSessionAsyncClose ps (DoSessionAsyncClose p s))"
    by (intro Cons.IH) (simp_all add: follows_def DoSessionAsyncClose_let_go)
  ultimately show ?case by (auto intro: follows_trans)
qed (simp add: follows_refl)

lemma follows_clear_all: "module_inv s \<Longrightarrow> follows s (fold (\<lambda>l. post_net l NetClear) ls s)"
proof (induction ls arbitrary: s)
  case (Cons l ls)
  then have "follows s (post_net l NetClear s)"
    by (intro follows_less) (auto simp: post_net_def module_inv_def in_use_def)
  with Cons.IH [of "post_net l NetClear s"] show ?case by (auto simp: follows_def intro: rtranclp_trans)
qed (simp add: follows_refl)

lemma follows_Net_OnStop:
  assumes "module_inv s" "set ps = ran (nmMapSession s)"
  shows "follows s (Net_OnStop ps ls s)"
proof -
  have "follows s (fold DoSessionAsyncClose ps s)" using assms by (intro follows_close_all) (auto simp: in_use_def)
  then show ?thesis using follows_clear_all unfolding Net_OnStop_def by (meson follows_def follows_trans)
qed

text \<open>A new object is referred to nowhere yet.\<close>

lemma no_net_refs: "module_inv s \<Longrightarrow> t \<in> set (nmNetQueue s l) \<Longrightarrow> net_refs (nmObjects s) t = False"
  unfolding module_inv_def by (metis less_irrefl)

lemma no_refs:
  assumes "module_inv s"
  shows "filter (main_refs (nmObjects s)) (nmMainQueue s) = []" "filter (net_refs (nmObjects s)) (nmNetQueue s l) = []"
  using assms no_net_refs [OF assms] by (auto simp: module_inv_def filter_empty_conv)

lemma follows_Accept:
  assumes "module_inv s"
  shows "follows s (Accept loops s)"
proof (rule followsI [of _ "nmObjects s"])
  let ?q = "nmObjects s"
  let ?z = "NetSession\<lparr>nsLoop := nat (nmNextSessionId s + 1) mod loops, nsId := nmNextSessionId s + 1, nsAccepted := True\<rparr>"
  show "module_inv (Accept loops s)"
    using assms no_net_refs [OF assms] by (auto simp: module_inv_def Accept_def CreateSessionId_def new_session_def set_session_def in_use_def less_Suc_eq)
  have "view ?q (Accept loops s) = (view ?q s)\<lparr>pvNew := False, pvSess := ?z, pvAccepting := True\<rparr>"
    using no_refs [OF assms] by (simp add: view_def Accept_def CreateSessionId_def new_session_def set_session_def calls_of_def)
  moreover have "view_step ?q (view ?q s) ((view ?q s)\<lparr>pvNew := False, pvSess := ?z, pvAccepting := True\<rparr>)"
    using assms by (intro view_step.create_accept) (simp_all add: view_def NetSession_def module_inv_def)
  ultimately show "view_step ?q (view ?q s) (view ?q (Accept loops s)) \<or> view ?q (Accept loops s) = view ?q s" by simp
  show "view p (Accept loops s) = view p s" if "p \<noteq> ?q" for p
    using that by (auto simp: view_def Accept_def CreateSessionId_def new_session_def set_session_def calls_of_def)
qed

lemma follows_Connect:
  assumes "module_inv s"
  shows "follows s (Connect l a b s)"
proof (rule followsI [of _ "nmObjects s"])
  let ?q = "nmObjects s"
  let ?z = "NetSession\<lparr>nsLoop := l, nsFunConnect := a, nsFunClose := True, nsUserClose := b\<rparr>"
  show "module_inv (Connect l a b s)"
    using assms no_net_refs [OF assms] by (auto simp: module_inv_def Connect_def new_session_def set_session_def post_main_def in_use_def less_Suc_eq)
  have "view ?q (Connect l a b s) = (view ?q s)\<lparr>pvNew := False, pvSess := ?z, pvMain := pvMain (view ?q s) @ [MainConnect ?q]\<rparr>"
    using no_refs [OF assms] by (simp add: view_def Connect_def new_session_def set_session_def post_main_def calls_of_def)
  moreover have "view_step ?q (view ?q s) ((view ?q s)\<lparr>pvNew := False, pvSess := ?z, pvMain := pvMain (view ?q s) @ [MainConnect ?q]\<rparr>)"
    by (intro view_step.create_connect) (simp_all add: view_def NetSession_def)
  ultimately show "view_step ?q (view ?q s) (view ?q (Connect l a b s)) \<or> view ?q (Connect l a b s) = view ?q s" by simp
  show "view p (Connect l a b s) = view p s" if "p \<noteq> ?q" for p
    using that by (auto simp: view_def Connect_def new_session_def set_session_def post_main_def calls_of_def)
qed


lemma module_inv_post_net:
  assumes "module_inv s" "\<And>p. net_refs p t \<Longrightarrow> p < nmObjects s \<and> nsLoop (nmSession s p) = l"
  shows "module_inv (post_net l t s)"
  using assms by (auto simp: module_inv_def post_net_def in_use_def)

lemma module_inv_post_main:
  assumes "module_inv s" "\<And>p. main_refs p t \<Longrightarrow> p < nmObjects s"
  shows "module_inv (post_main t s)"
  using assms by (auto simp: module_inv_def post_main_def in_use_def)

lemma module_inv_set_session:
  assumes "module_inv s" "nsLoop z = nsLoop (nmSession s q)"
  shows "module_inv (set_session q z s)"
  using assms by (auto simp: module_inv_def set_session_def in_use_def)

lemma module_inv_pending:
  assumes "module_inv s"
  shows "module_inv (s\<lparr>nmAccepting := nmAccepting s - A\<rparr>)" "module_inv (s\<lparr>nmConnecting := nmConnecting s - A\<rparr>)"
    "module_inv (s\<lparr>nmRetrying := nmRetrying s - A\<rparr>)"
    "q < nmObjects s \<Longrightarrow> module_inv (s\<lparr>nmConnecting := insert q (nmConnecting s)\<rparr>)"
    "q < nmObjects s \<Longrightarrow> module_inv (s\<lparr>nmRetrying := insert q (nmRetrying s)\<rparr>)"
    "q < nmObjects s \<Longrightarrow> module_inv (s\<lparr>nmReading := insert q (nmReading s)\<rparr>)"
    "q < nmObjects s \<Longrightarrow> module_inv (s\<lparr>nmWriting := insert q (nmWriting s)\<rparr>)"
    "module_inv (s\<lparr>nmCalls := c\<rparr>)" "module_inv (s\<lparr>nmNextSessionId := nmNextSessionId s + 1\<rparr>)"
  using assms by (auto simp: module_inv_def in_use_def)

lemma post_set_sel [simp]:
  "nmSession (post_net l t s) = nmSession s" "nmObjects (post_net l t s) = nmObjects s"
  "nmSession (post_main m s) = nmSession s" "nmObjects (post_main m s) = nmObjects s"
  "nmSession (set_session q z s) = (nmSession s)(q := z)" "nmObjects (set_session q z s) = nmObjects s"
  "nmReading (post_net l t s) = nmReading s" "nmReading (set_session q z s) = nmReading s"
  by (simp_all add: post_net_def post_main_def set_session_def)

lemma in_use_objects: "module_inv s \<Longrightarrow> q \<in> in_use s \<union> nmAccepting s \<union> nmConnecting s \<union> nmRetrying s \<Longrightarrow> q < nmObjects s"
  unfolding module_inv_def by blast

lemma follows_AcceptDone:
  assumes "module_inv s"
  shows "follows s (AcceptDone loops q ec s)"
proof (cases "q \<in> nmAccepting s")
  case True
  define s1 where "s1 = (let s = s\<lparr>nmAccepting := nmAccepting s - {q}\<rparr>
     in if \<not> ec then post_net (nsLoop (nmSession s q)) (NetAcceptInsert q) (set_session q ((nmSession s q)\<lparr>nsOpen := True\<rparr>) s) else s)"
  have "follows s s1"
  proof (rule followsI [of _ q])
    have "q < nmObjects s" using assms True by (intro in_use_objects) simp_all
    then show "module_inv s1" using module_inv_pending(1) [OF assms, of "{q}"]
      by (auto simp: s1_def Let_def intro!: module_inv_post_net module_inv_set_session)
    have "view q s1 = (if ec then (view q s)\<lparr>pvAccepting := False\<rparr>
        else (view q s)\<lparr>pvAccepting := False, pvSess := (pvSess (view q s))\<lparr>nsOpen := True\<rparr>, pvNet := pvNet (view q s) @ [NetAcceptInsert q]\<rparr>)"
      by (simp add: view_def s1_def Let_def post_net_def set_session_def calls_of_def)
    then show "view_step q (view q s) (view q s1) \<or> view q s1 = view q s"
      using view_step.accept_fail [of q "view q s"] view_step.accept_done [of "view q s" q] True by (simp add: view_def)
    show "view p s1 = view p s" if "p \<noteq> q" for p
      using that by (auto simp: view_def s1_def Let_def post_net_def set_session_def calls_of_def)
  qed
  moreover from this have "follows s1 (Accept loops s1)" by (intro follows_Accept) (simp add: follows_def)
  ultimately have "follows s (Accept loops s1)" by (rule follows_trans)
  then show ?thesis using True by (simp add: AcceptDone_def Let_def s1_def)
qed (use assms in \<open>simp add: AcceptDone_def follows_refl\<close>)

lemma follows_SessionConnectDone:
  assumes "module_inv s"
  shows "follows s (SessionConnectDone q ec s)"
proof (rule followsI [of _ q])
  let ?s = "SessionConnectDone q ec s" and ?v = "view q s"
  have q: "q < nmObjects s" if "q \<in> nmConnecting s \<or> q \<in> nmRetrying s"
    using assms that by (intro in_use_objects) auto
  let ?s1 = "s\<lparr>nmConnecting := nmConnecting s - {q}\<rparr>"
  let ?s2 = "?s1\<lparr>nmNextSessionId := nmNextSessionId s + 1\<rparr>"
  let ?s3 = "set_session q ((nmSession s q)\<lparr>nsId := nmNextSessionId s + 1, nsOpen := True\<rparr>) ?s2"
  let ?s4 = "post_net (nsLoop (nmSession s q)) (NetConnectInsert q) ?s3"
  have 1: "module_inv ?s1" by (rule module_inv_pending(2) [OF assms])
  have "module_inv ?s2" using module_inv_pending(9) [OF 1] by simp
  then have "module_inv ?s3" by (rule module_inv_set_session) simp
  then have 4: "module_inv ?s4" if "q < nmObjects s" using that by (rule_tac module_inv_post_net) auto
  have 5: "module_inv (set_session q ((nmSession s q)\<lparr>nsOpen := True\<rparr>) (s\<lparr>nmRetrying := nmRetrying s - {q}\<rparr>))"
    by (rule module_inv_set_session [OF module_inv_pending(3) [OF assms]]) simp
  show "module_inv ?s"
    using q assms module_inv_pending(6) [OF 4, of q] module_inv_pending(5) [OF 1, of q] module_inv_pending(6) [OF 5, of q]
      module_inv_pending(3) [OF assms, of "{q}"]
    by (simp add: SessionConnectDone_def Let_def CreateSessionId_def)
  have "nmNextSessionId s + 1 \<noteq> 0" using assms by (simp add: module_inv_def)
  then show "view_step q ?v (view q ?s) \<or> view q ?s = ?v"
    using view_step.connected [of ?v "nmNextSessionId s + 1" q] view_step.failed [of ?v q] view_step.retry_done [of ?v q]
      view_step.retry_failed [of q ?v]
    by (cases "q \<in> nmConnecting s"; cases "q \<in> nmRetrying s"; cases ec; simp add: view_def SessionConnectDone_def Let_def CreateSessionId_def post_net_def set_session_def calls_of_def)
  show "view p ?s = view p s" if "p \<noteq> q" for p
    using that by (auto simp: view_def SessionConnectDone_def Let_def CreateSessionId_def post_net_def set_session_def calls_of_def)
qed


lemma module_inv_pop:
  assumes "module_inv s"
  shows "nmMainQueue s = t # q \<Longrightarrow> module_inv (s\<lparr>nmMainQueue := q\<rparr>)"
    "nmMainQueue s = t # q \<Longrightarrow> main_refs p t \<Longrightarrow> p < nmObjects s"
    "nmNetQueue s l = u # r \<Longrightarrow> module_inv (s\<lparr>nmNetQueue := (nmNetQueue s)(l := r)\<rparr>)"
    "nmNetQueue s l = u # r \<Longrightarrow> net_refs p u \<Longrightarrow> p < nmObjects s \<and> nsLoop (nmSession s p) = l"
proof -
  show "module_inv (s\<lparr>nmMainQueue := q\<rparr>)" if "nmMainQueue s = t # q" using assms that by (simp add: module_inv_def in_use_def)
  show "p < nmObjects s" if "nmMainQueue s = t # q" "main_refs p t" using assms that by (simp add: module_inv_def)
  show "p < nmObjects s \<and> nsLoop (nmSession s p) = l" if "nmNetQueue s l = u # r" "net_refs p u"
    using assms that unfolding module_inv_def by (metis list.set_intros(1))
  show "module_inv (s\<lparr>nmNetQueue := (nmNetQueue s)(l := r)\<rparr>)" if "nmNetQueue s l = u # r"
    using assms that unfolding module_inv_def in_use_def by simp (metis list.set_intros(2))
qed

lemma Union_ran_upd:
  assumes "m l k = None"
  shows "(\<Union>l'. ran ((m(l := (m l)(k \<mapsto> p))) l')) = insert p (\<Union>l'. ran (m l'))"
proof -
  have "ran ((m(l := (m l)(k \<mapsto> p))) l') = (if l' = l then insert p (ran (m l)) else ran (m l'))" for l'
    using assms by (simp add: ran_map_upd)
  then have "(\<Union>l'. ran ((m(l := (m l)(k \<mapsto> p))) l')) = (\<Union>l'. if l' = l then insert p (ran (m l)) else ran (m l'))"
    by (simp only:)
  also have "\<dots> = insert p (\<Union>l'. ran (m l'))" by (auto split: if_splits)
  finally show ?thesis .
qed

lemma in_use_emplace:
  "in_use (emplace_main sid p s) = (if nmMapSession s sid = None then insert p (in_use s) else in_use s)"
  "in_use (emplace_net l sid p s) = (if nmMapNetLoop s l sid = None then insert p (in_use s) else in_use s)"
  by (auto simp: in_use_def emplace_main_def emplace_net_def ran_map_upd simp del: fun_upd_apply simp add: Union_ran_upd)

lemma emplace_sel [simp]:
  "nmSession (emplace_main sid p s) = nmSession s" "nmObjects (emplace_main sid p s) = nmObjects s"
  "nmNetQueue (emplace_main sid p s) = nmNetQueue s" "nmMainQueue (emplace_main sid p s) = nmMainQueue s"
  "nmCalls (emplace_main sid p s) = nmCalls s" "nmNextSessionId (emplace_main sid p s) = nmNextSessionId s"
  "nmAccepting (emplace_main sid p s) = nmAccepting s" "nmConnecting (emplace_main sid p s) = nmConnecting s"
  "nmRetrying (emplace_main sid p s) = nmRetrying s"
  "nmSession (emplace_net l sid p s) = nmSession s" "nmObjects (emplace_net l sid p s) = nmObjects s"
  "nmNetQueue (emplace_net l sid p s) = nmNetQueue s" "nmMainQueue (emplace_net l sid p s) = nmMainQueue s"
  "nmCalls (emplace_net l sid p s) = nmCalls s" "nmNextSessionId (emplace_net l sid p s) = nmNextSessionId s"
  "nmAccepting (emplace_net l sid p s) = nmAccepting s" "nmConnecting (emplace_net l sid p s) = nmConnecting s"
  "nmRetrying (emplace_net l sid p s) = nmRetrying s"
  by (simp_all add: emplace_main_def emplace_net_def)

lemma module_inv_emplace:
  assumes "module_inv s" "q < nmObjects s"
  shows "module_inv (emplace_main sid q s)" "module_inv (emplace_net l sid q s)"
  using assms by (simp_all add: module_inv_def in_use_emplace)

lemma view_fields:
  "view p s = \<lparr>pvNew = nmObjects s \<le> p, pvSess = nmSession s p, pvCalls = calls_of p s,
      pvMain = filter (main_refs p) (nmMainQueue s), pvNet = filter (net_refs p) (nmNetQueue s (nsLoop (nmSession s p))),
      pvAccepting = p \<in> nmAccepting s, pvConnecting = p \<in> nmConnecting s, pvRetrying = p \<in> nmRetrying s, pvLive = p \<in> in_use s\<rparr>"
  by (simp add: view_def in_use_def)

lemma in_use_simps [simp]:
  "in_use (s\<lparr>nmMainQueue := mq\<rparr>) = in_use s" "in_use (s\<lparr>nmNetQueue := nq\<rparr>) = in_use s" "in_use (s\<lparr>nmCalls := c\<rparr>) = in_use s"
  "in_use (s\<lparr>nmSession := f\<rparr>) = in_use s" "in_use (s\<lparr>nmConnecting := A\<rparr>) = in_use s" "in_use (s\<lparr>nmReading := insert q (nmReading s)\<rparr>) = insert q (in_use s)"
  "in_use (s\<lparr>nmWriting := insert q (nmWriting s)\<rparr>) = insert q (in_use s)" "in_use (set_session q z s) = in_use s"
  "in_use (post_main m s) = in_use s" "in_use (post_net l t s) = in_use s"
  by (auto simp: in_use_def set_session_def post_main_def post_net_def)

definition erase_session :: "session_id_t \<Rightarrow> net_module \<Rightarrow> net_module" where
  "erase_session sid s =
     (case GetSessionInMainLoop sid s of
        None \<Rightarrow> s
      | Some q \<Rightarrow> post_net (nsLoop (nmSession s q)) (NetErase sid) (s\<lparr>nmMapSession := (nmMapSession s)(sid := None)\<rparr>))"

lemma post_net_map: "(post_net l t s)\<lparr>nmMapSession := m\<rparr> = post_net l t (s\<lparr>nmMapSession := m\<rparr>)"
  by (simp add: post_net_def)

lemma ran_remove: "ran (m(k := None)) \<subseteq> ran m"
  by (auto simp: ran_def)

lemma follows_erase:
  assumes "module_inv s"
  shows "follows s (erase_session sid s)"
proof (cases "nmMapSession s sid")
  case (Some q)
  let ?s = "s\<lparr>nmMapSession := (nmMapSession s)(sid := None)\<rparr>"
  have k: "in_use ?s \<subseteq> in_use s" using ran_remove [of "nmMapSession s" sid] by (auto simp: in_use_def)
  then have "module_inv ?s" using assms by (auto simp: module_inv_def)
  then have "module_inv (erase_session sid s)" using Some
    by (auto simp: erase_session_def GetSessionInMainLoop_def intro!: module_inv_post_net)
  then show ?thesis using assms k Some
    by (intro follows_less) (auto simp: erase_session_def GetSessionInMainLoop_def post_net_def)
qed (use assms in \<open>simp add: erase_session_def GetSessionInMainLoop_def follows_refl\<close>)

lemma follows_stepI:
  assumes "view_step r (view r s) v" "module_inv s'" "view r s' = v" "\<And>p. p \<noteq> r \<Longrightarrow> view p s' = view p s"
  shows "follows s s'"
  using assms by (intro followsI [of s' r s]) simp_all

lemma follows_run_main:
  assumes "module_inv s" "nmMainQueue s = t # q"
  shows "follows s (run_main t (s\<lparr>nmMainQueue := q\<rparr>))"
proof (cases t)
  case (MainAcceptInsert r)
  have r: "r < nmObjects s" using module_inv_pop(2) [OF assms, of r] MainAcceptInsert by simp
  have "pvMain (view r s) = MainAcceptInsert r # filter (main_refs r) q" using assms(2) MainAcceptInsert by (simp add: view_fields)
  from view_step.main_accept [OF this] show ?thesis
  proof (rule follows_stepI)
    show "module_inv (run_main t (s\<lparr>nmMainQueue := q\<rparr>))" using r module_inv_pop(1) [OF assms] MainAcceptInsert
      by (simp add: Let_def module_inv_pending module_inv_emplace)
  qed (use MainAcceptInsert assms(2) in \<open>simp_all add: view_fields Let_def calls_of_def in_use_emplace\<close>)
next
  case (MainConnect r)
  have r: "r < nmObjects s" using module_inv_pop(2) [OF assms, of r] MainConnect by simp
  have "pvMain (view r s) = MainConnect r # filter (main_refs r) q" using assms(2) MainConnect by (simp add: view_fields)
  from view_step.start [OF this] show ?thesis
  proof (rule follows_stepI)
    show "module_inv (run_main t (s\<lparr>nmMainQueue := q\<rparr>))"
      using r module_inv_pending(4) [OF module_inv_pop(1) [OF assms]] MainConnect by simp
  qed (use MainConnect assms(2) in \<open>simp_all add: view_fields calls_of_def\<close>)
next
  case (MainConnectInsert r)
  have r: "r < nmObjects s" using module_inv_pop(2) [OF assms, of r] MainConnectInsert by simp
  have "pvMain (view r s) = MainConnectInsert r # filter (main_refs r) q" using assms(2) MainConnectInsert by (simp add: view_fields)
  from view_step.main_connect [OF this, of "nmMapSession s (nsId (nmSession s r)) = None \<or> r \<in> in_use s"] show ?thesis
  proof (rule follows_stepI)
    show "module_inv (run_main t (s\<lparr>nmMainQueue := q\<rparr>))" using r module_inv_pop(1) [OF assms] MainConnectInsert
      by (simp add: Let_def module_inv_pending module_inv_emplace)
  qed (use MainConnectInsert assms(2) in \<open>auto simp: view_fields Let_def calls_of_def in_use_emplace\<close>)
next
  case (MainCloseCb r sid)
  let ?s = "s\<lparr>nmMainQueue := q, nmCalls := nmCalls s @ (if nsUserClose (nmSession s r) then [(r, CallClose, sid)] else [])\<rparr>"
  have "module_inv ?s" using module_inv_pending(8) [OF module_inv_pop(1) [OF assms]] by simp
  moreover have "follows s ?s"
  proof -
    have "pvMain (view r s) = MainCloseCb r sid # filter (main_refs r) q" using assms(2) MainCloseCb by (simp add: view_fields)
    from view_step.main_close [OF this] \<open>module_inv ?s\<close> show ?thesis
      by (rule follows_stepI) (use MainCloseCb assms(2) in \<open>simp_all add: view_fields calls_of_def\<close>)
  qed
  moreover have "run_main t (s\<lparr>nmMainQueue := q\<rparr>) = erase_session sid ?s"
    using MainCloseCb by (simp add: Let_def erase_session_def GetSessionInMainLoop_def post_net_map split: option.splits)
  ultimately show ?thesis using follows_trans [OF _ follows_erase [of ?s sid], of s] by simp
next
  case (MainRemove sid)
  have "follows s (s\<lparr>nmMainQueue := q\<rparr>)"
    using assms module_inv_pop(1) [OF assms] MainRemove by (intro follows_less) simp_all
  with follows_trans [OF this follows_erase [of _ sid]] MainRemove module_inv_pop(1) [OF assms] show ?thesis
    by (auto simp: erase_session_def post_net_def split: option.splits)
qed


lemma follows_run_net:
  assumes "module_inv s" "nmNetQueue s l = t # q"
  shows "follows s (run_net l t (s\<lparr>nmNetQueue := (nmNetQueue s)(l := q)\<rparr>))"
proof (cases t)
  case (NetAcceptInsert r)
  have r: "r < nmObjects s" "nsLoop (nmSession s r) = l" using module_inv_pop(4) [OF assms, of r] NetAcceptInsert by simp_all
  have "pvNet (view r s) = NetAcceptInsert r # filter (net_refs r) q" using assms(2) NetAcceptInsert r by (simp add: view_fields)
  from view_step.net_accept [OF this, of "nmMapNetLoop s l (nsId (nmSession s r)) = None \<or> r \<in> in_use s"] show ?thesis
  proof (rule follows_stepI)
    show "module_inv (run_net l t (s\<lparr>nmNetQueue := (nmNetQueue s)(l := q)\<rparr>))" using r module_inv_pop(3) [OF assms] NetAcceptInsert
      by (auto simp: Let_def intro!: module_inv_post_main module_inv_set_session module_inv_emplace)
  qed (use NetAcceptInsert assms(2) r in \<open>auto simp: view_fields Let_def calls_of_def in_use_emplace set_session_def post_main_def\<close>)
next
  case (NetConnectInsert r)
  have r: "r < nmObjects s" "nsLoop (nmSession s r) = l" using module_inv_pop(4) [OF assms, of r] NetConnectInsert by simp_all
  have "pvNet (view r s) = NetConnectInsert r # filter (net_refs r) q" using assms(2) NetConnectInsert r by (simp add: view_fields)
  from view_step.net_connect [OF this, of "nmMapNetLoop s l (nsId (nmSession s r)) = None \<or> r \<in> in_use s"] show ?thesis
  proof (rule follows_stepI)
    show "module_inv (run_net l t (s\<lparr>nmNetQueue := (nmNetQueue s)(l := q)\<rparr>))" using r module_inv_pop(3) [OF assms] NetConnectInsert
      by (auto intro!: module_inv_post_main module_inv_emplace)
  qed (use NetConnectInsert assms(2) r in \<open>auto simp: view_fields Let_def calls_of_def in_use_emplace post_main_def\<close>)
next
  case (NetClose r)
  have r: "r < nmObjects s" "nsLoop (nmSession s r) = l" using module_inv_pop(4) [OF assms, of r] NetClose by simp_all
  have "pvNet (view r s) = NetClose r # filter (net_refs r) q" using assms(2) NetClose r by (simp add: view_fields)
  from view_step.net_close [OF this] show ?thesis
  proof (rule follows_stepI)
    show "module_inv (run_net l t (s\<lparr>nmNetQueue := (nmNetQueue s)(l := q)\<rparr>))" using r module_inv_pop(3) [OF assms] NetClose
      by (auto simp: DoSessionCloseInNetLoop_def RemoveMapSession_def Let_def intro!: module_inv_post_main module_inv_set_session)
  qed (use NetClose assms(2) r in \<open>simp_all add: DoSessionCloseInNetLoop_def RemoveMapSession_def view_fields Let_def calls_of_def set_session_def post_main_def\<close>)
next
  case (NetErase sid)
  let ?s = "run_net l t (s\<lparr>nmNetQueue := (nmNetQueue s)(l := q)\<rparr>)"
  have "ran (nmMapNetLoop ?s l') \<subseteq> ran (nmMapNetLoop s l')" for l' using ran_remove [of "nmMapNetLoop s l" sid] NetErase by simp
  then have "in_use ?s \<subseteq> in_use s" using NetErase by (simp add: in_use_def) blast
  moreover from this have "module_inv ?s" using module_inv_pop(3) [OF assms] NetErase by (simp add: module_inv_def) blast
  ultimately show ?thesis using assms NetErase by (intro follows_less) simp_all
next
  case (NetSend r)
  have r: "r < nmObjects s" "nsLoop (nmSession s r) = l" using module_inv_pop(4) [OF assms, of r] NetSend by simp_all
  have "pvNet (view r s) = NetSend r # filter (net_refs r) q" using assms(2) NetSend r by (simp add: view_fields)
  from view_step.net_send [OF this] show ?thesis
  proof (rule follows_stepI)
    show "module_inv (run_net l t (s\<lparr>nmNetQueue := (nmNetQueue s)(l := q)\<rparr>))"
      using r module_inv_pending(7) [OF module_inv_pop(3) [OF assms]] NetSend by simp
  qed (use NetSend assms(2) r in \<open>simp_all add: view_fields calls_of_def in_use_def\<close>)
next
  case NetClear
  let ?s = "run_net l t (s\<lparr>nmNetQueue := (nmNetQueue s)(l := q)\<rparr>)"
  have "in_use ?s \<subseteq> in_use s" using NetClear by (auto simp: in_use_def split: if_splits)
  moreover from this have "module_inv ?s" using module_inv_pop(3) [OF assms] NetClear by (simp add: module_inv_def) blast
  ultimately show ?thesis using assms NetClear by (intro follows_less) simp_all
qed


theorem net_step_follows:
  assumes "net_step loops s s'" "module_inv s"
  shows "follows s s'"
  using assms
  by (induction rule: net_step.induct)
    (simp_all add: follows_run_main follows_run_net follows_Accept follows_AcceptDone follows_Connect follows_SessionConnectDone
      follows_SessionReadDone follows_SessionSend follows_SessionWriteDone follows_CloseInMainLoop follows_TimerDone follows_Net_OnStop)

lemma reachable_follows:
  assumes "(net_step loops)\<^sup>*\<^sup>* s s'" "module_inv s"
  shows "follows s s'"
  using assms
proof (induction rule: rtranclp_induct)
  case (step y z)
  then have "follows s y" by simp
  moreover from this have "follows y z" using step(2) by (intro net_step_follows) (simp_all add: follows_def)
  ultimately show ?case by (rule follows_trans)
qed (simp add: follows_refl)

lemma view_steps_ok: "(view_step p)\<^sup>*\<^sup>* v v' \<Longrightarrow> view_ok p v \<Longrightarrow> view_ok p v'"
  by (induction rule: rtranclp_induct) (auto intro: view_step_ok)

lemma start_ok: "module_inv NetModule" "view_ok p (view p NetModule)"
  by (simp_all add: module_inv_def in_use_def NetModule_def view_ok_def view_def idle_def calls_of_def)

lemma reachable_ok:
  assumes "(net_step loops)\<^sup>*\<^sup>* NetModule s"
  shows "module_inv s" "view_ok p (view p s)"
  using reachable_follows [OF assms start_ok(1)] view_steps_ok start_ok(2) unfolding follows_def by blast+

lemma only_close:
  assumes "CallConnect \<notin> set xs" "length (filter (\<lambda>c. c = CallClose) xs) \<le> 1"
  shows "xs = [] \<or> xs = [CallClose]"
proof -
  have "c = CallClose" if "c \<in> set xs" for c using assms(1) that by (cases c) auto
  then have "filter (\<lambda>c. c = CallClose) xs = xs" by (simp add: filter_id_conv)
  with assms(2) have "length xs \<le> 1" by simp
  then show ?thesis using \<open>\<And>c. c \<in> set xs \<Longrightarrow> c = CallClose\<close> by (cases xs) auto
qed

lemma calls_shape:
  assumes "view_ok p v"
  shows "pvCalls v \<in> {[], [CallConnect], [CallConnect, CallClose], [CallClose]}"
    and "pvCalls v = [CallClose] \<longrightarrow> nsId (pvSess v) = 0 \<or> \<not> nsFunConnect (pvSess v)"
proof -
  have "(pvCalls v = [] \<or> pvCalls v = [CallConnect] \<or> pvCalls v = [CallConnect, CallClose] \<or> pvCalls v = [CallClose]) \<and>
    (pvCalls v = [CallClose] \<longrightarrow> nsId (pvSess v) = 0 \<or> \<not> nsFunConnect (pvSess v))"
  proof (cases "pvCalls v")
    case (Cons c cs)
    then have "\<not> pvNew v" using assms by (auto simp: view_ok_def idle_def)
    then have b: "length (filter (\<lambda>c. c = CallClose) (bound v)) \<le> 1" "connected_tokens v"
      using assms by (simp_all add: view_ok_def)
    then have close: "length (filter (\<lambda>c. c = CallClose) (c # cs)) \<le> 1" using Cons by (simp add: bound_def split: if_splits)
    show ?thesis
    proof (cases "nsId (pvSess v) = 0 \<or> \<not> nsFunConnect (pvSess v)")
      case True
      then have "CallConnect \<notin> set (c # cs)" using b(2) Cons by (simp add: connected_tokens_def bound_def)
      with only_close [OF this close] Cons True show ?thesis by simp
    next
      case False
      then have "c = CallConnect" "CallConnect \<notin> set cs" using b(2) Cons by (auto simp: connected_tokens_def bound_def)
      with only_close [of cs] close Cons show ?thesis by auto
    qed
  qed simp
  then show "pvCalls v \<in> {[], [CallConnect], [CallConnect, CallClose], [CallClose]}"
    "pvCalls v = [CallClose] \<longrightarrow> nsId (pvSess v) = 0 \<or> \<not> nsFunConnect (pvSess v)" by simp_all
qed

definition forgotten :: "session_view \<Rightarrow> bool" where
  "forgotten v \<longleftrightarrow> \<not> pvNew v \<and> \<not> pvAccepting v \<and> \<not> pvConnecting v \<and> \<not> pvRetrying v \<and> pvMain v = [] \<and> pvNet v = [] \<and>
     \<not> pvLive v \<and> pvCalls v = []"

lemma forgotten_forever: "(view_step p)\<^sup>*\<^sup>* v v' \<Longrightarrow> forgotten v \<Longrightarrow> forgotten v'"
proof (induction rule: rtranclp_induct)
  case (step y z)
  then have "forgotten y" by simp
  with step(2) show ?case by (cases rule: view_step.cases) (auto simp: forgotten_def)
qed simp


section \<open>Properties\<close>

text \<open>C20: However the loops, the sockets and the timers interleave, the functions the caller of \<open>Connect\<close>
  passed are called at most once each, the connect function before the close function, and the close
  function alone only for a session without connect function or one whose first attempt failed and
  which so never got an id.\<close>

theorem session_callbacks:
  assumes "(net_step loops)\<^sup>*\<^sup>* NetModule s"
  shows "calls_of p s \<in> {[], [CallConnect], [CallConnect, CallClose], [CallClose]} \<and>
    (calls_of p s = [CallClose] \<longrightarrow> nsId (nmSession s p) = 0 \<or> \<not> nsFunConnect (nmSession s p))"
  using calls_shape [OF reachable_ok(2) [OF assms, of p]] by (simp add: view_fields)

text \<open>The head of a loop's queue, when there is one, is run.\<close>

definition pump_main :: "net_module \<Rightarrow> net_module" where
  "pump_main s = (case nmMainQueue s of [] \<Rightarrow> s | t # q \<Rightarrow> run_main t (s\<lparr>nmMainQueue := q\<rparr>))"

definition pump_net :: "nat \<Rightarrow> net_module \<Rightarrow> net_module" where
  "pump_net l s = (case nmNetQueue s l of [] \<Rightarrow> s | t # q \<Rightarrow> run_net l t (s\<lparr>nmNetQueue := (nmNetQueue s)(l := q)\<rparr>))"

lemma pump_steps:
  "(net_step loops)\<^sup>*\<^sup>* s (pump_main s)" "(net_step loops)\<^sup>*\<^sup>* s (pump_net l s)"
  by (auto simp: pump_main_def pump_net_def net_step.main net_step.net split: list.split)

lemma step_rules:
  "(net_step loops)\<^sup>*\<^sup>* s t \<Longrightarrow> (net_step loops)\<^sup>*\<^sup>* s (pump_main t)"
  "(net_step loops)\<^sup>*\<^sup>* s t \<Longrightarrow> (net_step loops)\<^sup>*\<^sup>* s (pump_net l t)"
  "(net_step loops)\<^sup>*\<^sup>* s t \<Longrightarrow> (net_step loops)\<^sup>*\<^sup>* s (Connect l a b t)"
  "(net_step loops)\<^sup>*\<^sup>* s t \<Longrightarrow> (net_step loops)\<^sup>*\<^sup>* s (SessionConnectDone p ec t)"
  "(net_step loops)\<^sup>*\<^sup>* s t \<Longrightarrow> (net_step loops)\<^sup>*\<^sup>* s (CloseInMainLoop sid t)"
  by (auto intro: rtranclp_trans pump_steps rtranclp.rtrancl_into_rtrancl net_step.intros)

lemmas net_run = NetModule_def NetSession_def Connect_def new_session_def set_session_def post_main_def post_net_def pump_main_def
  pump_net_def SessionConnectDone_def CreateSessionId_def CloseInMainLoop_def DoSessionAsyncClose_def DoSessionCloseInNetLoop_def
  RemoveMapSession_def emplace_main_def emplace_net_def GetSessionInMainLoop_def calls_of_def Let_def

definition opened :: net_module where
  "opened = pump_main (pump_net 0 (SessionConnectDone 0 False (pump_main (Connect 0 True True NetModule))))"

definition refused_once :: net_module where
  "refused_once = SessionConnectDone 0 True (pump_main (Connect 0 True True NetModule))"

theorem session_callbacks_witness:
  "(net_step 1)\<^sup>*\<^sup>* NetModule (pump_main (pump_net 0 (CloseInMainLoop 1 opened))) \<and>
   calls_of 0 (pump_main (pump_net 0 (CloseInMainLoop 1 opened))) = [CallConnect, CallClose] \<and>
   calls_of 0 (pump_main (pump_net 0 (CloseInMainLoop 1 opened))) \<in> {[], [CallConnect], [CallConnect, CallClose], [CallClose]}"
proof -
  have r: "(net_step 1)\<^sup>*\<^sup>* NetModule (pump_main (pump_net 0 (CloseInMainLoop 1 opened)))"
    unfolding opened_def by (intro step_rules) simp
  moreover have "calls_of 0 (pump_main (pump_net 0 (CloseInMainLoop 1 opened))) = [CallConnect, CallClose]"
    by (simp add: opened_def net_run)
  ultimately show ?thesis using session_callbacks [OF r, of 0] by simp
qed

text \<open>When the second connect attempt fails too, nobody is ever told: whatever happens afterwards, neither
  function of the caller is called. The retry of \<open>Connect\<close> passes no function on, so
  the outcome false the connect functions are written for is never reported.\<close>

theorem failed_connect_never_reported:
  assumes "(net_step loops)\<^sup>*\<^sup>* NetModule s" "p \<in> nmRetrying s" "(net_step loops)\<^sup>*\<^sup>* (SessionConnectDone p True s) s'"
  shows "calls_of p s' = []"
proof -
  have ok: "module_inv s" "view_ok p (view p s)" using reachable_ok [OF assms(1)] by simp_all
  then have "idle (view p s)" "pvMain (view p s) = []" "p \<notin> nmConnecting s" "p \<notin> nmAccepting s" "p < nmObjects s"
    using assms(2) in_use_objects [OF ok(1), of p] by (auto simp: view_ok_def view_fields)
  then have "forgotten (view p (SessionConnectDone p True s))" using assms(2)
    by (simp add: forgotten_def idle_def view_fields SessionConnectDone_def Let_def calls_of_def in_use_def)
  moreover have "module_inv (SessionConnectDone p True s)"
    using follows_SessionConnectDone [OF ok(1)] by (simp add: follows_def)
  ultimately have "forgotten (view p s')"
    using reachable_follows [OF assms(3)] forgotten_forever by (auto simp: follows_def)
  then show ?thesis by (simp add: forgotten_def view_fields)
qed

theorem failed_connect_never_reported_witness:
  "(net_step 1)\<^sup>*\<^sup>* NetModule refused_once \<and> 0 \<in> nmRetrying refused_once \<and>
   nsFunConnect (nmSession refused_once 0) \<and> calls_of 0 (SessionConnectDone 0 True refused_once) = []"
proof -
  have r: "(net_step 1)\<^sup>*\<^sup>* NetModule refused_once" unfolding refused_once_def by (intro step_rules) simp
  moreover have "0 \<in> nmRetrying refused_once" "nsFunConnect (nmSession refused_once 0)" by (simp_all add: refused_once_def net_run)
  ultimately show ?thesis using failed_connect_never_reported [OF r, of 0 "SessionConnectDone 0 True refused_once"] by simp
qed

end
