(* ===== verification/Http_Request.thy ===== *)
theory Http_Request
  imports Cpp_Std
begin

text \<open>
  The HTTP request parser (common/utility/http_request.h, http_request.cpp): requests, replies, and
  \<open>RequestParser\<close>, which is fed the bytes of a connection in chunks of any size. A
  \<open>std::string_view\<close> is the list of its characters; \<open>find\<close> returns \<open>None\<close> for \<open>npos\<close>. The
  parser reads at most \<open>k_http_max_size\<close> bytes of a request, so its counters are natural
  numbers; the announced content length keeps its 64 bits.
\<close>

section \<open>Requests and replies\<close>

datatype http_method = M_kInvalid | M_kGet | M_kPost | M_kHead | M_kPut | M_kDelete

datatype http_version = V_kUnknown | V_kHttp10 | V_kHttp11 | V_kHttp20

record http_request =
  hrMethod :: http_method
  hrVersion :: http_version
  hrPath :: string
  hrQuery :: string
  hrHeaders :: "string \<rightharpoonup> string"
  hrContent :: string

definition Request_Reset :: http_request where
  "Request_Reset = \<lparr>hrMethod = M_kInvalid, hrVersion = V_kUnknown, hrPath = [], hrQuery = [], hrHeaders = Map.empty, hrContent = []\<rparr>"

fun find_str :: "string \<Rightarrow> string \<Rightarrow> nat option" where
  "find_str pat [] = (if pat = [] then Some 0 else None)"
| "find_str pat (x # xs) =
     (if take (length pat) (x # xs) = pat then Some 0 else map_option Suc (find_str pat xs))"

text \<open>
  \<open>substr(0, pos)\<close>, and \<open>substr(pos + k)\<close> where \<open>pos\<close> may be \<open>npos\<close>, the largest \<open>size_t\<close>, so that
  the sum wraps to \<open>k - 1\<close>.
\<close>

definition substr_to :: "nat option \<Rightarrow> string \<Rightarrow> string" where
  "substr_to pos s = (case pos of None \<Rightarrow> s | Some i \<Rightarrow> take i s)"

definition substr_after :: "nat option \<Rightarrow> nat \<Rightarrow> string \<Rightarrow> string" where
  "substr_after pos k s = (case pos of None \<Rightarrow> drop (k - 1) s | Some i \<Rightarrow> drop (i + k) s)"

definition LoadPathAndQuery :: "string \<Rightarrow> http_request \<Rightarrow> http_request" where
  "LoadPathAndQuery word r =
     (case find_str ''?'' word of
        Some pos_query \<Rightarrow> r\<lparr>hrPath := take pos_query word, hrQuery := drop (pos_query + 1) word\<rparr>
      | None \<Rightarrow> r\<lparr>hrPath := word\<rparr>)"

definition StringToVersion :: "string \<Rightarrow> http_version" where
  "StringToVersion data =
     (if data = ''HTTP/1.1'' then V_kHttp11 else if data = ''HTTP/1.0'' then V_kHttp10
      else if data = ''HTTP/2.0'' then V_kHttp20 else V_kUnknown)"

definition StringToMethod :: "string \<Rightarrow> http_method" where
  "StringToMethod data =
     (if data = ''GET'' then M_kGet else if data = ''POST'' then M_kPost else if data = ''HEAD'' then M_kHead
      else if data = ''PUT'' then M_kPut else if data = ''DELETE'' then M_kDelete else M_kInvalid)"

text \<open>The status codes are their numbers; the last clause is the \<open>default\<close> of the source.\<close>

record http_reply =
  rpStatusCode :: nat
  rpStatusMessage :: string
  rpHeaders :: "(string \<times> string) list"
  rpContent :: string
  rpCloseConnection :: bool

definition crlf :: string where
  "crlf = [CHR 0x0D, CHR 0x0A]"

definition BadReply :: "nat \<Rightarrow> http_reply" where
  "BadReply status = \<lparr>rpStatusCode = status, rpStatusMessage = [], rpHeaders = [], rpContent = [], rpCloseConnection = True\<rparr>"

definition status_text :: "(nat \<times> string) list" where
  "status_text =
     [(200, ''200 OK''), (201, ''201 Created''), (202, ''202 Accepted''), (204, ''204 No Content''),
      (300, ''300 Multiple Choices''), (301, ''301 Moved Permanently''), (302, ''302 Moved Temporarily''),
      (304, ''304 Not Modified''), (400, ''400 Bad Request''), (401, ''401 Unauthorized''), (403, ''403 Forbidden''),
      (404, ''404 Not Found''), (500, ''500 Internal Server Error''), (501, ''501 Not Implemented''),
      (502, ''502 Bad Gateway''), (503, ''503 Service Unavailable'')]"

definition ToErrorHead :: "nat \<Rightarrow> string" where
  "ToErrorHead status =
     ''HTTP/1.1 '' @ (case map_of status_text status of Some t \<Rightarrow> t | None \<Rightarrow> ''500 Internal Server Error'') @ crlf"

section \<open>The parser\<close>

datatype parser_state = method_uri_version | http_header | http_context | end_state

datatype result_type = good | bad | indeterminate

record request_parser =
  rpState :: parser_state
  rpReq :: http_request
  rpContentLength :: size_t
  rpReadLength :: nat
  rpReadingLine :: string

definition k_http_max_size :: nat where
  "k_http_max_size = 1 * 1024 * 1024"

definition RequestParser :: request_parser where
  "RequestParser =
     \<lparr>rpState = method_uri_version, rpReq = Request_Reset, rpContentLength = 0, rpReadLength = 0, rpReadingLine = []\<rparr>"

definition Parser_Reset :: "request_parser \<Rightarrow> request_parser" where
  "Parser_Reset P = RequestParser"

definition ParseBody :: "string \<Rightarrow> request_parser \<Rightarrow> nat \<times> request_parser" where
  "ParseBody data P =
     (let needReadCount = unat (rpContentLength P) - length (hrContent (rpReq P))
      in if length data \<ge> needReadCount
         then (0, P\<lparr>rpReq := (rpReq P)\<lparr>hrContent := hrContent (rpReq P) @ take needReadCount data\<rparr>, rpState := end_state\<rparr>)
         else (needReadCount - length data, P\<lparr>rpReq := (rpReq P)\<lparr>hrContent := hrContent (rpReq P) @ data\<rparr>\<rparr>))"

definition ParseLine :: "string \<Rightarrow> request_parser \<Rightarrow> bool \<times> request_parser" where
  "ParseLine line P =
     (case rpState P of
        method_uri_version \<Rightarrow>
          let pos = find_str '' '' line;
              r = (rpReq P)\<lparr>hrMethod := StringToMethod (substr_to pos line)\<rparr>;
              line = substr_after pos 1 line;
              pos = find_str '' '' line;
              r = LoadPathAndQuery (substr_to pos line) r;
              line = substr_after pos 1 line;
              pos = find_str '' '' line;
              r = r\<lparr>hrVersion := StringToVersion (substr_to pos line)\<rparr>
          in if hrVersion r = V_kUnknown then (False, P\<lparr>rpReq := r\<rparr>)
             else (True, P\<lparr>rpReq := r, rpState := http_header\<rparr>)
      | http_header \<Rightarrow>
          if line = [] then
            (case hrHeaders (rpReq P) ''Content-Length'' of
               Some v \<Rightarrow> (True, P\<lparr>rpContentLength := word_of_int (atoll (c_str v)), rpState := http_context\<rparr>)
             | None \<Rightarrow> (True, P\<lparr>rpState := end_state\<rparr>))
          else let pos = find_str '': '' line;
                   key = substr_to pos line;
                   value = substr_after pos 2 line;
                   h = hrHeaders (rpReq P)
               in (True, P\<lparr>rpReq := (rpReq P)\<lparr>hrHeaders := (if h key = None then h(key \<mapsto> value) else h)\<rparr>\<rparr>)
      | http_context \<Rightarrow> (False, P)
      | end_state \<Rightarrow> (False, P))"

definition OnReadBody :: "request_parser \<Rightarrow> bool" where
  "OnReadBody P \<longleftrightarrow> rpState P = http_context"

definition OnDone :: "request_parser \<Rightarrow> bool" where
  "OnDone P \<longleftrightarrow> rpState P = end_state"

lemma find_str_bound: "find_str pat xs = Some i \<Longrightarrow> i + length pat \<le> length xs"
  by (induction pat xs arbitrary: i rule: find_str.induct) (auto split: if_splits dest!: arg_cong [of _ _ length])

text \<open>
  The loop of \<open>Parse\<close>: the unread rest and the parser, or on a line that is refused the position of
  its end. A line that began in earlier chunks is completed in \<open>m_readingLine\<close>.
\<close>

function parse_lines :: "string \<Rightarrow> request_parser \<Rightarrow> (nat \<times> request_parser) + (string \<times> request_parser)" where
  "parse_lines request P =
     (if OnDone P \<or> OnReadBody P then Inr (request, P)
      else case find_str crlf request of
             None \<Rightarrow> Inr (request, P)
           | Some pos \<Rightarrow>
               let P1 = (if rpReadingLine P \<noteq> [] then P\<lparr>rpReadingLine := rpReadingLine P @ take pos request\<rparr> else P);
                   line = (if rpReadingLine P \<noteq> [] then rpReadingLine P1 else take pos request)
               in case ParseLine line P1 of
                    (False, P2) \<Rightarrow> Inl (pos, P2)
                  | (True, P2) \<Rightarrow> parse_lines (drop (pos + 2) request) (P2\<lparr>rpReadingLine := []\<rparr>))"
  by pat_completeness auto
termination
  by (relation "measure (length \<circ> fst)") (auto dest: find_str_bound simp: crlf_def)

declare parse_lines.simps [simp del]

definition Parse :: "string \<Rightarrow> request_parser \<Rightarrow> result_type \<times> nat \<times> request_parser" where
  "Parse data P =
     (if rpReadLength P \<ge> k_http_max_size then (bad, length data, P)
      else let readableLength = min (length data) (k_http_max_size - rpReadLength P)
           in case parse_lines (take readableLength data) P of
                Inl (pos, P) \<Rightarrow> (bad, pos, P)
              | Inr (request, P) \<Rightarrow>
                  let onBody = OnReadBody P;
                      (next_start, P) = (if onBody then ParseBody request P else (0, P))
                  in if onBody \<and> next_start \<ge> length request
                     then (indeterminate, readableLength, P\<lparr>rpReadLength := rpReadLength P + readableLength\<rparr>)
                     else let request = (if onBody then drop next_start request else request)
                          in if OnDone P
                             then (good, readableLength - length request,
                                   P\<lparr>rpReadLength := rpReadLength P + (readableLength - length request)\<rparr>)
                             else (indeterminate, readableLength,
                                   P\<lparr>rpReadingLine := rpReadingLine P @ request,
                                     rpReadLength := rpReadLength P + readableLength\<rparr>))"

section \<open>Searching\<close>

lemma find_str_extend: "find_str pat a = Some i \<Longrightarrow> pat \<noteq> [] \<Longrightarrow> find_str pat (a @ b) = Some i"
proof (induction pat a arbitrary: i rule: find_str.induct)
  case (2 pat x xs)
  show ?case
  proof (cases "take (length pat) (x # xs) = pat")
    case True
    then have "length pat \<le> length (x # xs)" by (metis length_take min.absorb_iff2 min.commute nle_le)
    with True 2 show ?thesis by (simp add: take_Cons' split: if_splits)
  next
    case False
    then obtain j where j: "find_str pat xs = Some j" "i = Suc j" using 2(2) by auto
    then have "take (length pat) (x # xs @ b) \<noteq> pat"
    proof -
      have "length pat \<le> length xs" using find_str_bound [OF j(1)] by simp
      with False show ?thesis by (simp add: take_Cons' split: if_splits)
    qed
    with 2(1) [OF False j(1) 2(3)] j show ?thesis by simp
  qed
qed simp

lemma find_crlf_Cons: "find_str crlf (x # xs) = (if x = CHR 0x0D \<and> xs \<noteq> [] \<and> hd xs = CHR 0x0A then Some 0 else map_option Suc (find_str crlf xs))"
  by (cases xs) (auto simp: crlf_def)

lemma find_crlf_Nil [simp]: "find_str crlf [] = None"
  by (simp add: crlf_def)

definition safe_cut :: "string \<Rightarrow> string \<Rightarrow> bool" where
  "safe_cut a b \<longleftrightarrow> \<not> (a \<noteq> [] \<and> last a = CHR 0x0D \<and> b \<noteq> [] \<and> hd b = CHR 0x0A)"

lemma find_crlf_append:
  assumes "find_str crlf a = None" "safe_cut a b"
  shows "find_str crlf (a @ b) = map_option ((+) (length a)) (find_str crlf b)"
  using assms
proof (induction a)
  case (Cons x a)
  have "find_str crlf a = None" "\<not> (x = CHR 0x0D \<and> a \<noteq> [] \<and> hd a = CHR 0x0A)"
    using Cons(2) by (auto simp: find_crlf_Cons simp del: find_str.simps split: if_splits)
  moreover have "safe_cut a b" "a = [] \<longrightarrow> \<not> (x = CHR 0x0D \<and> b \<noteq> [] \<and> hd b = CHR 0x0A)"
    using Cons(3) by (auto simp: safe_cut_def split: if_splits)
  ultimately show ?case using Cons.IH by (cases a) (auto simp: find_crlf_Cons option.map_comp comp_def simp del: find_str.simps)
next
  case Nil
  then show ?case by (cases "find_str crlf b") simp_all
qed

lemma find_crlf_line: "CHR 0x0D \<notin> set a \<Longrightarrow> find_str crlf (a @ crlf @ b) = Some (length a)"
  by (induction a) (auto simp: find_crlf_Cons simp del: find_str.simps, simp_all add: crlf_def)

lemma find_crlf_None: "CHR 0x0D \<notin> set a \<Longrightarrow> find_str crlf a = None"
  by (induction a) (auto simp: find_crlf_Cons simp del: find_str.simps)

lemma find_one: "c \<notin> set a \<Longrightarrow> find_str [c] (a @ c # b) = Some (length a)" "c \<notin> set a \<Longrightarrow> find_str [c] a = None"
  by (induction a) auto

lemma find_colon: "CHR '':'' \<notin> set k \<Longrightarrow> find_str '': '' (k @ '': '' @ v) = Some (length k)"
  by (induction k) auto

section \<open>The line loop\<close>

lemma ParseLine_frame:
  "ParseLine line (P\<lparr>rpReadingLine := x\<rparr>) = apsnd (\<lambda>Q. Q\<lparr>rpReadingLine := x\<rparr>) (ParseLine line P)"
  "ParseLine line (P\<lparr>rpReadLength := n\<rparr>) = apsnd (\<lambda>Q. Q\<lparr>rpReadLength := n\<rparr>) (ParseLine line P)"
  by (auto simp: ParseLine_def Let_def split: parser_state.split option.split)

lemma ParseLine_keeps:
  "ParseLine line P = (ok, Q) \<Longrightarrow> rpReadingLine Q = rpReadingLine P \<and> rpReadLength Q = rpReadLength P"
  by (auto simp: ParseLine_def Let_def split: parser_state.splits option.splits if_splits)

lemma state_frame [simp]:
  "OnDone (P\<lparr>rpReadingLine := x\<rparr>) = OnDone P" "OnReadBody (P\<lparr>rpReadingLine := x\<rparr>) = OnReadBody P"
  "OnDone (P\<lparr>rpReadLength := n\<rparr>) = OnDone P" "OnReadBody (P\<lparr>rpReadLength := n\<rparr>) = OnReadBody P"
  by (simp_all add: OnDone_def OnReadBody_def)

lemma parse_lines_eq:
  "parse_lines d P =
     (if OnDone P \<or> OnReadBody P then Inr (d, P)
      else case find_str crlf d of
             None \<Rightarrow> Inr (d, P)
           | Some pos \<Rightarrow>
               (case ParseLine (rpReadingLine P @ take pos d) P of
                  (False, Q) \<Rightarrow> Inl (pos, if rpReadingLine P \<noteq> [] then Q\<lparr>rpReadingLine := rpReadingLine P @ take pos d\<rparr> else Q)
                | (True, Q) \<Rightarrow> parse_lines (drop (pos + 2) d) (Q\<lparr>rpReadingLine := []\<rparr>)))"
proof -
  have upd: "P\<lparr>rpReadingLine := x\<rparr> = P" if "rpReadingLine P = x" for x using that by auto
  show ?thesis
    by (subst parse_lines.simps) (auto simp: Let_def ParseLine_frame(1) split: option.split prod.split bool.split)
qed

lemma parse_lines_stop: "OnDone P \<or> OnReadBody P \<or> find_str crlf d = None \<Longrightarrow> parse_lines d P = Inr (d, P)"
  by (subst parse_lines_eq) (auto split: option.split)

lemma parse_lines_bad:
  "\<not> OnDone P \<Longrightarrow> \<not> OnReadBody P \<Longrightarrow> find_str crlf d = Some pos \<Longrightarrow> ParseLine (rpReadingLine P @ take pos d) P = (False, Q) \<Longrightarrow>
   \<exists>Q'. parse_lines d P = Inl (pos, Q')"
  by (subst parse_lines_eq) simp

lemma parse_lines_next:
  "\<not> OnDone P \<Longrightarrow> \<not> OnReadBody P \<Longrightarrow> find_str crlf d = Some pos \<Longrightarrow> ParseLine (rpReadingLine P @ take pos d) P = (True, Q) \<Longrightarrow>
   parse_lines d P = parse_lines (drop (pos + 2) d) (Q\<lparr>rpReadingLine := []\<rparr>)"
  by (subst parse_lines_eq) simp

text \<open>Cases of one round, for inductions over the loop.\<close>

lemma parse_lines_induct [case_names stop refused taken]:
  assumes "\<And>d P. OnDone P \<or> OnReadBody P \<or> find_str crlf d = None \<Longrightarrow> C d P"
    and "\<And>d P pos Q. \<not> OnDone P \<Longrightarrow> \<not> OnReadBody P \<Longrightarrow> find_str crlf d = Some pos \<Longrightarrow>
      ParseLine (rpReadingLine P @ take pos d) P = (False, Q) \<Longrightarrow> C d P"
    and "\<And>d P pos Q. \<not> OnDone P \<Longrightarrow> \<not> OnReadBody P \<Longrightarrow> find_str crlf d = Some pos \<Longrightarrow>
      ParseLine (rpReadingLine P @ take pos d) P = (True, Q) \<Longrightarrow> C (drop (pos + 2) d) (Q\<lparr>rpReadingLine := []\<rparr>) \<Longrightarrow> C d P"
  shows "C d P"
proof (induction "length d" arbitrary: d P rule: less_induct)
  case (less d P)
  show ?case
  proof (cases "OnDone P \<or> OnReadBody P \<or> find_str crlf d = None")
    case False
    then obtain pos where pos: "find_str crlf d = Some pos" by auto
    obtain ok Q where q: "ParseLine (rpReadingLine P @ take pos d) P = (ok, Q)" by fastforce
    have "length (drop (pos + 2) d) < length d" using find_str_bound [OF pos] by (simp add: crlf_def)
    then have "C (drop (pos + 2) d) (Q\<lparr>rpReadingLine := []\<rparr>)" by (rule less)
    then show ?thesis using False pos q assms(2) [of P d pos Q] assms(3) [of P d pos Q] by (cases ok) simp_all
  qed (rule assms(1))
qed

text \<open>
  What matters of an outcome: the bytes not yet taken into a line, those kept in \<open>m_readingLine\<close>
  included, and the parser.
\<close>

definition head_end :: "(nat \<times> request_parser) + (string \<times> request_parser) \<Rightarrow> (string \<times> request_parser) option" where
  "head_end x = (case x of Inl _ \<Rightarrow> None | Inr (r, P) \<Rightarrow> Some (rpReadingLine P @ r, P\<lparr>rpReadingLine := []\<rparr>))"

lemma parse_lines_joined:
  assumes "find_str crlf (rpReadingLine P) = None" "safe_cut (rpReadingLine P) d"
  shows "head_end (parse_lines d P) = head_end (parse_lines (rpReadingLine P @ d) (P\<lparr>rpReadingLine := []\<rparr>))"
proof (cases "OnDone P \<or> OnReadBody P \<or> find_str crlf d = None")
  case True
  then show ?thesis using find_crlf_append [OF assms] by (auto simp: parse_lines_stop head_end_def)
next
  case False
  then obtain pos where pos: "find_str crlf d = Some pos" by auto
  then have pos': "find_str crlf (rpReadingLine P @ d) = Some (length (rpReadingLine P) + pos)"
    using find_crlf_append [OF assms] by simp
  show ?thesis
    using False pos pos' parse_lines_eq [of d P] parse_lines_eq [of "rpReadingLine P @ d" "P\<lparr>rpReadingLine := []\<rparr>"]
    by (auto simp: ParseLine_frame(1) head_end_def split: prod.split bool.split)
qed

lemma parse_lines_more:
  assumes "rpReadingLine P = []" "parse_lines a P = Inr (r, Q)"
  shows "parse_lines (a @ b) P = parse_lines (r @ b) Q"
  using assms
proof (induction a P rule: parse_lines_induct)
  case (stop a P)
  then show ?case by (simp add: parse_lines_stop)
next
  case (refused a P pos Q')
  then show ?case using parse_lines_bad [of P a pos Q'] by auto
next
  case (taken a P pos Q')
  have b: "pos + 2 \<le> length a" using find_str_bound [OF taken(3)] by (simp add: crlf_def)
  have f: "find_str crlf (a @ b) = Some pos" using find_str_extend [OF taken(3)] by (simp add: crlf_def)
  have "parse_lines (drop (pos + 2) a) (Q'\<lparr>rpReadingLine := []\<rparr>) = Inr (r, Q)"
    using taken by (simp add: parse_lines_next)
  then have "parse_lines (drop (pos + 2) a @ b) (Q'\<lparr>rpReadingLine := []\<rparr>) = parse_lines (r @ b) Q"
    by (intro taken(5)) simp_all
  with taken f b show ?case by (simp add: parse_lines_next [of P "a @ b" pos Q'])
qed

lemma parse_lines_bad_more:
  assumes "rpReadingLine P = []" "parse_lines a P = Inl x"
  shows "\<exists>y. parse_lines (a @ b) P = Inl y"
  using assms
proof (induction a P rule: parse_lines_induct)
  case (stop a P)
  then show ?case by (simp add: parse_lines_stop)
next
  case (refused a P pos Q)
  have b: "pos + 2 \<le> length a" using find_str_bound [OF refused(3)] by (simp add: crlf_def)
  have f: "find_str crlf (a @ b) = Some pos" using find_str_extend [OF refused(3)] by (simp add: crlf_def)
  show ?case using parse_lines_bad [OF refused(1,2) f, of Q] refused b by auto
next
  case (taken a P pos Q)
  have b: "pos + 2 \<le> length a" using find_str_bound [OF taken(3)] by (simp add: crlf_def)
  have f: "find_str crlf (a @ b) = Some pos" using find_str_extend [OF taken(3)] by (simp add: crlf_def)
  with taken b show ?case by (simp add: parse_lines_next [of P _ pos Q])
qed

lemma length_line: "P\<lparr>rpReadLength := n, rpReadingLine := x\<rparr> = P\<lparr>rpReadingLine := x, rpReadLength := n\<rparr>"
  by simp

lemma parse_lines_length:
  "parse_lines d (P\<lparr>rpReadLength := n\<rparr>) =
   map_sum (apsnd (\<lambda>Q. Q\<lparr>rpReadLength := n\<rparr>)) (apsnd (\<lambda>Q. Q\<lparr>rpReadLength := n\<rparr>)) (parse_lines d P)"
proof (induction d P rule: parse_lines_induct)
  case (stop d P)
  then show ?case by (subst (1 2) parse_lines_stop) auto
next
  case (refused d P pos Q)
  then show ?case by (subst (1 2) parse_lines_eq) (simp add: ParseLine_frame(2))
next
  case (taken d P pos Q)
  then show ?case by (subst (1 2) parse_lines_eq) (simp add: ParseLine_frame(2) length_line)
qed

lemma parse_lines_rest:
  assumes "parse_lines d P = Inr (r, Q)" "rpReadingLine P = []"
  shows "rpReadingLine Q = []" "rpReadLength Q = rpReadLength P" "OnDone Q \<or> OnReadBody Q \<or> find_str crlf r = None"
    "\<exists>c. d = c @ r"
proof -
  have "rpReadingLine Q = [] \<and> rpReadLength Q = rpReadLength P \<and> (OnDone Q \<or> OnReadBody Q \<or> find_str crlf r = None) \<and> (\<exists>c. d = c @ r)"
    using assms
  proof (induction d P rule: parse_lines_induct)
    case (stop d P)
    then show ?case by (auto simp: parse_lines_stop)
  next
    case (refused d P pos Q')
    then show ?case using parse_lines_bad [of P d pos Q'] by auto
  next
    case (taken d P pos Q')
    then have "rpReadLength Q' = rpReadLength P" using ParseLine_keeps by blast
    with taken obtain c where "drop (pos + 2) d = c @ r" "rpReadingLine Q = [] \<and> rpReadLength Q = rpReadLength P \<and> (OnDone Q \<or> OnReadBody Q \<or> find_str crlf r = None)"
      by (auto simp: parse_lines_next)
    moreover have "d = take (pos + 2) d @ drop (pos + 2) d" by simp
    ultimately show ?case by (metis append.assoc)
  qed
  then show "rpReadingLine Q = []" "rpReadLength Q = rpReadLength P" "OnDone Q \<or> OnReadBody Q \<or> find_str crlf r = None" "\<exists>c. d = c @ r"
    by simp_all
qed


section \<open>The text of a request\<close>

definition header_line :: "string \<times> string \<Rightarrow> string" where
  "header_line h = fst h @ '': '' @ snd h @ crlf"

definition head_text :: "string \<Rightarrow> string \<Rightarrow> string \<Rightarrow> (string \<times> string) list \<Rightarrow> string" where
  "head_text m uri v hs = m @ '' '' @ uri @ '' '' @ v @ crlf @ concat (map header_line hs) @ crlf"

definition well_formed :: "string \<Rightarrow> string \<Rightarrow> string \<Rightarrow> (string \<times> string) list \<Rightarrow> bool" where
  "well_formed m uri v hs \<longleftrightarrow> CHR '' '' \<notin> set m \<and> CHR 0x0D \<notin> set m \<and> CHR '' '' \<notin> set uri \<and> CHR 0x0D \<notin> set uri \<and>
     StringToVersion v \<noteq> V_kUnknown \<and>
     list_all (\<lambda>(k, w). CHR '':'' \<notin> set k \<and> CHR 0x0D \<notin> set k \<and> CHR 0x0D \<notin> set w) hs"

definition request_of :: "string \<Rightarrow> string \<Rightarrow> string \<Rightarrow> (string \<times> string) list \<Rightarrow> string \<Rightarrow> http_request" where
  "request_of m uri v hs body =
     LoadPathAndQuery uri \<lparr>hrMethod = StringToMethod m, hrVersion = StringToVersion v, hrPath = [], hrQuery = [],
       hrHeaders = map_of hs, hrContent = body\<rparr>"

definition after_head :: "request_parser \<Rightarrow> request_parser" where
  "after_head P =
     (case hrHeaders (rpReq P) ''Content-Length'' of
        Some v \<Rightarrow> P\<lparr>rpContentLength := word_of_int (atoll (c_str v)), rpState := http_context\<rparr>
      | None \<Rightarrow> P\<lparr>rpState := end_state\<rparr>)"

lemma parse_one_line:
  assumes "\<not> OnDone P" "\<not> OnReadBody P" "rpReadingLine P = []" "CHR 0x0D \<notin> set line" "ParseLine line P = (True, Q)"
  shows "parse_lines (line @ crlf @ rest) P = parse_lines rest Q"
proof -
  have "drop (length line + 2) (line @ crlf @ rest) = rest" by (simp add: crlf_def)
  moreover have "Q\<lparr>rpReadingLine := []\<rparr> = Q" using ParseLine_keeps [OF assms(5)] assms(3) by simp
  ultimately show ?thesis
    using parse_lines_next [OF assms(1,2) find_crlf_line [OF assms(4)], where Q = Q] assms(3,5) by simp
qed

lemma parse_headers:
  assumes "rpState P = http_header" "rpReadingLine P = []"
    and "list_all (\<lambda>(k, w). CHR '':'' \<notin> set k \<and> CHR 0x0D \<notin> set k \<and> CHR 0x0D \<notin> set w) hs"
  shows "parse_lines (concat (map header_line hs) @ crlf @ rest) P =
    Inr (rest, after_head (P\<lparr>rpReq := (rpReq P)\<lparr>hrHeaders := map_of hs ++ hrHeaders (rpReq P)\<rparr>\<rparr>))"
  using assms
proof (induction hs arbitrary: P)
  case Nil
  have "ParseLine [] P = (True, after_head P)" using Nil by (simp add: ParseLine_def after_head_def split: option.split)
  then have "parse_lines ([] @ crlf @ rest) P = parse_lines rest (after_head P)"
    using Nil by (intro parse_one_line) (simp_all add: OnDone_def OnReadBody_def)
  moreover have "OnDone (after_head P) \<or> OnReadBody (after_head P)"
    by (auto simp: after_head_def OnDone_def OnReadBody_def split: option.split)
  ultimately show ?case using parse_lines_stop [of "after_head P" rest] by auto
next
  case (Cons h hs)
  obtain k w where h: "h = (k, w)" by fastforce
  let ?h = "hrHeaders (rpReq P)"
  let ?h' = "if ?h k = None then ?h(k \<mapsto> w) else ?h"
  let ?Q = "P\<lparr>rpReq := (rpReq P)\<lparr>hrHeaders := ?h'\<rparr>\<rparr>"
  have k: "CHR '':'' \<notin> set k" "CHR 0x0D \<notin> set k" "CHR 0x0D \<notin> set w" using Cons(4) h by simp_all
  let ?rest = "concat (map header_line hs) @ crlf @ rest"
  have "ParseLine (k @ '': '' @ w) P = (True, ?Q)"
    using Cons(2) find_colon [OF k(1), of w] by (simp add: ParseLine_def Let_def substr_to_def substr_after_def)
  then have "parse_lines ((k @ '': '' @ w) @ crlf @ ?rest) P = parse_lines ?rest ?Q"
    using Cons(2,3) k by (intro parse_one_line) (auto simp: OnDone_def OnReadBody_def)
  then have "parse_lines (concat (map header_line (h # hs)) @ crlf @ rest) P = parse_lines ?rest ?Q"
    by (simp add: h header_line_def)
  also have "parse_lines ?rest ?Q = Inr (rest, after_head (?Q\<lparr>rpReq := (rpReq ?Q)\<lparr>hrHeaders := map_of hs ++ hrHeaders (rpReq ?Q)\<rparr>\<rparr>))"
    using Cons by (intro Cons.IH) simp_all
  also have "map_of hs ++ ?h' = map_of (h # hs) ++ ?h" by (rule ext) (auto simp: h map_add_def split: option.split)
  then have "?Q\<lparr>rpReq := (rpReq ?Q)\<lparr>hrHeaders := map_of hs ++ hrHeaders (rpReq ?Q)\<rparr>\<rparr> = P\<lparr>rpReq := (rpReq P)\<lparr>hrHeaders := map_of (h # hs) ++ ?h\<rparr>\<rparr>"
    by simp
  finally show ?case .
qed

lemma version_chars:
  "StringToVersion v \<noteq> V_kUnknown \<Longrightarrow> CHR '' '' \<notin> set v \<and> CHR 0x0D \<notin> set v"
  by (auto simp: StringToVersion_def split: if_splits)

lemma parse_request_line:
  assumes "well_formed m uri v hs" "rpState P = method_uri_version" "rpReq P = Request_Reset"
  shows "ParseLine (m @ '' '' @ uri @ '' '' @ v) P =
    (True, P\<lparr>rpReq := (request_of m uri v [] []), rpState := http_header\<rparr>)"
proof -
  have "find_str '' '' (m @ '' '' @ uri @ '' '' @ v) = Some (length m)" "find_str '' '' (uri @ '' '' @ v) = Some (length uri)"
    "find_str '' '' v = None"
    using assms(1) find_one(1) [of "CHR '' ''" m "uri @ '' '' @ v"] find_one(1) [of "CHR '' ''" uri v] find_one(2) [of "CHR '' ''" v]
      version_chars [of v] by (simp_all add: well_formed_def)
  then show ?thesis using assms
    by (auto simp: ParseLine_def Let_def substr_to_def substr_after_def well_formed_def request_of_def LoadPathAndQuery_def
        Request_Reset_def split: option.split)
qed

lemma request_of_headers:
  "hrHeaders (request_of m uri v hs body) = map_of hs" "(request_of m uri v hs [])\<lparr>hrContent := body\<rparr> = request_of m uri v hs body"
  by (auto simp: request_of_def LoadPathAndQuery_def split: option.split)

lemma request_of_set_headers: "(request_of m uri v [] [])\<lparr>hrHeaders := map_of hs\<rparr> = request_of m uri v hs []"
  by (auto simp: request_of_def LoadPathAndQuery_def split: option.split)

lemma parse_head:
  assumes "well_formed m uri v hs"
  shows "parse_lines (head_text m uri v hs @ rest) RequestParser =
    Inr (rest, after_head (RequestParser\<lparr>rpState := http_header, rpReq := request_of m uri v hs []\<rparr>))"
proof -
  let ?line = "m @ '' '' @ uri @ '' '' @ v" and ?rest = "concat (map header_line hs) @ crlf @ rest"
  let ?P = "RequestParser\<lparr>rpReq := request_of m uri v [] [], rpState := http_header\<rparr>"
  have "CHR 0x0D \<notin> set ?line" using assms version_chars [of v] by (auto simp: well_formed_def)
  then have "parse_lines (?line @ crlf @ ?rest) RequestParser = parse_lines ?rest ?P"
    using parse_request_line [OF assms, of RequestParser]
    by (intro parse_one_line) (simp_all add: RequestParser_def OnDone_def OnReadBody_def)
  also have "parse_lines ?rest ?P = Inr (rest, after_head (?P\<lparr>rpReq := (rpReq ?P)\<lparr>hrHeaders := map_of hs ++ hrHeaders (rpReq ?P)\<rparr>\<rparr>))"
    using assms by (intro parse_headers) (simp_all add: RequestParser_def well_formed_def)
  finally show ?thesis by (simp add: head_text_def request_of_headers request_of_set_headers)
qed


section \<open>Feeding a request in chunks\<close>

fun feed :: "string list \<Rightarrow> request_parser \<Rightarrow> result_type \<times> request_parser" where
  "feed [] P = (indeterminate, P)"
| "feed (c # cs) P = (case Parse c P of (res, _, P') \<Rightarrow> if res = indeterminate then feed cs P' else (res, P'))"

definition body_announced :: "(string \<times> string) list \<Rightarrow> string \<Rightarrow> bool" where
  "body_announced hs body \<longleftrightarrow>
     (case map_of hs ''Content-Length'' of None \<Rightarrow> body = []
      | Some v \<Rightarrow> atoll (c_str v) = int (length body) \<and> body \<noteq> [] \<and> length body < 2 ^ 63)"

lemma parse_lines_moved:
  assumes "parse_lines d P = Inr (r, Q)" "\<not> OnDone P" "\<not> OnReadBody P" "OnDone Q \<or> OnReadBody Q"
  shows "rpReadingLine Q = []"
proof -
  obtain pos where pos: "find_str crlf d = Some pos" using assms parse_lines_stop [of P d] by (cases "find_str crlf d") auto
  obtain ok Q' where q: "ParseLine (rpReadingLine P @ take pos d) P = (ok, Q')" by fastforce
  with assms(1) parse_lines_bad [OF assms(2,3) pos] have "ok" by (cases ok) fastforce+
  with q have "parse_lines (drop (pos + 2) d) (Q'\<lparr>rpReadingLine := []\<rparr>) = Inr (r, Q)"
    using parse_lines_next [OF assms(2,3) pos] assms(1) by simp
  then show ?thesis by (rule parse_lines_rest(1)) simp
qed

definition in_body :: "string \<Rightarrow> string \<Rightarrow> string \<Rightarrow> (string \<times> string) list \<Rightarrow> string \<Rightarrow> string \<Rightarrow> request_parser" where
  "in_body m uri v hs body b =
     RequestParser\<lparr>rpState := http_context, rpReq := request_of m uri v hs b, rpContentLength := size_of body\<rparr>"

lemma after_head_body:
  assumes "body_announced hs body"
  shows "after_head (RequestParser\<lparr>rpState := http_header, rpReq := request_of m uri v hs []\<rparr>) =
    (if body = [] then RequestParser\<lparr>rpState := end_state, rpReq := request_of m uri v hs []\<rparr> else in_body m uri v hs body [])"
  using assms by (auto simp: after_head_def body_announced_def request_of_headers in_body_def size_of_def split: option.splits)

lemma request_of_content [simp]:
  "hrContent (request_of m uri v hs b) = b" "(request_of m uri v hs b)\<lparr>hrContent := x\<rparr> = request_of m uri v hs x"
  by (auto simp: request_of_def LoadPathAndQuery_def split: option.split)

lemma Parse_body:
  assumes "parse_lines c P = Inr (d, Q)" "Q = (in_body m uri v hs body b)\<lparr>rpReadingLine := r, rpReadLength := n\<rparr>"
    and "body = b @ d @ rest" "d \<noteq> [] \<or> rest \<noteq> []" "rpReadLength P = n" "n + length c \<le> k_http_max_size" "n < k_http_max_size"
    and "length body < 2 ^ 63"
  shows "if rest = [] then fst (Parse c P) = good \<and> rpReq (snd (snd (Parse c P))) = request_of m uri v hs body
    else \<exists>r'. Parse c P = (indeterminate, length c,
      (in_body m uri v hs body (b @ d))\<lparr>rpReadingLine := r', rpReadLength := n + length c\<rparr>)"
proof -
  have len: "unat (size_of body) = length body" using assms(8) by (intro unat_size_of) simp
  have take: "min (length c) (k_http_max_size - n) = length c" using assms(6) by simp
  have body: "OnReadBody Q" "\<not> OnDone Q" "rpContentLength Q = size_of body" "hrContent (rpReq Q) = b"
    by (simp_all add: assms(2) in_body_def OnReadBody_def OnDone_def)
  show ?thesis
  proof (cases "rest = []")
    case True
    with body len assms(3,4) have "ParseBody d Q = (0, Q\<lparr>rpReq := (rpReq Q)\<lparr>hrContent := b @ d\<rparr>, rpState := end_state\<rparr>)" "d \<noteq> []"
      by (simp_all add: ParseBody_def)
    with True assms(1,3,5,7) take body show ?thesis
      by (simp add: Parse_def Let_def OnDone_def) (simp add: assms(2) in_body_def)
  next
    case False
    with body len assms(3) have "ParseBody d Q = (length rest, Q\<lparr>rpReq := (rpReq Q)\<lparr>hrContent := b @ d\<rparr>\<rparr>)"
      by (simp add: ParseBody_def)
    with False assms(1,5,7) take body
    have "Parse c P = (indeterminate, length c, (in_body m uri v hs body (b @ d))
      \<lparr>rpReadingLine := (if length rest \<ge> length d then r else r @ drop (length rest) d), rpReadLength := n + length c\<rparr>)"
      by (simp add: Parse_def Let_def OnDone_def) (simp add: assms(2) in_body_def)
    with False show ?thesis by auto
  qed
qed


text \<open>The parser when the bytes \<open>a\<close>, a proper prefix of the request, have been read.\<close>

definition fed :: "string \<Rightarrow> string \<Rightarrow> string \<Rightarrow> (string \<times> string) list \<Rightarrow> string \<Rightarrow> string \<Rightarrow> request_parser \<Rightarrow> bool" where
  "fed m uri v hs body a P \<longleftrightarrow>
     (\<exists>r Q. parse_lines a RequestParser = Inr (r, Q) \<and> \<not> OnDone Q \<and> \<not> OnReadBody Q \<and>
        P = Q\<lparr>rpReadingLine := r, rpReadLength := length a\<rparr>) \<or>
     (\<exists>b r. a = head_text m uri v hs @ b \<and> P = (in_body m uri v hs body b)\<lparr>rpReadingLine := r, rpReadLength := length a\<rparr>)"

lemma fed_bodyI:
  "a = head_text m uri v hs @ b \<Longrightarrow> n = length a \<Longrightarrow> fed m uri v hs body a ((in_body m uri v hs body b)\<lparr>rpReadingLine := r, rpReadLength := n\<rparr>)"
  unfolding fed_def by blast

lemma after_head_stops: "OnDone (after_head P) \<or> OnReadBody (after_head P)"
  by (auto simp: after_head_def OnDone_def OnReadBody_def split: option.split)

lemma safe_cut_suffix: "safe_cut (x @ r) (c @ d) \<Longrightarrow> safe_cut r c"
  by (auto simp: safe_cut_def)

lemma fed_step:
  assumes wf: "well_formed m uri v hs" "body_announced hs body"
    and t: "head_text m uri v hs @ body = a @ c @ rest" "c @ rest \<noteq> []"
    and len: "length (head_text m uri v hs @ body) \<le> k_http_max_size" "length body < 2 ^ 63"
    and fed: "fed m uri v hs body a P"
    and safe: "length a < length (head_text m uri v hs) \<Longrightarrow> safe_cut a (c @ rest)"
  shows "(rest = [] \<longrightarrow> fst (Parse c P) = good \<and> rpReq (snd (snd (Parse c P))) = request_of m uri v hs body) \<and>
    (rest \<noteq> [] \<longrightarrow> fst (Parse c P) = indeterminate \<and> fed m uri v hs body (a @ c) (snd (snd (Parse c P))))"
proof -
  let ?h = "head_text m uri v hs" and ?R = "request_of m uri v hs"
  let ?E = "if body = [] then RequestParser\<lparr>rpState := end_state, rpReq := ?R []\<rparr> else in_body m uri v hs body []"
  have full: "parse_lines (?h @ body) RequestParser = Inr (body, ?E)"
    using parse_head [OF wf(1), of body] after_head_body [OF wf(2), of m uri v] by simp
  have lens: "length a < k_http_max_size" "length a + length c \<le> k_http_max_size"
    using len(1) arg_cong [OF t(1), of length] t(2) by (auto simp flip: length_greater_0_conv)
  from fed consider
    (head) r Q where "parse_lines a RequestParser = Inr (r, Q)" "\<not> OnDone Q" "\<not> OnReadBody Q" "P = Q\<lparr>rpReadingLine := r, rpReadLength := length a\<rparr>"
  | (body) b r where "a = ?h @ b" "P = (in_body m uri v hs body b)\<lparr>rpReadingLine := r, rpReadLength := length a\<rparr>"
    unfolding fed_def by blast
  then show ?thesis
  proof cases
    case body
    have "parse_lines c P = Inr (c, P)" by (rule parse_lines_stop) (simp add: body(2) in_body_def OnReadBody_def)
    from Parse_body [OF this body(2), of rest] t body lens len(2) show ?thesis
      by (cases "rest = []") (auto intro!: fed_bodyI)
  next
    case head
    note r = parse_lines_rest [OF head(1)]
    have rl: "rpReadingLine Q = []" "find_str crlf r = None" using r(1,3) head(2,3) by (simp_all add: RequestParser_def)
    have more: "parse_lines (a @ x) RequestParser = parse_lines (r @ x) Q" for x
      using parse_lines_more [OF _ head(1)] by (simp add: RequestParser_def)
    obtain pre where pre: "a = pre @ r" using r(4) by (auto simp: RequestParser_def)
    have inhead: "length a < length ?h"
    proof (rule ccontr)
      assume "\<not> length a < length ?h"
      then obtain x where "a = ?h @ x" using t(1) by (metis append_eq_append_conv_if append_take_drop_id linorder_not_less)
      with parse_head [OF wf(1), of x] head(1-3) show False using after_head_stops by auto
    qed
    have unset: "Q\<lparr>rpReadingLine := [], rpReadLength := n\<rparr> = Q\<lparr>rpReadLength := n\<rparr>" for n using rl(1) by (cases Q) simp
    have "safe_cut r c" using safe [OF inhead] safe_cut_suffix pre by blast
    then have joined: "head_end (parse_lines c P) = head_end (parse_lines (r @ c) (Q\<lparr>rpReadLength := length a\<rparr>))"
      using parse_lines_joined [of P c] rl head(4) unset by (simp add: length_line)
    have "parse_lines (a @ c) RequestParser \<noteq> Inl x" for x
      using parse_lines_bad_more [of RequestParser "a @ c" x rest] full t(1) by (auto simp: RequestParser_def)
    then obtain r' Q' where ac: "parse_lines (a @ c) RequestParser = Inr (r', Q')"
      by (cases "parse_lines (a @ c) RequestParser") auto
    note r' = parse_lines_rest [OF ac]
    have rl': "rpReadingLine Q' = []" using r'(1) by (simp add: RequestParser_def)
    have "head_end (parse_lines c P) = Some (r', Q'\<lparr>rpReadLength := length a\<rparr>)"
      using joined ac more [of c] rl' by (simp add: parse_lines_length head_end_def)
    then obtain d P' where d: "parse_lines c P = Inr (d, P')" "rpReadingLine P' @ d = r'" "P'\<lparr>rpReadingLine := []\<rparr> = Q'\<lparr>rpReadLength := length a\<rparr>"
      by (auto simp: head_end_def split: sum.splits)
    have P': "OnDone P' = OnDone Q'" "OnReadBody P' = OnReadBody Q'" "rpReq P' = rpReq Q'" "rpReadLength P' = length a"
      using arg_cong [OF d(3), of OnDone] arg_cong [OF d(3), of OnReadBody] arg_cong [OF d(3), of rpReq] arg_cong [OF d(3), of rpReadLength]
      by simp_all
    have Pl: "\<not> OnDone P" "\<not> OnReadBody P" "rpReadLength P = length a" using head by simp_all
    show ?thesis
    proof (cases "OnDone Q' \<or> OnReadBody Q'")
      case False
      have "rest \<noteq> []" using False ac full t(1) by (auto simp: OnDone_def OnReadBody_def in_body_def split: if_splits)
      moreover have "Parse c P = (indeterminate, length c, P'\<lparr>rpReadingLine := r', rpReadLength := length a + length c\<rparr>)"
        using False d P' Pl lens by (simp add: Parse_def Let_def)
      moreover have "P'\<lparr>rpReadingLine := r', rpReadLength := length a + length c\<rparr> = Q'\<lparr>rpReadingLine := r', rpReadLength := length (a @ c)\<rparr>"
        using d(3) by (cases P'; cases Q'; simp)
      ultimately show ?thesis using False ac by (auto simp: fed_def)
    next
      case True
      then have "rpReadingLine P' = []" using parse_lines_moved [OF d(1) Pl(1,2)] P' by simp
      then have dr: "d = r'" "P' = Q'\<lparr>rpReadLength := length a\<rparr>" using d(2,3) by (cases P'; simp)+
      have "parse_lines (?h @ body) RequestParser = parse_lines (r' @ rest) Q'"
        using parse_lines_more [OF _ ac, of rest] t(1) by (simp add: RequestParser_def)
      also have "\<dots> = Inr (r' @ rest, Q')" using True by (intro parse_lines_stop) blast
      finally have "Inr (body, ?E) = (Inr (r' @ rest, Q') :: (nat \<times> request_parser) + (string \<times> request_parser))" using full by (simp only:)
      then have e: "r' @ rest = body" "?E = Q'" unfolding sum.inject prod.inject by blast+
      show ?thesis
      proof (cases "body = []")
        case True
        have "rpState Q' = end_state" "rpReq Q' = request_of m uri v hs []" using True e(2) by auto
        with True e(1) dr d(1) Pl lens show ?thesis by (simp add: Parse_def Let_def OnDone_def OnReadBody_def)
      next
        case False
        have "P' = (in_body m uri v hs body [])\<lparr>rpReadingLine := [], rpReadLength := length a\<rparr>"
          using e(2) [symmetric] dr False rl' by (simp add: in_body_def RequestParser_def)
        from Parse_body [OF d(1) this, of rest] e(1) dr Pl lens len(2) False
        have "if rest = [] then fst (Parse c P) = good \<and> rpReq (snd (snd (Parse c P))) = ?R body
          else \<exists>r''. Parse c P = (indeterminate, length c, (in_body m uri v hs body r')\<lparr>rpReadingLine := r'', rpReadLength := length a + length c\<rparr>)"
          by auto
        moreover have "a @ c = ?h @ r'" using t(1) e(1) by (metis append.assoc append_same_eq)
        ultimately show ?thesis by (cases "rest = []") (auto intro!: fed_bodyI simp del: length_append simp add: length_append [symmetric])
      qed
    qed
  qed
qed


lemma feed_request:
  assumes wf: "well_formed m uri v hs" "body_announced hs body"
    and len: "length (head_text m uri v hs @ body) \<le> k_http_max_size" "length body < 2 ^ 63"
    and t: "head_text m uri v hs @ body = a @ concat cs" "concat cs \<noteq> []" "fed m uri v hs body a P"
    and safe: "\<And>xs ys. cs = xs @ ys \<Longrightarrow> length (a @ concat xs) < length (head_text m uri v hs) \<Longrightarrow> safe_cut (a @ concat xs) (concat ys)"
  shows "fst (feed cs P) = good \<and> rpReq (snd (feed cs P)) = request_of m uri v hs body"
  using t safe
proof (induction cs arbitrary: a P)
  case (Cons c cs)
  have "safe_cut a (c @ concat cs)" if "length a < length (head_text m uri v hs)"
    using Cons(5) [of "[]" "c # cs"] that by simp
  then have step: "(concat cs = [] \<longrightarrow> fst (Parse c P) = good \<and> rpReq (snd (snd (Parse c P))) = request_of m uri v hs body) \<and>
    (concat cs \<noteq> [] \<longrightarrow> fst (Parse c P) = indeterminate \<and> fed m uri v hs body (a @ c) (snd (snd (Parse c P))))"
    using Cons(2-4) len by (intro fed_step [OF wf]) simp_all
  show ?case
  proof (cases "concat cs = []")
    case True
    with step show ?thesis by (auto split: prod.split)
  next
    case False
    have "fst (feed cs (snd (snd (Parse c P)))) = good \<and> rpReq (snd (feed cs (snd (snd (Parse c P))))) = request_of m uri v hs body"
    proof (rule Cons.IH [of "a @ c"])
      show "safe_cut ((a @ c) @ concat xs) (concat ys)" if "cs = xs @ ys" "length ((a @ c) @ concat xs) < length (head_text m uri v hs)" for xs ys
        using Cons(5) [of "c # xs" ys] that by simp
    qed (use False step Cons(2) in simp_all)
    with step False show ?thesis by (auto split: prod.split)
  qed
qed simp

definition cuts_safe :: "nat \<Rightarrow> string list \<Rightarrow> bool" where
  "cuts_safe n cs \<longleftrightarrow> (\<forall>xs ys. cs = xs @ ys \<longrightarrow> length (concat xs) < n \<longrightarrow> safe_cut (concat xs) (concat ys))"

text \<open>C29: A request is recognised however its bytes are cut into chunks, as long as no cut inside the head
  falls between a carriage return and its line feed: method, path, query, version, headers and
  body come out as they were written.\<close>

theorem http_request_any_fragmentation:
  assumes "well_formed m uri v hs" "body_announced hs body" "concat chunks = head_text m uri v hs @ body"
    and "length (head_text m uri v hs @ body) \<le> k_http_max_size" "cuts_safe (length (head_text m uri v hs)) chunks"
  shows "fst (feed chunks RequestParser) = good \<and> rpReq (snd (feed chunks RequestParser)) = request_of m uri v hs body"
proof (rule feed_request [OF assms(1,2,4), of "[]"])
  show "length body < 2 ^ 63" using assms(4) by (simp add: k_http_max_size_def)
  show "head_text m uri v hs @ body = [] @ concat chunks" "concat chunks \<noteq> []"
    using assms(3) by (simp_all add: head_text_def crlf_def)
  have "parse_lines [] RequestParser = Inr ([], RequestParser)" by (rule parse_lines_stop) (simp add: crlf_def)
  moreover have "\<not> OnDone RequestParser" "\<not> OnReadBody RequestParser" "RequestParser = RequestParser\<lparr>rpReadingLine := [], rpReadLength := length []\<rparr>"
    by (simp_all add: RequestParser_def OnDone_def OnReadBody_def)
  ultimately show "fed m uri v hs body [] RequestParser" unfolding fed_def by blast
  show "safe_cut ([] @ concat xs) (concat ys)"
    if "chunks = xs @ ys" "length ([] @ concat xs) < length (head_text m uri v hs)" for xs ys
    using assms(5) that by (simp add: cuts_safe_def)
qed

theorem http_request_any_fragmentation_witness:
  "rpReq (snd (feed [''POST /a?b HTTP'', ''/1.1'' @ crlf @ ''Content-Length: 3'' @ crlf @ crlf @ ''x'', ''yz''] RequestParser)) =
   \<lparr>hrMethod = M_kPost, hrVersion = V_kHttp11, hrPath = ''/a'', hrQuery = ''b'', hrHeaders = [''Content-Length'' \<mapsto> ''3''],
     hrContent = ''xyz''\<rparr>"
proof -
  let ?cs = "[''POST /a?b HTTP'', ''/1.1'' @ crlf @ ''Content-Length: 3'' @ crlf @ crlf @ ''x'', ''yz'']"
  have "fst (feed ?cs RequestParser) = good \<and>
    rpReq (snd (feed ?cs RequestParser)) = request_of ''POST'' ''/a?b'' ''HTTP/1.1'' [(''Content-Length'', ''3'')] ''xyz''"
  proof (rule http_request_any_fragmentation)
    show "body_announced [(''Content-Length'', ''3'')] ''xyz''"
      by (simp add: body_announced_def atoll_def c_str_def is_space_def is_digit_def digits_value_def digit_value_def clamp_int64_def)
    show "cuts_safe (length (head_text ''POST'' ''/a?b'' ''HTTP/1.1'' [(''Content-Length'', ''3'')])) ?cs"
      unfolding cuts_safe_def by (auto simp: safe_cut_def crlf_def Cons_eq_append_conv head_text_def header_line_def)
  qed (simp_all add: well_formed_def StringToVersion_def head_text_def header_line_def crlf_def k_http_max_size_def)
  then show ?thesis by (simp add: request_of_def LoadPathAndQuery_def StringToMethod_def StringToVersion_def)
qed


lemma StringToVersion_CR: "CHR 0x0D \<in> set s \<Longrightarrow> StringToVersion s = V_kUnknown"
  by (auto simp: StringToVersion_def)

lemma find_one_bound: "find_str [c] xs = Some i \<Longrightarrow> c \<notin> set a \<Longrightarrow> xs = a @ b \<Longrightarrow> length a \<le> i"
proof (induction a arbitrary: xs i)
  case (Cons x a)
  then show ?case by (cases i) (auto split: if_splits)
qed simp

lemma substr_to_prefix:
  assumes "CHR '' '' \<notin> set a"
  shows "\<exists>y. substr_to (find_str '' '' (a @ b)) (a @ b) = a @ y"
  using find_one_bound [of "CHR '' ''" "a @ b" _ a b] assms by (auto simp: substr_to_def split: option.split)

lemma substr_Some: "substr_after (Some i) k s = drop (i + k) s" "substr_to (Some i) s = take i s"
  by (simp_all add: substr_after_def substr_to_def)

lemma find_crlf_Some: "find_str crlf (x @ crlf @ y) \<noteq> None"
  by (induction x) (auto simp: find_crlf_Cons simp del: find_str.simps, simp add: crlf_def)

text \<open>A cut between the carriage return and the line feed that end the request line makes the parser
  refuse the request: the line feed stays at the front of the rest, and the next line end found is
  that of the following line.\<close>

theorem http_split_crlf_rejected:
  assumes "well_formed m uri v hs" "length (head_text m uri v hs @ body) \<le> k_http_max_size"
    and "head_text m uri v hs = (m @ '' '' @ uri @ '' '' @ v) @ crlf @ tail"
  shows "fst (feed [(m @ '' '' @ uri @ '' '' @ v) @ [CHR 0x0D], CHR 0x0A # tail @ body] RequestParser) = bad"
proof -
  let ?line = "m @ '' '' @ uri @ '' '' @ v" and ?d = "CHR 0x0A # tail @ body"
  let ?c = "?line @ [CHR 0x0D]"
  let ?P = "RequestParser\<lparr>rpReadingLine := ?c, rpReadLength := length ?c\<rparr>"
  have line: "CHR 0x0D \<notin> set ?line" using assms(1) version_chars [of v] by (auto simp: well_formed_def)
  have "find_str crlf ?c = map_option ((+) (length ?line)) (find_str crlf [CHR 0x0D])"
    by (rule find_crlf_append) (use find_crlf_None [OF line] in \<open>simp_all add: safe_cut_def\<close>)
  then have "parse_lines ?c RequestParser = Inr (?c, RequestParser)" by (intro parse_lines_stop) (simp add: crlf_def)
  moreover have tail: "tail = concat (map header_line hs) @ crlf" using assms(3) by (simp add: head_text_def)
  have len: "length ?c < k_http_max_size" "length ?c + length ?d \<le> k_http_max_size" using assms(2,3) by (simp_all add: crlf_def tail)
  ultimately have first: "Parse ?c RequestParser = (indeterminate, length ?c, ?P)"
    by (simp add: Parse_def Let_def RequestParser_def OnDone_def OnReadBody_def)
  obtain pos where pos: "find_str crlf ?d = Some pos"
    using find_crlf_Some [of "CHR 0x0A # concat (map header_line hs)" body] by (auto simp: tail)
  have pos0: "take pos ?d = CHR 0x0A # take (pos - 1) (tail @ body)"
    using pos by (cases pos) (auto simp: find_crlf_Cons simp del: find_str.simps)
  obtain x where x: "?c @ take pos ?d = m @ '' '' @ uri @ '' '' @ (v @ [CHR 0x0D]) @ x" using pos0 by simp
  have "CHR '' '' \<notin> set (v @ [CHR 0x0D])" using assms(1) version_chars [of v] by (auto simp: well_formed_def)
  from substr_to_prefix [OF this, of x] have "StringToVersion (substr_to (find_str '' '' ((v @ [CHR 0x0D]) @ x)) ((v @ [CHR 0x0D]) @ x)) = V_kUnknown"
    by (auto intro: StringToVersion_CR)
  moreover have "find_str '' '' (m @ '' '' @ uri @ '' '' @ (v @ [CHR 0x0D]) @ x) = Some (length m)"
    "find_str '' '' (uri @ '' '' @ (v @ [CHR 0x0D]) @ x) = Some (length uri)"
    using assms(1) find_one(1) [of "CHR '' ''" m] find_one(1) [of "CHR '' ''" uri] by (simp_all add: well_formed_def)
  ultimately have "\<exists>Q. ParseLine (m @ '' '' @ uri @ '' '' @ (v @ [CHR 0x0D]) @ x) ?P = (False, Q)"
    by (simp add: ParseLine_def Let_def substr_Some RequestParser_def)
  then obtain Q where "ParseLine (rpReadingLine ?P @ take pos ?d) ?P = (False, Q)" using x by auto
  then obtain Q' where "parse_lines ?d ?P = Inl (pos, Q')"
    using parse_lines_bad [OF _ _ pos, of ?P Q] by (auto simp: RequestParser_def OnDone_def OnReadBody_def)
  then have "fst (Parse ?d ?P) = bad" using len by (simp add: Parse_def Let_def RequestParser_def)
  with first show ?thesis by (auto split: prod.split)
qed

theorem http_split_crlf_rejected_witness:
  "fst (feed [''GET / HTTP/1.1'' @ [CHR 0x0D], CHR 0x0A # ''Host: x'' @ crlf @ crlf] RequestParser) = bad"
proof -
  have "fst (feed [(''GET'' @ '' '' @ ''/'' @ '' '' @ ''HTTP/1.1'') @ [CHR 0x0D], CHR 0x0A # (''Host: x'' @ crlf @ crlf) @ []] RequestParser) = bad"
    by (rule http_split_crlf_rejected [where hs = "[(''Host'', ''x'')]"])
      (simp_all add: well_formed_def StringToVersion_def head_text_def header_line_def crlf_def k_http_max_size_def)
  then show ?thesis by simp
qed

end
