(* ===== verification/Net_Http.thy ===== *)
theory Net_Http
  imports Http_Request Net_Buffer
begin

text \<open>
  \<open>NetHttpModule\<close> (common/net/net_http_module.h, net_http_module.cpp): the read callback that feeds a
  session's bytes to its request parser, the queue of complete requests the main loop empties, the
  choice of the handler for a path, and replies. Handlers are opaque values of a type \<open>'h\<close>; a call
  of one is recorded with its arguments.
\<close>

section \<open>State\<close>

record 'h net_http_module =
  htMapPackethandle :: "string \<rightharpoonup> 'h"
  htDefaultPacketHandle :: "'h option"
  htMsgFunction :: "(session_id_t \<times> http_request) list"
  htContext :: "session_id_t \<rightharpoonup> request_parser"
  htNetSessions :: "session_id_t set"
  htMainSessions :: "session_id_t set"
  htHandled :: "('h \<times> session_id_t \<times> http_request) list"
  htReplies :: "(session_id_t \<times> string) list"
  htClosed :: "session_id_t list"

definition NetHttpModule :: "'h net_http_module" where
  "NetHttpModule = \<lparr>htMapPackethandle = Map.empty, htDefaultPacketHandle = None, htMsgFunction = [], htContext = Map.empty,
     htNetSessions = {}, htMainSessions = {}, htHandled = [], htReplies = [], htClosed = []\<rparr>"

definition Http_RegisterPacketHandle :: "string \<Rightarrow> 'h option \<Rightarrow> 'h net_http_module \<Rightarrow> 'h net_http_module" where
  "Http_RegisterPacketHandle strHttpPath func s =
     (case func of None \<Rightarrow> s | Some f \<Rightarrow> s\<lparr>htMapPackethandle := (htMapPackethandle s)(strHttpPath \<mapsto> f)\<rparr>)"

definition Http_SetDefaultPacketHandle :: "'h option \<Rightarrow> 'h net_http_module \<Rightarrow> 'h net_http_module" where
  "Http_SetDefaultPacketHandle func s = s\<lparr>htDefaultPacketHandle := func\<rparr>"

section \<open>Replies\<close>

text \<open>The bytes the posted function of \<open>WriteData\<close> appends to the session.\<close>

definition reply_text :: "http_reply \<Rightarrow> string" where
  "reply_text respond =
     ToErrorHead (rpStatusCode respond) @ concat (map (\<lambda>(name, value). name @ '': '' @ value @ crlf) (rpHeaders respond)) @
     crlf @ rpContent respond"

definition Http_WriteData :: "session_id_t \<Rightarrow> http_reply \<Rightarrow> 'h net_http_module \<Rightarrow> bool \<times> 'h net_http_module" where
  "Http_WriteData sessionId respond s =
     (if sessionId \<notin> htMainSessions s then (False, s)
      else (True, s\<lparr>htReplies := htReplies s @ [(sessionId, reply_text respond)]\<rparr>))"

section \<open>Reading\<close>

text \<open>
  The loop of \<open>ReadData\<close>. \<open>readBuff\<close> and \<open>readSize\<close> are read once, before the loop, so every round
  parses the same bytes \<open>data\<close>, while the buffer loses what the parser reports as read.
\<close>

partial_function (option) http_read_loop ::
    "session_id_t \<Rightarrow> string \<Rightarrow> request_parser \<Rightarrow> session_buffer \<Rightarrow> (session_id_t \<times> http_request) list \<Rightarrow>
     (bool \<times> request_parser \<times> session_buffer \<times> (session_id_t \<times> http_request) list) option" where
  "http_read_loop sessionId data P buf q =
     (if Empty buf then Some (True, P, buf, q)
      else case Parse data P of
             (result, read_len, P) \<Rightarrow>
               if result = bad then Some (False, P, buf, q)
               else if result = good
               then http_read_loop sessionId data (Parser_Reset P) (RemoveData (word_of_nat read_len) buf) (q @ [(sessionId, rpReq P)])
               else http_read_loop sessionId data P (RemoveData (word_of_nat read_len) buf) q)"

definition Http_ReadData ::
    "session_id_t \<Rightarrow> session_buffer \<Rightarrow> 'h net_http_module \<Rightarrow> (bool \<times> session_buffer \<times> 'h net_http_module) option" where
  "Http_ReadData sessionId buf s =
     (if sessionId \<notin> htNetSessions s then Some (False, buf, s)
      else let pContext = (case htContext s sessionId of None \<Rightarrow> RequestParser | Some P \<Rightarrow> P);
               data = take (unat (GetReadableSize buf)) (GetReadData buf)
           in case http_read_loop sessionId data pContext buf (htMsgFunction s) of
                None \<Rightarrow> None
              | Some (ok, P, buf, q) \<Rightarrow>
                  let s = s\<lparr>htContext := (htContext s)(sessionId \<mapsto> P), htMsgFunction := q\<rparr>
                  in if ok then Some (True, buf, s) else Some (False, buf, snd (Http_WriteData sessionId (BadReply 400) s)))"

section \<open>The handler of a path\<close>

definition rfind_char :: "char \<Rightarrow> string \<Rightarrow> nat \<Rightarrow> nat option" where
  "rfind_char c s n = List.find (\<lambda>k. s ! k = c) (rev [0..<min (Suc n) (length s)])"

lemma find_in_set: "List.find Q xs = Some x \<Longrightarrow> x \<in> set xs \<and> Q x"
  by (induction xs) (auto split: if_splits)

lemma rfind_char_bound: "rfind_char c s n = Some k \<Longrightarrow> k \<le> n \<and> k < length s \<and> s ! k = c"
  by (auto simp: rfind_char_def dest: find_in_set)

text \<open>
  The loop over the prefixes that end in a slash. \<open>npos\<close> becomes -1 in the signed \<open>nPos\<close>, so the
  empty path is looked up; the loop goes on while the position before the slash is positive.
\<close>

function prefix_handler :: "(string \<rightharpoonup> 'h) \<Rightarrow> string \<Rightarrow> nat \<Rightarrow> 'h option" where
  "prefix_handler hs path nPos =
     (case rfind_char (CHR ''/'') path nPos of
        None \<Rightarrow> hs []
      | Some k \<Rightarrow>
          (case hs (take (k + 1) path) of
             Some h \<Rightarrow> Some h
           | None \<Rightarrow> if k > 1 then prefix_handler hs path (k - 1) else None))"
  by pat_completeness auto
termination
  by (relation "measure (\<lambda>(_, _, n). n)") (auto dest!: rfind_char_bound)

declare prefix_handler.simps [simp del]

definition call_handler :: "'h \<Rightarrow> session_id_t \<Rightarrow> http_request \<Rightarrow> 'h net_http_module \<Rightarrow> 'h net_http_module" where
  "call_handler h sessionId req s = s\<lparr>htHandled := htHandled s @ [(h, sessionId, req)]\<rparr>"

definition ReadHttpPacket :: "session_id_t \<Rightarrow> http_request \<Rightarrow> 'h net_http_module \<Rightarrow> bool \<times> 'h net_http_module" where
  "ReadHttpPacket sessionId req s =
     (case htMapPackethandle s (hrPath req) of
        Some h \<Rightarrow> (True, call_handler h sessionId req s)
      | None \<Rightarrow>
          (case prefix_handler (htMapPackethandle s) (hrPath req) (length (hrPath req)) of
             Some h \<Rightarrow> (True, call_handler h sessionId req s)
           | None \<Rightarrow>
               (case htDefaultPacketHandle s of
                  Some h \<Rightarrow> (True, call_handler h sessionId req s)
                | None \<Rightarrow>
                    let s = snd (Http_WriteData sessionId (BadReply 404) s)
                    in (False, s\<lparr>htClosed := htClosed s @ [sessionId]\<rparr>))))"

definition Http_OnUpdate :: "'h net_http_module \<Rightarrow> 'h net_http_module" where
  "Http_OnUpdate s =
     fold (\<lambda>(sessionId, req) s. snd (ReadHttpPacket sessionId req s)) (htMsgFunction s) (s\<lparr>htMsgFunction := []\<rparr>)"

section \<open>The read loop ends\<close>

lemma parse_lines_shorter:
  assumes "parse_lines d P = Inr (r, Q)" "\<not> OnDone P" "\<not> OnReadBody P" "OnDone Q \<or> OnReadBody Q"
  shows "length r < length d"
proof -
  obtain pos where pos: "find_str crlf d = Some pos" using assms parse_lines_stop [of P d] by (cases "find_str crlf d") auto
  obtain ok Q' where q: "ParseLine (rpReadingLine P @ take pos d) P = (ok, Q')" by fastforce
  with assms(1) parse_lines_bad [OF assms(2,3) pos] have "ok" by (cases ok) fastforce+
  with q have "parse_lines (drop (pos + 2) d) (Q'\<lparr>rpReadingLine := []\<rparr>) = Inr (r, Q)"
    using parse_lines_next [OF assms(2,3) pos] assms(1) by simp
  then obtain c where "drop (pos + 2) d = c @ r" using parse_lines_rest(4) by fastforce
  then have "length r \<le> length d - (pos + 2)" by (metis length_append length_drop le_add2)
  moreover have "pos + 2 \<le> length d" using find_str_bound [OF pos] by (simp add: crlf_def)
  ultimately show ?thesis by linarith
qed

lemma ParseBody_cases:
  "ParseBody d P = (n, Q) \<Longrightarrow> OnReadBody P \<Longrightarrow> (n = 0 \<and> OnDone Q \<and> \<not> OnReadBody Q) \<or> (\<not> OnDone Q \<and> OnReadBody Q)"
  by (auto simp: ParseBody_def Let_def OnDone_def OnReadBody_def split: if_splits)

lemma Parse_progress:
  assumes "Parse data P = (res, n, Q)" "res \<noteq> bad" "data \<noteq> []"
  shows "n \<le> length data" "0 < n \<or> (res = good \<and> (OnDone P \<or> OnReadBody P))"
proof -
  let ?l = "min (length data) (k_http_max_size - rpReadLength P)"
  have room: "rpReadLength P < k_http_max_size" using assms(1,2) by (auto simp: Parse_def split: if_splits)
  then have l: "0 < ?l" "?l \<le> length data" using assms(3) by auto
  obtain r P' where pl: "parse_lines (take ?l data) P = Inr (r, P')"
    using assms(1,2) room by (cases "parse_lines (take ?l data) P") (auto simp: Parse_def Let_def)
  have "length (take ?l data) = ?l" by simp
  then have short: "length r < ?l" if "\<not> OnDone P" "\<not> OnReadBody P" "OnDone P' \<or> OnReadBody P'"
    using parse_lines_shorter [OF pl that] by metis
  have res: "(res = indeterminate \<and> n = ?l) \<or> (res = good \<and> n \<le> ?l \<and> (OnDone P' \<or> OnReadBody P') \<and> ?l - length r \<le> n)"
  proof (cases "OnReadBody P'")
    case False
    then show ?thesis using assms(1) room pl by (auto simp: Parse_def Let_def split: if_splits)
  next
    case True
    obtain k Q' where pb: "ParseBody r P' = (k, Q')" by fastforce
    from ParseBody_cases [OF pb True] show ?thesis using assms(1) room pl True pb by (auto simp: Parse_def Let_def split: if_splits)
  qed
  then show "n \<le> length data" using l by auto
  show "0 < n \<or> (res = good \<and> (OnDone P \<or> OnReadBody P))" using res l short by linarith
qed

lemma http_read_loop_returns:
  assumes "buffer_inv buf" "data \<noteq> []" "length data < 2 ^ 64"
  shows "\<exists>r. http_read_loop sessionId data P buf q = Some r"
  using assms(1)
proof (induction "(length (unread buf), if OnDone P \<or> OnReadBody P then 1 else (0 :: nat))" arbitrary: buf P q
    rule: wf_induct_rule [OF wf_lex_prod [OF wf_less_than wf_less_than]])
  case (1 buf P q)
  show ?case
  proof (cases "Empty buf")
    case True
    then have "http_read_loop sessionId data P buf q = Some (True, P, buf, q)" by (subst http_read_loop.simps) simp
    then show ?thesis by blast
  next
    case False
    obtain res n Q where p: "Parse data P = (res, n, Q)" by (cases "Parse data P") auto
    let ?b = "RemoveData (word_of_nat n) buf"
    show ?thesis
    proof (cases "res = bad")
      case True
      with False p have "http_read_loop sessionId data P buf q = Some (False, Q, buf, q)" by (subst http_read_loop.simps) simp
      then show ?thesis by blast
    next
      case ok: False
      note pr = Parse_progress [OF p ok assms(2)]
      have n: "unat (word_of_nat n :: size_t) = n" using pr(1) assms(3) by (intro unat_of_nat_size) simp
      have b: "buffer_inv ?b" "length (unread ?b) = length (unread buf) - n" using 1(2) n by (simp_all add: RemoveData_inv unread_RemoveData)
      have ne: "0 < length (unread buf)" using False 1(2) by (simp add: Empty_iff)
      have "\<exists>r. http_read_loop sessionId data Q ?b q = Some r" if "res \<noteq> good"
        by (rule 1(1)) (use b ne pr(2) that in auto)
      moreover have "\<exists>r. http_read_loop sessionId data (Parser_Reset Q) ?b (q @ [(sessionId, rpReq Q)]) = Some r" if "res = good"
        by (rule 1(1)) (use b ne pr(2) that in \<open>auto simp: Parser_Reset_def RequestParser_def OnDone_def OnReadBody_def\<close>)
      ultimately show ?thesis using False p ok by (subst http_read_loop.simps) (cases res; simp)
    qed
  qed
qed



section \<open>The same bytes again\<close>

lemma http_read_loop_again:
  assumes "Parse data RequestParser = (good, n, Q)" "0 < n" "n \<le> length data" "length data < 2 ^ 64"
  shows "buffer_inv buf \<Longrightarrow> http_read_loop sessionId data RequestParser buf q =
    Some (True, RequestParser, (RemoveData (word_of_nat n) ^^ ((length (unread buf) + n - 1) div n)) buf,
      q @ replicate ((length (unread buf) + n - 1) div n) (sessionId, rpReq Q))"
proof (induction "length (unread buf)" arbitrary: buf q rule: less_induct)
  case less
  show ?case
  proof (cases "unread buf = []")
    case True
    then have "(length (unread buf) + n - 1) div n = 0" using assms(2) by simp
    then show ?thesis using True less(2) by (subst http_read_loop.simps) (simp add: Empty_iff)
  next
    case False
    let ?b = "RemoveData (word_of_nat n) buf"
    have n: "unat (word_of_nat n :: size_t) = n" using assms(3,4) by (intro unat_of_nat_size) simp
    have b: "buffer_inv ?b" "length (unread ?b) = length (unread buf) - n" using less(2) n by (simp_all add: RemoveData_inv unread_RemoveData)
    have "length (unread ?b) < length (unread buf)" using b False assms(2) by (simp add: diff_less)
    from less(1) [OF this b(1)]
    have rec: "http_read_loop sessionId data RequestParser ?b q' =
      Some (True, RequestParser, (RemoveData (word_of_nat n) ^^ ((length (unread ?b) + n - 1) div n)) ?b,
        q' @ replicate ((length (unread ?b) + n - 1) div n) (sessionId, rpReq Q))" for q' .
    have k: "(length (unread buf) + n - 1) div n = Suc ((length (unread ?b) + n - 1) div n)"
    proof -
      have pos: "0 < length (unread buf)" using False by simp
      show ?thesis
      proof (cases "n \<le> length (unread buf)")
        case True
        then have "length (unread buf) + n - 1 = n + (length (unread ?b) + n - 1)" using b(2) assms(2) by linarith
        also have "\<dots> div n = Suc ((length (unread ?b) + n - 1) div n)" using assms(2) by (subst div_add_self1) simp_all
        finally show ?thesis .
      next
        case False
        then have "length (unread ?b) = 0" using b(2) by simp
        moreover have "(length (unread buf) + n - 1) div n = 1"
        proof -
          have "length (unread buf) + n - 1 = n + (length (unread buf) - 1)" using pos by linarith
          also have "\<dots> div n = Suc ((length (unread buf) - 1) div n)" using assms(2) by (subst div_add_self1) simp_all
          also have "(length (unread buf) - 1) div n = 0" using False by (intro div_less) linarith
          finally show ?thesis by simp
        qed
        ultimately show ?thesis using assms(2) by simp
      qed
    qed
    have "http_read_loop sessionId data RequestParser buf q = http_read_loop sessionId data RequestParser ?b (q @ [(sessionId, rpReq Q)])"
      using False less(2) assms(1) by (subst http_read_loop.simps) (simp add: Empty_iff Parser_Reset_def)
    also note rec
    finally show ?thesis unfolding k by (simp add: funpow_swap1)
  qed
qed


lemma Parse_fresh_head:
  assumes "well_formed m uri v hs" "body_announced hs body" "length (head_text m uri v hs @ body @ rest) \<le> k_http_max_size"
    "body \<noteq> [] \<longrightarrow> rest = []"
  shows "\<exists>Q. Parse (head_text m uri v hs @ body @ rest) RequestParser = (good, length (head_text m uri v hs), Q) \<and>
    rpReq Q = request_of m uri v hs body"
proof -
  let ?h = "head_text m uri v hs" and ?d = "head_text m uri v hs @ body @ rest"
  have pl: "parse_lines ?d RequestParser = Inr (body @ rest, if body = [] then RequestParser\<lparr>rpState := end_state, rpReq := request_of m uri v hs []\<rparr>
      else in_body m uri v hs body [])"
    using parse_head [OF assms(1), of "body @ rest"] after_head_body [OF assms(2), of m uri v] by simp
  have take: "take (min (length ?d) (k_http_max_size - rpReadLength RequestParser)) ?d = ?d" "rpReadLength RequestParser < k_http_max_size"
    "min (length ?d) (k_http_max_size - rpReadLength RequestParser) = length ?d"
    using assms(3) by (simp_all add: RequestParser_def k_http_max_size_def)
  show ?thesis
  proof (cases "body = []")
    case True
    with pl take show ?thesis by (simp add: Parse_def Let_def OnReadBody_def OnDone_def)
  next
    case False
    have "length body < 2 ^ 64" using assms(3) by (simp add: k_http_max_size_def)
    then have "ParseBody body (in_body m uri v hs body []) =
        (0, (in_body m uri v hs body [])\<lparr>rpReq := request_of m uri v hs body, rpState := end_state\<rparr>)"
      by (simp add: ParseBody_def in_body_def unat_size_of)
    moreover have "OnReadBody (in_body m uri v hs body [])" by (simp add: in_body_def OnReadBody_def)
    ultimately show ?thesis using False pl take assms(4) by (simp add: Parse_def Let_def OnDone_def)
  qed
qed



definition post_text :: string where
  "post_text = head_text ''POST'' ''/'' ''HTTP/1.1'' [(''Content-Length'', ''1'')] @ ''x''"

definition post_buffer :: session_buffer where
  "post_buffer = (SessionBuffer 1024)\<lparr>vecData := post_text, nReadPos := 0, nWritePos := 39\<rparr>"

lemma length_post_text: "length post_text = 39"
  by (simp add: post_text_def head_text_def header_line_def crlf_def)


section \<open>Routing\<close>

lemma find_rev_upt:
  assumes "k < n" "Q k" "\<And>j. k < j \<Longrightarrow> j < n \<Longrightarrow> \<not> Q j"
  shows "List.find Q (rev [0..<n]) = Some k"
  using assms
proof (induction n)
  case (Suc n)
  then show ?case by (cases "k = n") auto
qed simp

lemma rfind_char_last:
  assumes "k \<le> n" "k < length s" "s ! k = c" "\<And>j. k < j \<Longrightarrow> j \<le> n \<Longrightarrow> j < length s \<Longrightarrow> s ! j \<noteq> c"
  shows "rfind_char c s n = Some k"
  unfolding rfind_char_def using assms by (intro find_rev_upt) auto

lemma rfind_char_reaches:
  assumes "k \<le> n" "k < length s" "s ! k = c"
  shows "\<exists>j. rfind_char c s n = Some j \<and> k \<le> j"
proof -
  let ?P = "\<lambda>j. j \<le> n \<and> j < length s \<and> s ! j = c"
  define g where "g = Greatest ?P"
  have "?P g" unfolding g_def by (rule GreatestI_nat [of ?P k n]) (use assms in auto)
  moreover have le: "j \<le> g" if "?P j" for j unfolding g_def by (rule Greatest_le_nat [of ?P j n]) (use that in auto)
  then have "s ! j \<noteq> c" if "g < j" "j \<le> n" "j < length s" for j using that by fastforce
  ultimately have "rfind_char c s n = Some g" by (intro rfind_char_last) auto
  then show ?thesis using le assms by auto
qed

definition skipped_root :: "string \<Rightarrow> nat \<Rightarrow> bool" where
  "skipped_root path k \<longleftrightarrow> k = 0 \<and> 1 < length path \<and> path ! 1 = CHR ''/''"

lemma prefix_handler_finds:
  assumes "k < length path" "path ! k = CHR ''/''" "hs (take (k + 1) path) = Some h"
    and "\<And>j. k < j \<Longrightarrow> j < length path \<Longrightarrow> path ! j = CHR ''/'' \<Longrightarrow> hs (take (j + 1) path) = None"
    and "\<not> skipped_root path k"
  shows "k \<le> n \<Longrightarrow> prefix_handler hs path n = Some h"
proof (induction n rule: less_induct)
  case (less n)
  obtain j where j: "rfind_char (CHR ''/'') path n = Some j" "k \<le> j" using rfind_char_reaches [OF less(2) assms(1,2)] by auto
  note b = rfind_char_bound [OF j(1)]
  show ?case
  proof (cases "j = k")
    case True
    with j assms(3) show ?thesis by (subst prefix_handler.simps) simp
  next
    case False
    then have "hs (take (j + 1) path) = None" using j(2) b by (intro assms(4)) auto
    moreover have "j > 1"
    proof (rule ccontr)
      assume "\<not> j > 1"
      then have "j = 1" "k = 0" using False j(2) by linarith+
      with b assms(5) show False by (simp add: skipped_root_def)
    qed
    moreover have "prefix_handler hs path (j - 1) = Some h" using \<open>j > 1\<close> b j(2) False by (intro less(1)) linarith+
    ultimately show ?thesis using j(1) by (subst prefix_handler.simps) simp
  qed
qed

lemma prefix_handler_none:
  assumes "hs [] = None" "\<And>j. j < length path \<Longrightarrow> path ! j = CHR ''/'' \<Longrightarrow> hs (take (j + 1) path) = None"
  shows "prefix_handler hs path n = None"
proof (induction n rule: less_induct)
  case (less n)
  show ?case
  proof (cases "rfind_char (CHR ''/'') path n")
    case None
    then show ?thesis using assms(1) by (subst prefix_handler.simps) simp
  next
    case (Some k)
    note b = rfind_char_bound [OF Some]
    then have "hs (take (k + 1) path) = None" by (intro assms(2)) auto
    moreover have "prefix_handler hs path (k - 1) = None" if "k > 1" using b that by (intro less) linarith
    ultimately show ?thesis using Some by (subst prefix_handler.simps) simp
  qed
qed

text \<open>A request goes to the handler of its own path; else to the handler of the longest registered prefix
  that ends in a slash, except that the handler of the root is passed over when the second
  character of the path is a slash too; with no registered prefix, to the default handler; and
  without one it is answered with 404 and its session is closed.\<close>

theorem http_longest_prefix:
  "(\<forall>h. htMapPackethandle s (hrPath req) = Some h \<longrightarrow> ReadHttpPacket sid req s = (True, call_handler h sid req s)) \<and>
   (\<forall>k h. htMapPackethandle s (hrPath req) = None \<and> k < length (hrPath req) \<and> hrPath req ! k = CHR ''/'' \<and>
      htMapPackethandle s (take (k + 1) (hrPath req)) = Some h \<and>
      (\<forall>j. k < j \<and> j < length (hrPath req) \<and> hrPath req ! j = CHR ''/'' \<longrightarrow> htMapPackethandle s (take (j + 1) (hrPath req)) = None) \<and>
      \<not> skipped_root (hrPath req) k \<longrightarrow> ReadHttpPacket sid req s = (True, call_handler h sid req s)) \<and>
   (htMapPackethandle s (hrPath req) = None \<and> htMapPackethandle s [] = None \<and>
      (\<forall>j < length (hrPath req). hrPath req ! j = CHR ''/'' \<longrightarrow> htMapPackethandle s (take (j + 1) (hrPath req)) = None) \<longrightarrow>
      ReadHttpPacket sid req s =
        (case htDefaultPacketHandle s of
           Some h \<Rightarrow> (True, call_handler h sid req s)
         | None \<Rightarrow> (False, (snd (Http_WriteData sid (BadReply 404) s))\<lparr>htClosed := htClosed s @ [sid]\<rparr>)))"
proof (intro conjI allI impI; (elim conjE)?)
  show "ReadHttpPacket sid req s = (True, call_handler h sid req s)" if "htMapPackethandle s (hrPath req) = Some h" for h
    using that by (simp add: ReadHttpPacket_def)
next
  fix k h
  assume "htMapPackethandle s (hrPath req) = None" "k < length (hrPath req)" "hrPath req ! k = CHR ''/''"
    "htMapPackethandle s (take (k + 1) (hrPath req)) = Some h"
    "\<forall>j. k < j \<and> j < length (hrPath req) \<and> hrPath req ! j = CHR ''/'' \<longrightarrow> htMapPackethandle s (take (j + 1) (hrPath req)) = None"
    "\<not> skipped_root (hrPath req) k"
  then show "ReadHttpPacket sid req s = (True, call_handler h sid req s)"
    using prefix_handler_finds [of k "hrPath req" "htMapPackethandle s" h "length (hrPath req)"] by (simp add: ReadHttpPacket_def)
next
  assume "htMapPackethandle s (hrPath req) = None" "htMapPackethandle s [] = None"
    "\<forall>j < length (hrPath req). hrPath req ! j = CHR ''/'' \<longrightarrow> htMapPackethandle s (take (j + 1) (hrPath req)) = None"
  then show "ReadHttpPacket sid req s = (case htDefaultPacketHandle s of
           Some h \<Rightarrow> (True, call_handler h sid req s)
         | None \<Rightarrow> (False, (snd (Http_WriteData sid (BadReply 404) s))\<lparr>htClosed := htClosed s @ [sid]\<rparr>))"
    using prefix_handler_none [of "htMapPackethandle s" "hrPath req"]
    by (auto simp: ReadHttpPacket_def Let_def Http_WriteData_def split: option.split)
qed

theorem http_longest_prefix_witness:
  "ReadHttpPacket 1 (Request_Reset\<lparr>hrPath := ''/a/b''\<rparr>) (NetHttpModule\<lparr>htMapPackethandle := [''/'' \<mapsto> 1, ''/a/'' \<mapsto> 2 :: nat]\<rparr>) =
   (True, call_handler 2 1 (Request_Reset\<lparr>hrPath := ''/a/b''\<rparr>) (NetHttpModule\<lparr>htMapPackethandle := [''/'' \<mapsto> 1, ''/a/'' \<mapsto> 2]\<rparr>))"
proof -
  let ?req = "Request_Reset\<lparr>hrPath := ''/a/b''\<rparr>" and ?s = "NetHttpModule\<lparr>htMapPackethandle := [''/'' \<mapsto> 1, ''/a/'' \<mapsto> 2 :: nat]\<rparr>"
  have "ReadHttpPacket 1 ?req ?s = (True, call_handler 2 1 ?req ?s)"
    using spec [OF spec [OF conjunct1 [OF conjunct2 [OF http_longest_prefix [of ?s ?req 1]]], of 2], of 2]
    by (auto simp: NetHttpModule_def Request_Reset_def nth_Cons' skipped_root_def split: if_splits)
  then show ?thesis .
qed

end
