(* ===== verification/Game_Net.thy ===== *)
theory Game_Net
  imports Net_Pb Rpc_Module Service_Government Pb_Message
begin

text \<open>
  What the game servers (src/app/game) share: the messages of src/protocol and src/app/game/protoc as
  values, sending a packet on a session (\<open>NetPbModule::SendPacket\<close>, common/net/net_pb_module.h), a
  remote request with its packet (\<open>RpcModule::RpcRequest\<close>) and the arguments its callback gets. The
  packets a server hands to its sessions are entries of the list \<open>pnSent\<close>; which sessions are open is
  the network's choice. A message is its value; \<open>\<open>StrData\<close>\<close> is an already serialised body.
\<close>

section \<open>Messages\<close>

definition GateServer :: int32 where "GateServer = 1"

definition LogicServer :: int32 where "LogicServer = 2"

definition DBServer :: int32 where "DBServer = 3"

definition ss_msgid_begin :: u32 where "ss_msgid_begin = 0x40000000"

definition ss_msg_timeout :: int32 where "ss_msg_timeout = 0x40000000"

definition cs_msg_not_find_user :: int32 where "cs_msg_not_find_user = 1"

definition cs_msg_user_loading :: int32 where "cs_msg_user_loading = 2"

text \<open>The message ids the protocol files give the request types; a response has the next one.\<close>

definition msgid_login_req :: u32 where "msgid_login_req = 5"

definition msgid_login_rsp :: u32 where "msgid_login_rsp = 6"

definition msgid_savedata_req :: u32 where "msgid_savedata_req = 0x40010001"

definition msgid_savedata_rsp :: u32 where "msgid_savedata_rsp = 0x40010002"

definition msgid_querydata_req :: u32 where "msgid_querydata_req = 0x40010003"

definition msgid_querydata_rsp :: u32 where "msgid_querydata_rsp = 0x40010004"

text \<open>The stored messages of db_data.proto in their default instances; a map field repeats its entries.\<close>

definition UserBase_default :: "'d message" where
  "UserBase_default = Message ''Db.UserBase'' [(''user_name'', VString []), (''update_time'', VInt64 0)]"

definition UserCount_default :: "'d message" where
  "UserCount_default = Message ''Db.UserCount''
     [(''count_type'', VInt32 0), (''count_subtype'', VInt32 0), (''count_value'', VInt32 0), (''count_tick'', VInt64 0)]"

definition ClientCache_default :: "'d message" where
  "ClientCache_default = Message ''Db.ClientCache'' [(''cache_type'', VInt64 0), (''modify_time'', VInt64 0),
     (''cache_items'', VRepeated (Message ''Db.ClientCache.CacheItemsEntry'' [(''key'', VString []), (''value'', VString [])]) [])]"

definition ClientLoginInfo_default :: "'d message" where
  "ClientLoginInfo_default = Message ''Db.ClientLoginInfo''
     [(''login_tick'', VInt64 0), (''login_channel'', VInt64 0), (''device'', VString []), (''uuid'', VString [])]"

definition UserData_of :: "string \<Rightarrow> 'd message option \<Rightarrow> 'd message list \<Rightarrow> 'd message list \<Rightarrow> 'd message option \<Rightarrow> 'd message" where
  "UserData_of user_id user_base user_counts client_cache client_login_info = Message ''Db.UserData''
     [(''user_id'', VString user_id), (''user_base'', VMessage UserBase_default user_base),
      (''user_counts'', VRepeated UserCount_default user_counts), (''client_cache'', VRepeated ClientCache_default client_cache),
      (''client_login_info'', VMessage ClientLoginInfo_default client_login_info)]"

text \<open>
  Sub-messages are optional: \<open>'d message option option\<close> is a \<open>KVData\<close> that may be absent and whose
  \<open>user_data\<close> may be absent.
\<close>

type_synonym 'd kv_data = "'d message option option"

datatype 'd game_body =
    CSPlayerLoginReq string string
  | CSPlayerLoginRsp
  | SSSaveDataReq int64 "'d kv_data" "'d kv_data"
  | SSSaveDataRsp
  | SSQueryDataReq string
  | SSQueryDataRsp "'d message option"
  | StrData string

datatype pb_head = ClientHead client_head | ServerHead server_head

definition default_server_head :: server_head where
  "default_server_head = \<lparr>sh_trans_id = [], sh_req_time = 0, sh_src_server_type = 0, sh_src_server_index = 0,
     sh_user_id = [], sh_query_id = 0, sh_error_code = 0, sh_ttl = 0\<rparr>"

fun set_query_id :: "int64 \<Rightarrow> pb_head \<Rightarrow> pb_head" where
  "set_query_id q (ClientHead h) = ClientHead (h\<lparr>ch_query_id := q\<rparr>)"
| "set_query_id q (ServerHead h) = ServerHead (h\<lparr>sh_query_id := q\<rparr>)"

section \<open>Sending a packet\<close>

type_synonym 'b sent_packet = "session_id_t \<times> u32 \<times> pb_head \<times> 'b"

record 'b packet_net =
  pnOpen :: "session_id_t \<Rightarrow> bool"
  pnServerType :: int32
  pnServerId :: int32
  pnNow :: int64
  pnTransGen :: trans_gen
  pnSent :: "'b sent_packet list"

fun FillHeadCommon :: "pb_head \<Rightarrow> 'b packet_net \<Rightarrow> pb_head \<times> 'b packet_net" where
  "FillHeadCommon (ClientHead h) s = (ClientHead (FillHeadCommon_client h), s)"
| "FillHeadCommon (ServerHead h) s =
     (case FillHeadCommon_server (pnServerType s) (pnServerId s) (pnNow s) h (pnTransGen s) of
        (h', g) \<Rightarrow> (ServerHead h', s\<lparr>pnTransGen := g\<rparr>))"

definition SendPacket ::
    "session_id_t \<Rightarrow> u32 \<Rightarrow> pb_head \<Rightarrow> 'b \<Rightarrow> 'b packet_net \<Rightarrow> bool \<times> 'b packet_net" where
  "SendPacket sessionId msgType packetHead packetBody s =
     (if \<not> pnOpen s sessionId then (False, s)
      else case FillHeadCommon packetHead s of
             (h, s) \<Rightarrow> (True, s\<lparr>pnSent := pnSent s @ [(sessionId, msgType, h, packetBody)]\<rparr>))"

section \<open>Requests\<close>

definition RpcRequest_packet ::
    "session_id_t \<Rightarrow> u32 \<Rightarrow> pb_head \<Rightarrow> 'b \<Rightarrow> 'f \<Rightarrow> ('f, 'r) rpc_module \<times> 'b packet_net \<Rightarrow> ('f, 'r) rpc_module \<times> 'b packet_net" where
  "RpcRequest_packet destSessionId msgid pbPacketHead msgBody funcResult s =
     (case s of (rpc, net) \<Rightarrow>
        let rpc = RpcRequest destSessionId (msgid + 1) funcResult rpc
        in (rpc, snd (SendPacket destSessionId msgid (set_query_id (nQueryId rpc) pbPacketHead) msgBody net)))"

text \<open>
  The callbacks one response or one time-out tick ran, and what each was called with: the response,
  or no session, a head with the time-out code and a default body.
\<close>

definition called_now :: "('f, 'r) rpc_module \<Rightarrow> ('f, 'r) rpc_module \<Rightarrow> ('f \<times> 'r outcome) list" where
  "called_now old new = map snd (drop (length (rpcCalls old)) (rpcCalls new))"

fun callback_args :: "'b \<Rightarrow> (server_head \<times> 'b) outcome \<Rightarrow> session_id_t \<times> server_head \<times> 'b" where
  "callback_args dflt (Response sid r) = (sid, fst r, snd r)"
| "callback_args dflt TimedOut = (0, default_server_head\<lparr>sh_error_code := ss_msg_timeout\<rparr>, dflt)"

section \<open>What sending and requesting change\<close>

lemma FillHeadCommon_server_fields:
  assumes "FillHeadCommon (ServerHead h) s = (pkh', s')"
  shows "\<exists>h'. pkh' = ServerHead h' \<and> sh_user_id h' = sh_user_id h \<and> sh_query_id h' = sh_query_id h \<and>
      sh_error_code h' = sh_error_code h \<and> sh_ttl h' = (if sh_ttl h = 0 then 30 else sh_ttl h - 1)"
    "pnSent s' = pnSent s" "pnOpen s' = pnOpen s"
  using assms
  by (auto simp: FillHeadCommon_server_def GenTransId_def kPacketTTLDefaultvalue_def Let_def split: prod.splits if_splits)

lemma SendPacket_closed [simp]: "\<not> pnOpen s sid \<Longrightarrow> SendPacket sid ty h b s = (False, s)"
  by (simp add: SendPacket_def)

lemma SendPacket_client:
  "pnOpen s sid \<Longrightarrow> SendPacket sid ty (ClientHead h) b s = (True, s\<lparr>pnSent := pnSent s @ [(sid, ty, ClientHead h, b)]\<rparr>)"
  by (simp add: SendPacket_def FillHeadCommon_client_def)

text \<open>A packet with a server head keeps the user, the query and the error code it was sent with.\<close>

definition head_sent :: "server_head \<Rightarrow> pb_head \<Rightarrow> bool" where
  "head_sent h pkh \<longleftrightarrow> (\<exists>h'. pkh = ServerHead h' \<and> sh_user_id h' = sh_user_id h \<and> sh_query_id h' = sh_query_id h \<and>
     sh_error_code h' = sh_error_code h \<and> sh_ttl h' = (if sh_ttl h = 0 then 30 else sh_ttl h - 1))"

lemma SendPacket_server:
  "\<exists>pkh. head_sent h pkh \<and> pnSent (snd (SendPacket sid ty (ServerHead h) b s)) =
     pnSent s @ (if pnOpen s sid then [(sid, ty, pkh, b)] else [])"
  "pnOpen (snd (SendPacket sid ty (ServerHead h) b s)) = pnOpen s"
proof -
  obtain pkh s' where f: "FillHeadCommon (ServerHead h) s = (pkh, s')" by fastforce
  note F = FillHeadCommon_server_fields [OF f]
  have "head_sent h pkh" using F(1) by (simp add: head_sent_def)
  moreover note F(2,3)
  ultimately show
    "\<exists>pkh. head_sent h pkh \<and> pnSent (snd (SendPacket sid ty (ServerHead h) b s)) =
       pnSent s @ (if pnOpen s sid then [(sid, ty, pkh, b)] else [])"
    "pnOpen (snd (SendPacket sid ty (ServerHead h) b s)) = pnOpen s"
    by (auto simp: SendPacket_def f intro: exI [of _ pkh] simp del: FillHeadCommon.simps)
qed

lemma pnOpen_SendPacket [simp]: "pnOpen (snd (SendPacket sid ty pkh b s)) = pnOpen s"
proof (cases pkh)
  case (ClientHead h)
  then show ?thesis by (cases "pnOpen s sid") (simp_all add: SendPacket_client)
qed (simp add: SendPacket_server(2))

lemma called_now_same [simp]: "rpcCalls new = rpcCalls old \<Longrightarrow> called_now old new = []"
  by (simp add: called_now_def)

lemma called_now_append: "rpcCalls new = rpcCalls old @ cs \<Longrightarrow> called_now old new = map snd cs"
  by (simp add: called_now_def)

text \<open>The effect of one response and of one time-out tick without nested requests.\<close>

lemma RegisterNetHandle_cases:
  assumes "rpc_inv s"
  obtains
    (unknown) "q \<notin> fst ` set (waiting m s)" "RegisterNetHandle m sid q rsp s = s"
  | (delivered) f where "(q, f) \<in> set (waiting m s)"
      "rpcCalls (RegisterNetHandle m sid q rsp s) = rpcCalls s @ [(q, f, Response sid rsp)]"
      "set (waiting m (RegisterNetHandle m sid q rsp s)) = {e \<in> set (waiting m s). fst e \<noteq> q}"
      "\<And>m'. m' \<noteq> m \<Longrightarrow> waiting m' (RegisterNetHandle m sid q rsp s) = waiting m' s"
      "rpcIssued (RegisterNetHandle m sid q rsp s) = rpcIssued s"
      "nQueryId (RegisterNetHandle m sid q rsp s) = nQueryId s"
proof (cases "mapRpcContext s m")
  case None
  then show thesis using unknown by (simp add: RegisterNetHandle_def waiting_def)
next
  case (Some c)
  note ctx = Some
  let ?C = "mapCurrentCallback c" and ?L = "mapLastCallback c"
  have w: "waiting m s = ?C @ ?L" using Some by (simp add: waiting_def)
  then have d: "distinct (map fst ?C)" "distinct (map fst ?L)" "fst ` set ?C \<inter> fst ` set ?L = {}"
    using rpc_invD(4) [OF assms, of m] by simp_all
  show thesis
  proof (cases "map_of ?C q")
    case (Some f)
    have "q \<notin> fst ` set ?L" using d(3) Some by (metis disjoint_iff domI dom_map_of_conv_image_fst)
    then have "set (erase q ?C @ ?L) = {e \<in> set (?C @ ?L). fst e \<noteq> q}" by (auto simp: erase_def)
    then have "set (waiting m (RegisterNetHandle m sid q rsp s)) = {e \<in> set (waiting m s). fst e \<noteq> q}"
      by (simp add: RegisterNetHandle_def ctx Some waiting_def set_context_def)
    then show thesis
      by (rule delivered [of f, rotated 2])
        (use map_of_SomeD [OF Some] Some in \<open>simp_all add: w RegisterNetHandle_def ctx waiting_def set_context_def\<close>)
  next
    case None
    show thesis
    proof (cases "map_of ?L q")
      case None': None
      have "q \<notin> fst ` set (waiting m s)" using None None' by (simp add: w map_of_eq_None_iff image_Un)
      moreover have "RegisterNetHandle m sid q rsp s = s" using None None' by (simp add: RegisterNetHandle_def ctx)
      ultimately show thesis by (rule unknown)
    next
      case (Some f)
      have "q \<notin> fst ` set ?C" using None by (simp add: map_of_eq_None_iff)
      then have "set (?C @ erase q ?L) = {e \<in> set (?C @ ?L). fst e \<noteq> q}" by (auto simp: erase_def)
      then have "set (waiting m (RegisterNetHandle m sid q rsp s)) = {e \<in> set (waiting m s). fst e \<noteq> q}"
        by (simp add: RegisterNetHandle_def ctx Some None waiting_def set_context_def)
      then show thesis
        by (rule delivered [of f, rotated 2])
          (use map_of_SomeD [OF Some] Some None in \<open>simp_all add: w RegisterNetHandle_def ctx waiting_def set_context_def\<close>)
    qed
  qed
qed

definition last_waiting :: "u32 \<Rightarrow> ('f, 'r) rpc_module \<Rightarrow> (int \<times> 'f) list" where
  "last_waiting m s = (case mapRpcContext s m of None \<Rightarrow> [] | Some c \<Rightarrow> mapLastCallback c)"

definition current_waiting :: "u32 \<Rightarrow> ('f, 'r) rpc_module \<Rightarrow> (int \<times> 'f) list" where
  "current_waiting m s = (case mapRpcContext s m of None \<Rightarrow> [] | Some c \<Rightarrow> mapCurrentCallback c)"

lemma waiting_split: "waiting m s = current_waiting m s @ last_waiting m s"
  by (simp add: waiting_def current_waiting_def last_waiting_def split: option.splits)

lemma tick_effect:
  "rpcCalls (RegisterTimeoutHandle m [] s) = rpcCalls s @ map (\<lambda>(q, f). (q, f, TimedOut)) (last_waiting m s)"
  "waiting m (RegisterTimeoutHandle m [] s) = current_waiting m s"
  "last_waiting m (RegisterTimeoutHandle m [] s) = current_waiting m s"
  "current_waiting m (RegisterTimeoutHandle m [] s) = []"
  "m' \<noteq> m \<Longrightarrow> waiting m' (RegisterTimeoutHandle m [] s) = waiting m' s"
  "rpcIssued (RegisterTimeoutHandle m [] s) = rpcIssued s"
  "nQueryId (RegisterTimeoutHandle m [] s) = nQueryId s"
  by (simp_all add: RegisterTimeoutHandle_def waiting_def last_waiting_def current_waiting_def set_context_def Let_def
      split: option.splits)

section \<open>A registry with one server of a type\<close>

definition single_server :: "int32 \<Rightarrow> session_id_t \<Rightarrow> gov" where
  "single_server t sid = ServiceGovernmentModule\<lparr>gvServerList := [(t, [(1, ServerInstanceInfo\<lparr>siServerType := t, siServerIndex := 1, siSessionId := sid\<rparr>)])]\<rparr>"

lemma route_single:
  "GetServerSessionId t 1 (single_server t sid) = sid"
  "length key < 2 ^ 32 \<Longrightarrow> GetServerSessionIdByKey t key (single_server t sid) = Some sid"
proof -
  have i: "find_server t 1 [(t, [(1, ServerInstanceInfo\<lparr>siServerType := t, siServerIndex := 1, siSessionId := sid\<rparr>)])] =
      Some (ServerInstanceInfo\<lparr>siServerType := t, siServerIndex := 1, siSessionId := sid\<rparr>)"
    by (simp add: find_server_def)
  show one: "GetServerSessionId t 1 (single_server t sid) = sid"
    by (simp add: GetServerSessionId_def GetServerInstanceInfo_def single_server_def i)
  have "(x :: size_t) mod 1 + 1 = 1" for x by simp
  then show "GetServerSessionIdByKey t key (single_server t sid) = Some sid" if "length key < 2 ^ 32"
    using that one
    by (simp add: GetServerSessionIdByKey_def GetServerKeyIndex_def CRC32_string_eq single_server_def [of t sid] size_of_def to_int32_def)
qed

definition sample_net :: "session_id_t set \<Rightarrow> 'b packet_net" where
  "sample_net open1 = \<lparr>pnOpen = (\<lambda>s. s \<in> open1), pnServerType = 2, pnServerId = 1, pnNow = 0,
     pnTransGen = \<lparr>strTransIdPrefix = None, nSuffix = 0\<rparr>, pnSent = []\<rparr>"

end
