(* ===== verification/Gate_Server.thy ===== *)
theory Gate_Server
  imports Game_Net
begin

text \<open>
  \<open>ClientPbModule\<close> (src/app/game/gate_server/client_pb_module.h, client_pb_module.cpp): the gate
  between the clients and the logic servers. A login is a remote request to the logic server the
  user's name selects; its callback binds the user to the client's session in two maps, closing the
  session the user was bound to before. A shared pointer to a \<open>GateUserInfo\<close>, which nothing changes
  after it is made, is its value. The net packet handlers are those of \<open>NetPbModule\<close>: a registered
  one queues its parsed message, a default handler runs at once. \<open>None\<close> is a routing checksum that
  never ends (a name of 4 GB).
\<close>

section \<open>State and operations\<close>

record gate_user_info =
  guUserId :: string
  guSessionId :: session_id_t

datatype gate_callback = LoginCallback session_id_t client_head

record 'd gate_server =
  gtNet :: "'d game_body packet_net"
  gtRpc :: "(gate_callback, server_head \<times> 'd game_body) rpc_module"
  gtGov :: gov
  mapSessionUserInfo :: "session_id_t \<rightharpoonup> gate_user_info"
  mapUserInfo :: "string \<rightharpoonup> gate_user_info"
  gtClosed :: "session_id_t list"

definition map_emplace :: "'k \<Rightarrow> 'v \<Rightarrow> ('k \<rightharpoonup> 'v) \<Rightarrow> ('k \<rightharpoonup> 'v)" where
  "map_emplace k v m = (if m k = None then m(k \<mapsto> v) else m)"

definition Gate_send :: "session_id_t \<Rightarrow> u32 \<Rightarrow> pb_head \<Rightarrow> 'd game_body \<Rightarrow> 'd gate_server \<Rightarrow> 'd gate_server" where
  "Gate_send sid ty head body s = s\<lparr>gtNet := snd (SendPacket sid ty head body (gtNet s))\<rparr>"

definition GetGateUserInfoByUserId :: "string \<Rightarrow> 'd gate_server \<Rightarrow> gate_user_info option" where
  "GetGateUserInfoByUserId userId s = mapUserInfo s userId"

definition GetGateUserInfoBySessionId :: "session_id_t \<Rightarrow> 'd gate_server \<Rightarrow> gate_user_info option" where
  "GetGateUserInfoBySessionId clientSessionId s = mapSessionUserInfo s clientSessionId"

definition OnUserLogout :: "string \<Rightarrow> bool \<Rightarrow> 'd gate_server \<Rightarrow> bool \<times> 'd gate_server" where
  "OnUserLogout userId bKick s =
     (case mapUserInfo s userId of
        None \<Rightarrow> (False, s)
      | Some pUserInfo \<Rightarrow>
          (True, s\<lparr>gtClosed := gtClosed s @ [guSessionId pUserInfo],
                   mapSessionUserInfo := (mapSessionUserInfo s)(guSessionId pUserInfo := None),
                   mapUserInfo := (mapUserInfo s)(userId := None)\<rparr>))"

definition OnUserLogin :: "session_id_t \<Rightarrow> string \<Rightarrow> 'd gate_server \<Rightarrow> bool \<times> 'd gate_server" where
  "OnUserLogin clientSessionId userId s =
     (if mapSessionUserInfo s clientSessionId \<noteq> None then (False, s)
      else let s = (if mapUserInfo s userId \<noteq> None then snd (OnUserLogout userId True s) else s);
               pUserInfo = \<lparr>guUserId = userId, guSessionId = clientSessionId\<rparr>
           in (True, s\<lparr>mapSessionUserInfo := map_emplace clientSessionId pUserInfo (mapSessionUserInfo s),
                       mapUserInfo := map_emplace userId pUserInfo (mapUserInfo s)\<rparr>))"

definition OnHandleCSPlayerLoginReq ::
    "session_id_t \<Rightarrow> client_head \<Rightarrow> string \<Rightarrow> string \<Rightarrow> 'd gate_server \<Rightarrow> 'd gate_server option" where
  "OnHandleCSPlayerLoginReq sessionId head token user_name s =
     map_option (\<lambda>sessionServer.
         case RpcRequest_packet sessionServer msgid_login_req (ServerHead (default_server_head\<lparr>sh_user_id := user_name\<rparr>))
                (CSPlayerLoginReq token user_name) (LoginCallback sessionId head) (gtRpc s, gtNet s) of
           (rpc, net) \<Rightarrow> s\<lparr>gtRpc := rpc, gtNet := net\<rparr>)
       (GetServerSessionIdByKey LogicServer user_name (gtGov s))"

text \<open>The callback of the login request.\<close>

fun LoginCallback_call ::
    "gate_callback \<Rightarrow> session_id_t \<times> server_head \<times> 'd game_body \<Rightarrow> 'd gate_server \<Rightarrow> 'd gate_server" where
  "LoginCallback_call (LoginCallback sessionId head) (serverSessionId, headRsp, queryDataRsp) s =
     (if sh_error_code headRsp \<noteq> 0 then s
      else case OnUserLogin sessionId (sh_user_id headRsp) s of
             (False, s) \<Rightarrow> s
           | (True, s) \<Rightarrow> Gate_send sessionId msgid_login_rsp (ClientHead head) queryDataRsp s)"

definition Gate_callbacks ::
    "(gate_callback, server_head \<times> 'd game_body) rpc_module \<Rightarrow> 'd gate_server \<Rightarrow> 'd gate_server" where
  "Gate_callbacks rpc s =
     fold (\<lambda>(f, r). LoginCallback_call f (callback_args CSPlayerLoginRsp r)) (called_now (gtRpc s) rpc) (s\<lparr>gtRpc := rpc\<rparr>)"

text \<open>The handlers \<open>RpcModule\<close> installs for the login response and its time-out.\<close>

definition Gate_OnLoginRsp :: "session_id_t \<Rightarrow> server_head \<Rightarrow> 'd game_body \<Rightarrow> 'd gate_server \<Rightarrow> 'd gate_server" where
  "Gate_OnLoginRsp sid headRsp rsp s =
     Gate_callbacks (RegisterNetHandle msgid_login_rsp sid (sh_query_id headRsp) (headRsp, rsp) (gtRpc s)) s"

definition Gate_OnTimeout :: "'d gate_server \<Rightarrow> 'd gate_server" where
  "Gate_OnTimeout s = Gate_callbacks (RegisterTimeoutHandle msgid_login_rsp [] (gtRpc s)) s"

text \<open>
  The default handlers. \<open>failedHead\<close> is what a failed parse leaves in the head, which the code uses all
  the same; the body is then empty.
\<close>

definition OnClientMessage ::
    "endian \<Rightarrow> (string \<Rightarrow> client_head option) \<Rightarrow> session_id_t \<Rightarrow> u32 \<Rightarrow> string \<Rightarrow> 'd gate_server \<Rightarrow> 'd gate_server" where
  "OnClientMessage e parseHead clientSessionId msgType data s =
     (if msgType \<ge> ss_msgid_begin then s
      else let body = (case PaserPbHead e parseHead data of None \<Rightarrow> [] | Some (clientHead, body) \<Rightarrow> body)
           in case GetGateUserInfoBySessionId clientSessionId s of
                None \<Rightarrow> s
              | Some pUserInfo \<Rightarrow>
                  Gate_send (GetServerSessionId LogicServer 1 (gtGov s)) msgType
                    (ServerHead (default_server_head\<lparr>sh_user_id := guUserId pUserInfo\<rparr>)) (StrData body) s)"

definition OnServerMessage ::
    "endian \<Rightarrow> (string \<Rightarrow> server_head option) \<Rightarrow> (string \<Rightarrow> server_head) \<Rightarrow>
     session_id_t \<Rightarrow> u32 \<Rightarrow> string \<Rightarrow> 'd gate_server \<Rightarrow> 'd gate_server" where
  "OnServerMessage e parseHead failedHead serverSessionId msgType data s =
     (case (case PaserPbHead e parseHead data of None \<Rightarrow> (failedHead data, []) | Some p \<Rightarrow> p) of
        (pServerHead, body) \<Rightarrow>
          let userId = []
          in case GetGateUserInfoByUserId userId s of
               None \<Rightarrow> s
             | Some pUserInfo \<Rightarrow> Gate_send (guSessionId pUserInfo) msgType (ServerHead pServerHead) (StrData body) s)"

section \<open>Registration\<close>

text \<open>
  The handlers act on the queue of parsed messages and the server. A registered handler queues, a
  default handler acts on the server at once.
\<close>

type_synonym 'd gate_queue = "('d gate_server option) event list \<times> 'd gate_server option"

definition queued :: "('w event list) packet_handler \<Rightarrow> ('w event list \<times> 'w) packet_handler" where
  "queued h = (\<lambda>sid ty data (queue, w). (h sid ty data queue, w))"

definition direct :: "(session_id_t \<Rightarrow> u32 \<Rightarrow> string \<Rightarrow> 'w event) \<Rightarrow> ('w event list \<times> 'w) packet_handler" where
  "direct h = (\<lambda>sid ty data (queue, w). (queue, h sid ty data w))"

definition Gate_OnInit ::
    "endian \<Rightarrow> (string \<Rightarrow> client_head option) \<Rightarrow> (string \<Rightarrow> server_head option) \<Rightarrow> (string \<Rightarrow> server_head) \<Rightarrow>
     (string \<Rightarrow> (string \<times> string) option) \<Rightarrow> 'd gate_queue net_pb_module \<Rightarrow> 'd gate_queue net_pb_module" where
  "Gate_OnInit e parseClient parseServer failedHead parseLogin m =
     (let m = RegisterPacketHandle msgid_login_req (Some (queued (GeneratePaserPacketFunc e parseClient
                CheckHeadTTLError_client parseLogin
                (\<lambda>sid head (token, user_name) w. Option.bind w (OnHandleCSPlayerLoginReq sid head token user_name))))) m;
          m = SetDefaultPacketHandle (Some (direct (\<lambda>sid ty data. map_option (OnClientMessage e parseClient sid ty data)))) m
      in SetDefaultPacketHandle (Some (direct (\<lambda>sid ty data. map_option (OnServerMessage e parseServer failedHead sid ty data)))) m)"

section \<open>Frames\<close>

lemma Gate_send_fields [simp]:
  "gtRpc (Gate_send sid ty h b s) = gtRpc s" "gtGov (Gate_send sid ty h b s) = gtGov s"
  "mapSessionUserInfo (Gate_send sid ty h b s) = mapSessionUserInfo s" "mapUserInfo (Gate_send sid ty h b s) = mapUserInfo s"
  "gtClosed (Gate_send sid ty h b s) = gtClosed s" "pnOpen (gtNet (Gate_send sid ty h b s)) = pnOpen (gtNet s)"
  by (simp_all add: Gate_send_def)

lemma OnUserLogin_frame [simp]:
  "gtNet (snd (OnUserLogin sid u s)) = gtNet s" "gtRpc (snd (OnUserLogin sid u s)) = gtRpc s"
  "gtGov (snd (OnUserLogin sid u s)) = gtGov s"
  by (auto simp: OnUserLogin_def OnUserLogout_def Let_def split: option.splits)

text \<open>The two maps bind the same users to the same sessions, one to one.\<close>

definition maps_inv :: "(session_id_t \<rightharpoonup> gate_user_info) \<Rightarrow> (string \<rightharpoonup> gate_user_info) \<Rightarrow> bool" where
  "maps_inv S U \<longleftrightarrow>
     (\<forall>sid i. S sid = Some i \<longrightarrow> guSessionId i = sid \<and> U (guUserId i) = Some i) \<and>
     (\<forall>u i. U u = Some i \<longrightarrow> guUserId i = u \<and> S (guSessionId i) = Some i)"

definition gate_inv :: "'d gate_server \<Rightarrow> bool" where
  "gate_inv s \<longleftrightarrow> maps_inv (mapSessionUserInfo s) (mapUserInfo s)"

lemma maps_invD:
  assumes "maps_inv S U"
  shows "S sid = Some i \<Longrightarrow> guSessionId i = sid" "S sid = Some i \<Longrightarrow> U (guUserId i) = Some i"
    "U u = Some i \<Longrightarrow> guUserId i = u" "U u = Some i \<Longrightarrow> S (guSessionId i) = Some i"
  using assms unfolding maps_inv_def by blast+

lemma maps_inv_remove:
  assumes inv: "maps_inv S U" and u: "U u = Some i"
  shows "maps_inv (S(guSessionId i := None)) (U(u := None))"
proof -
  have i: "guUserId i = u" "S (guSessionId i) = Some i" by (rule maps_invD [OF inv], rule u)+
  have "j = i" if "U v = Some j" "guSessionId j = guSessionId i" for v j
  proof -
    have "S (guSessionId j) = Some j" by (rule maps_invD(4) [OF inv that(1)])
    then have "Some j = Some i" using i(2) unfolding that(2) by (rule trans [OF sym])
    then show ?thesis by (rule option.inject [THEN iffD1])
  qed
  note one = this
  show ?thesis
    unfolding maps_inv_def
  proof (intro conjI allI impI)
    fix sid j assume a: "(S(guSessionId i := None)) sid = Some j"
    then have j: "S sid = Some j" "sid \<noteq> guSessionId i" by (auto split: if_splits)
    have k: "guSessionId j = sid" "U (guUserId j) = Some j" by (rule maps_invD [OF inv], rule j(1))+
    have "guUserId j \<noteq> u"
    proof
      assume "guUserId j = u"
      then have "Some j = Some i" using trans [OF sym [OF k(2)]] u by metis
      then show False using k(1) j(2) by blast
    qed
    then show "guSessionId j = sid" "(U(u := None)) (guUserId j) = Some j" using k by simp_all
  next
    fix v j assume a: "(U(u := None)) v = Some j"
    then have j: "U v = Some j" "v \<noteq> u" by (auto split: if_splits)
    have k: "guUserId j = v" "S (guSessionId j) = Some j" by (rule maps_invD [OF inv], rule j(1))+
    have "guSessionId j \<noteq> guSessionId i"
    proof
      assume "guSessionId j = guSessionId i"
      then have "j = i" by (rule one [OF j(1)])
      then show False using k(1) j(2) i(1) by simp
    qed
    then show "guUserId j = v" "(S(guSessionId i := None)) (guSessionId j) = Some j" using k by simp_all
  qed
qed

lemma maps_inv_add:
  assumes "maps_inv S U" "S sid = None" "U u = None"
  shows "maps_inv (S(sid \<mapsto> \<lparr>guUserId = u, guSessionId = sid\<rparr>)) (U(u \<mapsto> \<lparr>guUserId = u, guSessionId = sid\<rparr>))"
  using assms unfolding maps_inv_def by (auto split: if_splits)

text \<open>The session a user is bound to.\<close>

definition user_session :: "'d gate_server \<Rightarrow> string \<rightharpoonup> session_id_t" where
  "user_session s u = map_option guSessionId (mapUserInfo s u)"

lemma gate_invD:
  assumes "gate_inv s"
  shows "mapSessionUserInfo s sid = Some i \<Longrightarrow> guSessionId i = sid" "mapSessionUserInfo s sid = Some i \<Longrightarrow> mapUserInfo s (guUserId i) = Some i"
    "mapUserInfo s u = Some i \<Longrightarrow> guUserId i = u" "mapUserInfo s u = Some i \<Longrightarrow> mapSessionUserInfo s (guSessionId i) = Some i"
  by (rule maps_invD [OF assms [unfolded gate_inv_def]], assumption)+

lemma gate_inv_cong:
  assumes "mapSessionUserInfo s' = mapSessionUserInfo s" "mapUserInfo s' = mapUserInfo s"
  shows "gate_inv s' = gate_inv s" "user_session s' = user_session s"
proof -
  show "gate_inv s' = gate_inv s" by (simp add: gate_inv_def assms)
  show "user_session s' = user_session s" by (rule ext) (simp add: user_session_def assms)
qed

lemma gate_inv_OnUserLogout: "gate_inv s \<Longrightarrow> gate_inv (snd (OnUserLogout u k s))"
  by (auto simp: OnUserLogout_def gate_inv_def intro: maps_inv_remove split: option.splits)

lemma OnUserLogin_used: "mapSessionUserInfo s sid \<noteq> None \<Longrightarrow> OnUserLogin sid u s = (False, s)"
  by (simp add: OnUserLogin_def)

text \<open>The maps after a login of a free session.\<close>

lemma OnUserLogin_maps:
  assumes inv: "gate_inv s" and free: "mapSessionUserInfo s sid = None"
  shows "fst (OnUserLogin sid u s)"
    "mapUserInfo (snd (OnUserLogin sid u s)) = (mapUserInfo s)(u \<mapsto> \<lparr>guUserId = u, guSessionId = sid\<rparr>)"
    "mapSessionUserInfo (snd (OnUserLogin sid u s)) =
       (case user_session s u of None \<Rightarrow> mapSessionUserInfo s | Some old \<Rightarrow> (mapSessionUserInfo s)(old := None))(sid \<mapsto> \<lparr>guUserId = u, guSessionId = sid\<rparr>)"
    "gtClosed (snd (OnUserLogin sid u s)) = gtClosed s @ (case user_session s u of None \<Rightarrow> [] | Some old \<Rightarrow> [old])"
  using free
  by (auto simp: OnUserLogin_def OnUserLogout_def map_emplace_def user_session_def Let_def split: option.splits)

lemma gate_inv_OnUserLogin: "gate_inv s \<Longrightarrow> gate_inv (snd (OnUserLogin sid u s))"
proof (cases "mapSessionUserInfo s sid")
  case None
  assume inv: "gate_inv s"
  note M = OnUserLogin_maps [OF inv None, of u]
  show ?thesis
  proof (cases "mapUserInfo s u")
    case None': None
    then show ?thesis
      using M(2,3) maps_inv_add [OF inv [unfolded gate_inv_def] None None'] by (simp add: gate_inv_def user_session_def)
  next
    case (Some i)
    have "maps_inv ((mapSessionUserInfo s)(guSessionId i := None)) ((mapUserInfo s)(u := None))"
      by (rule maps_inv_remove [OF inv [unfolded gate_inv_def] Some])
    from maps_inv_add [OF this, of sid u] show ?thesis
      using M(2,3) None Some by (simp add: gate_inv_def user_session_def)
  qed
qed (simp add: OnUserLogin_used)

text \<open>A login of a free session moves the user to it; one of a bound session is refused.\<close>

lemma user_session_OnUserLogin:
  assumes "gate_inv s" "mapSessionUserInfo s sid = None"
  shows "user_session (snd (OnUserLogin sid u s)) = (user_session s)(u \<mapsto> sid)"
  using OnUserLogin_maps(2) [OF assms, of u] by (auto simp: user_session_def fun_eq_iff)

section \<open>Events\<close>

datatype 'd gate_event =
    GateLogin session_id_t client_head string string
  | GateLoginRsp session_id_t server_head "'d game_body"
  | GateTick
  | GateDefault session_id_t u32 string

definition gate_do ::
    "endian \<Rightarrow> (string \<Rightarrow> server_head option) \<Rightarrow> (string \<Rightarrow> server_head) \<Rightarrow> 'd gate_event \<Rightarrow> 'd gate_server \<Rightarrow> 'd gate_server option" where
  "gate_do e parseHead failedHead ev s =
     (case ev of
        GateLogin sid head token name \<Rightarrow> OnHandleCSPlayerLoginReq sid head token name s
      | GateLoginRsp sid hr body \<Rightarrow> Some (Gate_OnLoginRsp sid hr body s)
      | GateTick \<Rightarrow> Some (Gate_OnTimeout s)
      | GateDefault sid ty data \<Rightarrow> Some (OnServerMessage e parseHead failedHead sid ty data s))"

fun gate_run ::
    "endian \<Rightarrow> (string \<Rightarrow> server_head option) \<Rightarrow> (string \<Rightarrow> server_head) \<Rightarrow> 'd gate_event list \<Rightarrow> 'd gate_server \<Rightarrow> 'd gate_server option" where
  "gate_run e parseHead failedHead [] s = Some s"
| "gate_run e parseHead failedHead (x # xs) s = Option.bind (gate_do e parseHead failedHead x s) (gate_run e parseHead failedHead xs)"

definition gate_started :: "'d game_body packet_net \<Rightarrow> gov \<Rightarrow> 'd gate_server" where
  "gate_started net g = \<lparr>gtNet = net, gtRpc = RpcModule, gtGov = g, mapSessionUserInfo = Map.empty, mapUserInfo = Map.empty, gtClosed = []\<rparr>"

lemma OnHandleCSPlayerLoginReq_effect:
  assumes "OnHandleCSPlayerLoginReq sid head token name s = Some s'"
  obtains dest where "GetServerSessionIdByKey LogicServer name (gtGov s) = Some dest"
    "gtRpc s' = RpcRequest dest msgid_login_rsp (LoginCallback sid head) (gtRpc s)"
    "gtNet s' = snd (SendPacket dest msgid_login_req (ServerHead (default_server_head\<lparr>sh_user_id := name, sh_query_id := nQueryId (gtRpc s')\<rparr>))
       (CSPlayerLoginReq token name) (gtNet s))"
    "mapSessionUserInfo s' = mapSessionUserInfo s" "mapUserInfo s' = mapUserInfo s" "gtGov s' = gtGov s" "gtClosed s' = gtClosed s"
proof -
  have "msgid_login_req + 1 = msgid_login_rsp" by (simp add: msgid_login_req_def msgid_login_rsp_def)
  then show thesis using assms by (auto simp: OnHandleCSPlayerLoginReq_def RpcRequest_packet_def Let_def intro: that)
qed

lemma LoginCallback_call_cases:
  obtains
    (refused) "LoginCallback_call (LoginCallback sid head) (d, hr, b) s = s"
      "sh_error_code hr \<noteq> 0 \<or> mapSessionUserInfo s sid \<noteq> None"
  | (bound) "LoginCallback_call (LoginCallback sid head) (d, hr, b) s =
      Gate_send sid msgid_login_rsp (ClientHead head) b (snd (OnUserLogin sid (sh_user_id hr) s))"
      "sh_error_code hr = 0" "mapSessionUserInfo s sid = None"
proof (cases "sh_error_code hr \<noteq> 0 \<or> mapSessionUserInfo s sid \<noteq> None")
  case True
  then show thesis using refused by (auto simp: OnUserLogin_used)
next
  case False
  have "fst (OnUserLogin sid (sh_user_id hr) s)" using False by (simp add: OnUserLogin_def Let_def)
  then show thesis using bound False by (cases "OnUserLogin sid (sh_user_id hr) s") simp
qed

lemma gate_inv_callback: "gate_inv s \<Longrightarrow> gate_inv (LoginCallback_call f a s)"
proof -
  assume inv: "gate_inv s"
  obtain sid head d hr b where f: "f = LoginCallback sid head" "a = (d, hr, b)" by (cases f; cases a) auto
  have inv': "gate_inv (Gate_send sid msgid_login_rsp (ClientHead head) b (snd (OnUserLogin sid (sh_user_id hr) s)))"
    using gate_inv_OnUserLogin [OF inv, of sid "sh_user_id hr"] by (subst gate_inv_cong(1) [OF Gate_send_fields(3,4)])
  show ?thesis
    unfolding f by (rule LoginCallback_call_cases [of sid head d hr b s]) (use inv inv' in simp_all)
qed

lemma gate_inv_callbacks: "gate_inv s \<Longrightarrow> gate_inv (Gate_callbacks rpc s)"
proof -
  assume "gate_inv s"
  then have "gate_inv (s\<lparr>gtRpc := rpc\<rparr>)" by (simp add: gate_inv_def)
  then have "gate_inv (fold (\<lambda>(f, r). LoginCallback_call f (callback_args d r)) cs (s\<lparr>gtRpc := rpc\<rparr>))" for cs d
    by (induction cs rule: rev_induct) (auto intro: gate_inv_callback)
  then show ?thesis unfolding Gate_callbacks_def .
qed

lemma OnServerMessage_maps [simp]:
  "mapSessionUserInfo (OnServerMessage e p fh sid ty data s) = mapSessionUserInfo s"
  "mapUserInfo (OnServerMessage e p fh sid ty data s) = mapUserInfo s"
  by (auto simp: OnServerMessage_def Let_def split: option.splits prod.splits)

lemma gate_inv_do: "gate_inv s \<Longrightarrow> gate_do e p fh x s = Some s' \<Longrightarrow> gate_inv s'"
proof (cases x)
  case (GateLogin sid head token name)
  assume inv: "gate_inv s" and "gate_do e p fh x s = Some s'"
  then have "OnHandleCSPlayerLoginReq sid head token name s = Some s'" using GateLogin by (simp add: gate_do_def)
  then obtain dest where "mapSessionUserInfo s' = mapSessionUserInfo s" "mapUserInfo s' = mapUserInfo s"
    by (rule OnHandleCSPlayerLoginReq_effect)
  then show ?thesis using inv gate_inv_cong(1) [of s' s] by simp
next
  case (GateDefault sid ty data)
  assume "gate_inv s" "gate_do e p fh x s = Some s'"
  then show ?thesis using GateDefault gate_inv_cong(1) [of s' s] by (auto simp: gate_do_def)
qed (auto simp: gate_do_def Gate_OnLoginRsp_def Gate_OnTimeout_def intro: gate_inv_callbacks)

definition gate_step :: "'d gate_server \<Rightarrow> 'd gate_server \<Rightarrow> bool" where
  "gate_step s s' \<longleftrightarrow> (\<exists>e p fh x. gate_do e p fh x s = Some s')"

lemma gate_inv_started: "gate_inv (gate_started net g)"
  by (simp add: gate_started_def gate_inv_def maps_inv_def)

interpretation gate: invariant_system "\<lambda>s. \<exists>net g. s = gate_started net g" gate_step gate_inv
  by unfold_locales (auto intro: gate_inv_do gate_inv_started simp: gate_step_def)

lemma gate_run_steps: "gate_run e p fh xs s = Some s' \<Longrightarrow> gate_step\<^sup>*\<^sup>* s s'"
proof (induction xs arbitrary: s)
  case (Cons x xs)
  then obtain s1 where "gate_do e p fh x s = Some s1" "gate_run e p fh xs s1 = Some s'" by (auto split: bind_splits)
  moreover from this(1) have "gate_step s s1" unfolding gate_step_def by blast
  ultimately show ?case using Cons.IH [of s1] by (blast intro: converse_rtranclp_into_rtranclp)
qed simp

lemma gate_run_inv: "gate_run e p fh xs (gate_started net g) = Some s \<Longrightarrow> gate_inv s"
  by (rule gate.reachable_inv [OF _ gate_run_steps]) auto

section \<open>Properties\<close>

text \<open>
  C17: in every run of the gate the user map and the session map are inverse to each other, and a
  successful login response for a session without a user binds the user to exactly that session,
  closes the session the user was bound to before and leaves every other user alone; a session that
  has a user keeps it.
\<close>

theorem gate_login_moves_user:
  assumes "gate_run e p fh xs (gate_started net g) = Some s"
  shows "(\<forall>sid u. (\<exists>i. mapSessionUserInfo s sid = Some i \<and> guUserId i = u) \<longleftrightarrow> user_session s u = Some sid) \<and>
    (\<forall>sid u. if mapSessionUserInfo s sid \<noteq> None then OnUserLogin sid u s = (False, s)
       else fst (OnUserLogin sid u s) \<and> user_session (snd (OnUserLogin sid u s)) = (user_session s)(u \<mapsto> sid) \<and>
         gtClosed (snd (OnUserLogin sid u s)) = gtClosed s @ (case user_session s u of None \<Rightarrow> [] | Some old \<Rightarrow> [old]))"
proof (intro conjI allI)
  note inv = gate_run_inv [OF assms]
  fix sid u
  show "(\<exists>i. mapSessionUserInfo s sid = Some i \<and> guUserId i = u) \<longleftrightarrow> user_session s u = Some sid"
    using gate_invD [OF inv] unfolding user_session_def map_option_eq_Some by metis
  show "if mapSessionUserInfo s sid \<noteq> None then OnUserLogin sid u s = (False, s)
       else fst (OnUserLogin sid u s) \<and> user_session (snd (OnUserLogin sid u s)) = (user_session s)(u \<mapsto> sid) \<and>
         gtClosed (snd (OnUserLogin sid u s)) = gtClosed s @ (case user_session s u of None \<Rightarrow> [] | Some old \<Rightarrow> [old])"
    using OnUserLogin_used [of s sid u] OnUserLogin_maps(1,4) [OF inv, of sid u] user_session_OnUserLogin [OF inv, of sid u]
    by (simp split: if_split)
qed

theorem gate_login_moves_user_witness:
  "\<exists>s :: unit gate_server. gate_run LittleEndian (\<lambda>_. None) (\<lambda>_. default_server_head)
     [GateLogin 3 \<lparr>ch_query_id = 1, ch_req_time = 0, ch_error_code = 0\<rparr> ''t'' ''u''] (gate_started (sample_net {3, 7}) (single_server LogicServer 7)) = Some s \<and>
     fst (OnUserLogin 3 ''u'' s) \<and> user_session (snd (OnUserLogin 3 ''u'' s)) ''u'' = Some 3"
proof -
  let ?head = "\<lparr>ch_query_id = 1, ch_req_time = 0, ch_error_code = 0\<rparr>"
  let ?s0 = "gate_started (sample_net {3, 7}) (single_server LogicServer 7) :: unit gate_server"
  have g: "gtGov ?s0 = single_server LogicServer 7" by (simp add: gate_started_def)
  obtain s where h: "OnHandleCSPlayerLoginReq 3 ?head ''t'' ''u'' ?s0 = Some s"
    using route_single(2) [of "''u''" LogicServer 7] unfolding OnHandleCSPlayerLoginReq_def g by simp
  then have run: "gate_run LittleEndian (\<lambda>_. None) (\<lambda>_. default_server_head) [GateLogin 3 ?head ''t'' ''u''] ?s0 = Some s"
    by (simp add: gate_do_def)
  obtain dest where "mapSessionUserInfo s = mapSessionUserInfo ?s0" using h by (rule OnHandleCSPlayerLoginReq_effect)
  then have "mapSessionUserInfo s 3 = None" by (simp add: gate_started_def)
  then show ?thesis
    using run gate_login_moves_user [OF run, THEN conjunct2, THEN spec [of _ 3], THEN spec [of _ "''u''"]]
    by (intro exI [of _ s]) simp
qed

text \<open>
  C37: after initialisation, a packet of any type without a registered handler goes to the handler for
  server messages, also when a client sent it, so that it is never forwarded to a logic server. That
  handler looks up the empty user id: the packet is dropped, or sent to whoever logged in with an
  empty name.
\<close>

theorem gate_default_traffic:
  assumes "mapPackethandle m msgType = None" "msgType \<noteq> msgid_login_req"
  shows "\<exists>s'. ReadPbPacket (Gate_OnInit e parseClient parseServer failedHead parseLogin m) sid msgType data (queue, Some s) = (True, queue, Some s') \<and>
    (case user_session s [] of
       None \<Rightarrow> s' = s
     | Some dest \<Rightarrow> s' = s\<lparr>gtNet := gtNet s'\<rparr> \<and> (\<exists>h body. gtNet s' = snd (SendPacket dest msgType (ServerHead h) (StrData body) (gtNet s))))"
proof (intro exI conjI)
  let ?s' = "OnServerMessage e parseServer failedHead sid msgType data s"
  show "ReadPbPacket (Gate_OnInit e parseClient parseServer failedHead parseLogin m) sid msgType data (queue, Some s) = (True, queue, Some ?s')"
    using assms by (simp add: ReadPbPacket_def Gate_OnInit_def SetDefaultPacketHandle_def RegisterPacketHandle_def direct_def Let_def)
  show "case user_session s [] of None \<Rightarrow> ?s' = s
     | Some dest \<Rightarrow> ?s' = s\<lparr>gtNet := gtNet ?s'\<rparr> \<and> (\<exists>h body. gtNet ?s' = snd (SendPacket dest msgType (ServerHead h) (StrData body) (gtNet s)))"
    by (auto simp: OnServerMessage_def GetGateUserInfoByUserId_def user_session_def Gate_send_def Let_def split: option.splits prod.splits)
qed

theorem gate_default_traffic_witness:
  "ReadPbPacket (Gate_OnInit LittleEndian (\<lambda>_. None) (\<lambda>_. None) (\<lambda>_. default_server_head) (\<lambda>_. None)
       \<lparr>mapPackethandle = Map.empty, funDefaultPacketHandle = None\<rparr>) 3 100 ''x''
     ([], Some (gate_started (sample_net {3, 7}) (single_server LogicServer 7) :: unit gate_server)) =
   (True, [], Some (gate_started (sample_net {3, 7}) (single_server LogicServer 7)))"
proof -
  have "user_session (gate_started (sample_net {3, 7}) (single_server LogicServer 7) :: unit gate_server) [] = None"
    by (simp add: user_session_def gate_started_def)
  then show ?thesis
    using gate_default_traffic [of "\<lparr>mapPackethandle = Map.empty, funDefaultPacketHandle = None\<rparr>" 100 LittleEndian "\<lambda>_. None" "\<lambda>_. None"
        "\<lambda>_. default_server_head" "\<lambda>_. None" 3 "''x''" "[]" "gate_started (sample_net {3, 7}) (single_server LogicServer 7) :: unit gate_server"]
    by (simp add: msgid_login_req_def)
qed

end
