(* ===== verification/Logic_Server.thy ===== *)
theory Logic_Server
  imports Game_Net
begin

text \<open>
  \<open>PlayerManagerModule\<close> (src/app/game/logic_server/player_manager_module.h, player_manager_module.cpp):
  a login looks the user up among the online and the loading players, and otherwise enters the user
  among the loading ones and asks the database server; the callback of that query moves the player
  online. A shared pointer to \<open>PlayerData\<close> is its value: the two maps never share one. \<open>None\<close> is a
  routing checksum that never ends.
\<close>

section \<open>State and operations\<close>

record 'd player_data =
  pdUserCount :: "'d message list"
  pdUserBase :: "'d message"

definition PlayerData :: "'d player_data" where
  "PlayerData = \<lparr>pdUserCount = [], pdUserBase = UserBase_default\<rparr>"

datatype logic_callback = QueryCallback session_id_t server_head

record 'd logic_server =
  lgNet :: "'d game_body packet_net"
  lgRpc :: "(logic_callback, server_head \<times> 'd game_body) rpc_module"
  lgGov :: gov
  mapLoadingPlayer :: "string \<rightharpoonup> 'd player_data"
  mapOnlinePlayer :: "string \<rightharpoonup> 'd player_data"

definition Logic_send :: "session_id_t \<Rightarrow> u32 \<Rightarrow> pb_head \<Rightarrow> 'd game_body \<Rightarrow> 'd logic_server \<Rightarrow> 'd logic_server" where
  "Logic_send sid ty head body s = s\<lparr>lgNet := snd (SendPacket sid ty head body (lgNet s))\<rparr>"

definition GetPlayerData :: "string \<Rightarrow> 'd logic_server \<Rightarrow> 'd player_data option" where
  "GetPlayerData user_id s = mapOnlinePlayer s user_id"

definition LoadPlayerData :: "'d player_data \<Rightarrow> 'd game_body \<Rightarrow> bool \<times> 'd player_data" where
  "LoadPlayerData playerData queryData = (True, playerData)"

definition Logic_OnHandleCSPlayerLoginReq ::
    "session_id_t \<Rightarrow> server_head \<Rightarrow> 'd logic_server \<Rightarrow> 'd logic_server option" where
  "Logic_OnHandleCSPlayerLoginReq sessionId head s =
     (let user = sh_user_id head
      in if GetPlayerData user s \<noteq> None
         then Some (Logic_send sessionId msgid_login_rsp (ServerHead (head\<lparr>sh_error_code := cs_msg_not_find_user\<rparr>)) CSPlayerLoginRsp s)
         else if mapLoadingPlayer s user \<noteq> None
         then Some (Logic_send sessionId msgid_login_rsp (ServerHead (head\<lparr>sh_error_code := cs_msg_user_loading\<rparr>)) CSPlayerLoginRsp s)
         else let s = s\<lparr>mapLoadingPlayer := (mapLoadingPlayer s)(user \<mapsto> PlayerData)\<rparr>
              in map_option (\<lambda>querySessionId.
                     case RpcRequest_packet querySessionId msgid_querydata_req (ServerHead head) (SSQueryDataReq user)
                            (QueryCallback sessionId head) (lgRpc s, lgNet s) of
                       (rpc, net) \<Rightarrow> s\<lparr>lgRpc := rpc, lgNet := net\<rparr>)
                   (GetServerSessionIdByKey DBServer user (lgGov s)))"

text \<open>The callback of the query: the loading part, a loop left by \<open>break\<close>, and the reply.\<close>

definition finish_loading :: "string \<Rightarrow> server_head \<Rightarrow> 'd game_body \<Rightarrow> 'd logic_server \<Rightarrow> 'd logic_server" where
  "finish_loading user headRsp msgRsp s =
     (if sh_error_code headRsp \<noteq> 0 then s\<lparr>mapLoadingPlayer := (mapLoadingPlayer s)(user := None)\<rparr>
      else case mapLoadingPlayer s user of
             None \<Rightarrow> s
           | Some pPlayData \<Rightarrow>
               (case LoadPlayerData pPlayData msgRsp of
                  (False, _) \<Rightarrow> s
                | (True, pPlayData) \<Rightarrow>
                    s\<lparr>mapOnlinePlayer := (if mapOnlinePlayer s user = None then (mapOnlinePlayer s)(user \<mapsto> pPlayData) else mapOnlinePlayer s),
                      mapLoadingPlayer := (mapLoadingPlayer s)(user := None)\<rparr>))"

fun QueryCallback_call ::
    "logic_callback \<Rightarrow> session_id_t \<times> server_head \<times> 'd game_body \<Rightarrow> 'd logic_server \<Rightarrow> 'd logic_server" where
  "QueryCallback_call (QueryCallback sessionId head) (nSessionIdRsp, headRsp, msgRsp) s =
     Logic_send sessionId msgid_login_rsp (ServerHead head) CSPlayerLoginRsp (finish_loading (sh_user_id head) headRsp msgRsp s)"

definition Logic_callbacks ::
    "(logic_callback, server_head \<times> 'd game_body) rpc_module \<Rightarrow> 'd logic_server \<Rightarrow> 'd logic_server" where
  "Logic_callbacks rpc s =
     fold (\<lambda>(f, r). QueryCallback_call f (callback_args (SSQueryDataRsp None) r)) (called_now (lgRpc s) rpc) (s\<lparr>lgRpc := rpc\<rparr>)"

definition Logic_OnQueryRsp :: "session_id_t \<Rightarrow> server_head \<Rightarrow> 'd game_body \<Rightarrow> 'd logic_server \<Rightarrow> 'd logic_server" where
  "Logic_OnQueryRsp sid headRsp rsp s =
     Logic_callbacks (RegisterNetHandle msgid_querydata_rsp sid (sh_query_id headRsp) (headRsp, rsp) (lgRpc s)) s"

definition Logic_OnTimeout :: "'d logic_server \<Rightarrow> 'd logic_server" where
  "Logic_OnTimeout s = Logic_callbacks (RegisterTimeoutHandle msgid_querydata_rsp [] (lgRpc s)) s"

section \<open>Events\<close>

datatype 'd logic_event =
    LogicLogin session_id_t server_head
  | LogicQueryRsp session_id_t server_head "'d game_body"
  | LogicTick

fun logic_do :: "'d logic_event \<Rightarrow> 'd logic_server \<Rightarrow> 'd logic_server option" where
  "logic_do (LogicLogin sid head) s = Logic_OnHandleCSPlayerLoginReq sid head s"
| "logic_do (LogicQueryRsp sid head body) s = Some (Logic_OnQueryRsp sid head body s)"
| "logic_do LogicTick s = Some (Logic_OnTimeout s)"

fun logic_run :: "'d logic_event list \<Rightarrow> 'd logic_server \<Rightarrow> 'd logic_server option" where
  "logic_run [] s = Some s"
| "logic_run (e # es) s = Option.bind (logic_do e s) (logic_run es)"

text \<open>A server just started: no player, no query.\<close>

definition logic_started :: "'d game_body packet_net \<Rightarrow> gov \<Rightarrow> 'd logic_server" where
  "logic_started net g = \<lparr>lgNet = net, lgRpc = RpcModule, lgGov = g, mapLoadingPlayer = Map.empty, mapOnlinePlayer = Map.empty\<rparr>"

section \<open>Invariant\<close>

fun query_user :: "logic_callback \<Rightarrow> string" where
  "query_user (QueryCallback sid head) = sh_user_id head"

abbreviation queries :: "'d logic_server \<Rightarrow> (int \<times> logic_callback) list" where
  "queries s \<equiv> waiting msgid_querydata_rsp (lgRpc s)"

text \<open>
  No user is both loading and online; the loading users are the users of the waiting queries, each of
  one; nothing but empty player data is online.
\<close>

definition logic_inv :: "'d logic_server \<Rightarrow> bool" where
  "logic_inv s \<longleftrightarrow>
     rpc_inv (lgRpc s) \<and> dom (mapLoadingPlayer s) \<inter> dom (mapOnlinePlayer s) = {} \<and>
     dom (mapLoadingPlayer s) = (query_user \<circ> snd) ` set (queries s) \<and> inj_on (query_user \<circ> snd) (set (queries s)) \<and>
     (\<forall>p \<in> ran (mapLoadingPlayer s) \<union> ran (mapOnlinePlayer s). p = PlayerData)"

lemma logic_invD:
  assumes "logic_inv s"
  shows "rpc_inv (lgRpc s)" "dom (mapLoadingPlayer s) \<inter> dom (mapOnlinePlayer s) = {}"
    "dom (mapLoadingPlayer s) = (query_user \<circ> snd) ` set (queries s)" "inj_on (query_user \<circ> snd) (set (queries s))"
    "\<forall>p \<in> ran (mapLoadingPlayer s) \<union> ran (mapOnlinePlayer s). p = PlayerData"
  using assms unfolding logic_inv_def by blast+

lemma logic_inv_cong:
  assumes "lgRpc s' = lgRpc s" "mapLoadingPlayer s' = mapLoadingPlayer s" "mapOnlinePlayer s' = mapOnlinePlayer s"
  shows "logic_inv s' = logic_inv s"
  by (simp only: logic_inv_def assms)

lemma Logic_send_fields [simp]:
  "lgRpc (Logic_send sid ty h b s) = lgRpc s" "lgGov (Logic_send sid ty h b s) = lgGov s"
  "mapLoadingPlayer (Logic_send sid ty h b s) = mapLoadingPlayer s" "mapOnlinePlayer (Logic_send sid ty h b s) = mapOnlinePlayer s"
  "pnOpen (lgNet (Logic_send sid ty h b s)) = pnOpen (lgNet s)"
  by (simp_all add: Logic_send_def)

lemma finish_loading_fields [simp]:
  "lgRpc (finish_loading u hr b s) = lgRpc s" "lgNet (finish_loading u hr b s) = lgNet s"
  "lgGov (finish_loading u hr b s) = lgGov s"
  "mapLoadingPlayer (finish_loading u hr b s) = (mapLoadingPlayer s)(u := None)"
  by (auto simp: finish_loading_def LoadPlayerData_def split: option.splits)

lemma finish_loading_online:
  "mapOnlinePlayer (finish_loading u hr b s) =
     (if sh_error_code hr = 0 \<and> mapOnlinePlayer s u = None \<and> mapLoadingPlayer s u \<noteq> None
      then (mapOnlinePlayer s)(u := mapLoadingPlayer s u) else mapOnlinePlayer s)"
  by (auto simp: finish_loading_def LoadPlayerData_def split: option.splits)

lemma QueryCallback_call_fields [simp]:
  "lgRpc (QueryCallback_call f a s) = lgRpc s" "lgGov (QueryCallback_call f a s) = lgGov s"
  "mapLoadingPlayer (QueryCallback_call f a s) = (mapLoadingPlayer s)(query_user f := None)"
  "pnOpen (lgNet (QueryCallback_call f a s)) = pnOpen (lgNet s)"
  by (cases f; cases a; simp)+

lemma QueryCallback_call_online:
  "mapOnlinePlayer (QueryCallback_call f a s) =
     (if sh_error_code (fst (snd a)) = 0 \<and> mapOnlinePlayer s (query_user f) = None \<and> mapLoadingPlayer s (query_user f) \<noteq> None
      then (mapOnlinePlayer s)(query_user f := mapLoadingPlayer s (query_user f)) else mapOnlinePlayer s)"
  by (cases f; cases a) (auto simp: finish_loading_online)

text \<open>The calls of a time-out tick only remove their users from the loading ones and reply.\<close>

lemma timeouts_fields:
  "lgRpc (fold (\<lambda>(f, r). QueryCallback_call f (callback_args d r)) (map (\<lambda>(q, f). (f, TimedOut)) cs) s) = lgRpc s"
  "lgGov (fold (\<lambda>(f, r). QueryCallback_call f (callback_args d r)) (map (\<lambda>(q, f). (f, TimedOut)) cs) s) = lgGov s"
  "mapOnlinePlayer (fold (\<lambda>(f, r). QueryCallback_call f (callback_args d r)) (map (\<lambda>(q, f). (f, TimedOut)) cs) s) = mapOnlinePlayer s"
  "mapLoadingPlayer (fold (\<lambda>(f, r). QueryCallback_call f (callback_args d r)) (map (\<lambda>(q, f). (f, TimedOut)) cs) s) =
     mapLoadingPlayer s |` (- (query_user \<circ> snd) ` set cs)"
proof (induction cs arbitrary: s)
  case (Cons c cs)
  obtain q f where c: "c = (q, f)" by fastforce
  { case 1 show ?case by (simp add: c Cons.IH) }
  { case 2 show ?case by (simp add: c Cons.IH) }
  { case 3 show ?case by (simp add: c Cons.IH QueryCallback_call_online default_server_head_def ss_msg_timeout_def) }
  { case 4 show ?case by (auto simp: c Cons.IH restrict_map_def fun_eq_iff) }
qed (simp_all add: restrict_map_def)

lemma Logic_OnTimeout_fields:
  "lgRpc (Logic_OnTimeout s) = RegisterTimeoutHandle msgid_querydata_rsp [] (lgRpc s)"
  "lgGov (Logic_OnTimeout s) = lgGov s" "mapOnlinePlayer (Logic_OnTimeout s) = mapOnlinePlayer s"
  "mapLoadingPlayer (Logic_OnTimeout s) =
     mapLoadingPlayer s |` (- (query_user \<circ> snd) ` set (last_waiting msgid_querydata_rsp (lgRpc s)))"
proof -
  have c: "called_now (lgRpc s) (RegisterTimeoutHandle msgid_querydata_rsp [] (lgRpc s)) =
      map (\<lambda>(q, f). (f, TimedOut)) (last_waiting msgid_querydata_rsp (lgRpc s))"
    by (simp add: called_now_append [OF tick_effect(1)] split_def comp_def)
  show "lgRpc (Logic_OnTimeout s) = RegisterTimeoutHandle msgid_querydata_rsp [] (lgRpc s)"
    "lgGov (Logic_OnTimeout s) = lgGov s" "mapOnlinePlayer (Logic_OnTimeout s) = mapOnlinePlayer s"
    "mapLoadingPlayer (Logic_OnTimeout s) =
       mapLoadingPlayer s |` (- (query_user \<circ> snd) ` set (last_waiting msgid_querydata_rsp (lgRpc s)))"
    unfolding Logic_OnTimeout_def Logic_callbacks_def c timeouts_fields by simp_all
qed

lemma ran_map_le: "m \<subseteq>\<^sub>m m' \<Longrightarrow> ran m \<subseteq> ran m'"
  by (force simp: map_le_def ran_def dom_def)

lemma rpc_inv_tick: "rpc_inv s \<Longrightarrow> rpc_inv (RegisterTimeoutHandle m [] s)"
  using rpc_inv_do [of s "Tick m []"] by simp

lemma logic_inv_OnTimeout:
  assumes "logic_inv s"
  shows "logic_inv (Logic_OnTimeout s)"
proof -
  note D = logic_invD [OF assms]
  let ?m = msgid_querydata_rsp and ?u = "query_user \<circ> snd"
  let ?cur = "set (current_waiting ?m (lgRpc s))" and ?last = "set (last_waiting ?m (lgRpc s))"
  have w: "set (queries s) = ?cur \<union> ?last" by (simp add: waiting_split)
  have d: "distinct (map fst (current_waiting ?m (lgRpc s) @ last_waiting ?m (lgRpc s)))"
    using rpc_invD(4) [OF D(1), of ?m] by (simp only: waiting_split)
  then have "?cur \<inter> ?last = {}" by (auto simp: disjoint_iff image_iff)
  then have "?u ` ?cur \<inter> ?u ` ?last = {}" using D(4) unfolding w by (metis inj_on_image_Int Un_upper1 Un_upper2 image_empty)
  then have dom: "dom (mapLoadingPlayer (Logic_OnTimeout s)) = ?u ` ?cur"
    using D(3) unfolding w Logic_OnTimeout_fields(4) by auto
  have wait: "queries (Logic_OnTimeout s) = current_waiting ?m (lgRpc s)"
    by (simp add: Logic_OnTimeout_fields(1) tick_effect(2))
  have sub: "mapLoadingPlayer (Logic_OnTimeout s) \<subseteq>\<^sub>m mapLoadingPlayer s"
    by (simp add: Logic_OnTimeout_fields(4) map_le_def)
  show ?thesis
    unfolding logic_inv_def wait
  proof (intro conjI)
    show "rpc_inv (lgRpc (Logic_OnTimeout s))" using rpc_inv_tick [OF D(1)] by (simp add: Logic_OnTimeout_fields(1))
    show "dom (mapLoadingPlayer (Logic_OnTimeout s)) \<inter> dom (mapOnlinePlayer (Logic_OnTimeout s)) = {}"
      using D(2) map_le_implies_dom_le [OF sub] unfolding Logic_OnTimeout_fields(3) by blast
    show "inj_on ?u ?cur" using D(4) unfolding w by (rule inj_on_subset) simp
    show "\<forall>p \<in> ran (mapLoadingPlayer (Logic_OnTimeout s)) \<union> ran (mapOnlinePlayer (Logic_OnTimeout s)). p = PlayerData"
      using D(5) ran_map_le [OF sub] unfolding Logic_OnTimeout_fields(3) by blast
  qed (rule dom)
qed

text \<open>The three outcomes of a login.\<close>

lemma Logic_login_online:
  "mapOnlinePlayer s (sh_user_id h) \<noteq> None \<Longrightarrow> Logic_OnHandleCSPlayerLoginReq sid h s =
     Some (Logic_send sid msgid_login_rsp (ServerHead (h\<lparr>sh_error_code := cs_msg_not_find_user\<rparr>)) CSPlayerLoginRsp s)"
  by (simp add: Logic_OnHandleCSPlayerLoginReq_def GetPlayerData_def Let_def)

lemma Logic_login_loading:
  "mapOnlinePlayer s (sh_user_id h) = None \<Longrightarrow> mapLoadingPlayer s (sh_user_id h) \<noteq> None \<Longrightarrow> Logic_OnHandleCSPlayerLoginReq sid h s =
     Some (Logic_send sid msgid_login_rsp (ServerHead (h\<lparr>sh_error_code := cs_msg_user_loading\<rparr>)) CSPlayerLoginRsp s)"
  by (simp add: Logic_OnHandleCSPlayerLoginReq_def GetPlayerData_def Let_def)

lemma Logic_login_new:
  assumes "mapOnlinePlayer s (sh_user_id h) = None" "mapLoadingPlayer s (sh_user_id h) = None"
    and "Logic_OnHandleCSPlayerLoginReq sid h s = Some s'"
  obtains dest where "GetServerSessionIdByKey DBServer (sh_user_id h) (lgGov s) = Some dest"
    "lgRpc s' = RpcRequest dest msgid_querydata_rsp (QueryCallback sid h) (lgRpc s)"
    "mapLoadingPlayer s' = (mapLoadingPlayer s)(sh_user_id h \<mapsto> PlayerData)" "mapOnlinePlayer s' = mapOnlinePlayer s"
    "lgGov s' = lgGov s"
    "lgNet s' = snd (SendPacket dest msgid_querydata_req (ServerHead (h\<lparr>sh_query_id := nQueryId (lgRpc s')\<rparr>)) (SSQueryDataReq (sh_user_id h)) (lgNet s))"
proof -
  have "msgid_querydata_req + 1 = msgid_querydata_rsp" by (simp add: msgid_querydata_req_def msgid_querydata_rsp_def)
  then show thesis
    using assms by (auto simp: Logic_OnHandleCSPlayerLoginReq_def GetPlayerData_def RpcRequest_packet_def Let_def intro: that)
qed

lemma logic_inv_login:
  assumes inv: "logic_inv s" and step: "Logic_OnHandleCSPlayerLoginReq sid h s = Some s'"
  shows "logic_inv s'"
proof (cases "mapOnlinePlayer s (sh_user_id h) = None \<and> mapLoadingPlayer s (sh_user_id h) = None")
  case True
  note D = logic_invD [OF inv]
  let ?u = "sh_user_id h" and ?f = "QueryCallback sid h" and ?q = "nQueryId (lgRpc s) + 1"
  obtain dest where s': "lgRpc s' = RpcRequest dest msgid_querydata_rsp ?f (lgRpc s)"
    "mapLoadingPlayer s' = (mapLoadingPlayer s)(?u \<mapsto> PlayerData)" "mapOnlinePlayer s' = mapOnlinePlayer s"
    using Logic_login_new [OF True [THEN conjunct1] True [THEN conjunct2] step] by metis
  have w: "set (queries s') = insert (?q, ?f) (set (queries s))"
    unfolding s'(1) by (simp add: waiting_RpcRequest [OF D(1)])
  have new: "?u \<notin> (query_user \<circ> snd) ` set (queries s)" using D(3) True by (metis domIff)
  show ?thesis
    unfolding logic_inv_def w
  proof (intro conjI)
    show "rpc_inv (lgRpc s')" unfolding s'(1) by (rule rpc_inv_RpcRequest [OF D(1)])
    show "dom (mapLoadingPlayer s') \<inter> dom (mapOnlinePlayer s') = {}" using D(2) True unfolding s'(2,3) by auto
    show "dom (mapLoadingPlayer s') = (query_user \<circ> snd) ` insert (?q, ?f) (set (queries s))" unfolding s'(2) using D(3) by simp
    have "(query_user \<circ> snd) (?q, ?f) \<notin> (query_user \<circ> snd) ` (set (queries s) - {(?q, ?f)})"
      using new image_mono [OF Diff_subset] by (simp only: comp_apply snd_conv query_user.simps) blast
    then show "inj_on (query_user \<circ> snd) (insert (?q, ?f) (set (queries s)))"
      unfolding inj_on_insert using D(4) by blast
    have "ran (mapLoadingPlayer s') \<subseteq> insert PlayerData (ran (mapLoadingPlayer s))"
      unfolding s'(2) by (auto simp: ran_def)
    then show "\<forall>p \<in> ran (mapLoadingPlayer s') \<union> ran (mapOnlinePlayer s'). p = PlayerData" using D(5) unfolding s'(3) by blast
  qed
next
  case False
  then obtain x where "s' = Logic_send sid msgid_login_rsp x CSPlayerLoginRsp s"
    using step Logic_login_online [of s h sid] Logic_login_loading [of s h sid] by (metis option.inject)
  then show ?thesis using inv logic_inv_cong [of s' s] by simp
qed

lemma Logic_OnQueryRsp_cases:
  assumes "rpc_inv (lgRpc s)"
  obtains
    (unknown) "sh_query_id hr \<notin> fst ` set (queries s)" "Logic_OnQueryRsp sid hr b s = s"
  | (delivered) f where "(sh_query_id hr, f) \<in> set (queries s)"
      "Logic_OnQueryRsp sid hr b s = QueryCallback_call f (sid, hr, b)
         (s\<lparr>lgRpc := RegisterNetHandle msgid_querydata_rsp sid (sh_query_id hr) (hr, b) (lgRpc s)\<rparr>)"
      "set (queries (Logic_OnQueryRsp sid hr b s)) = {e \<in> set (queries s). fst e \<noteq> sh_query_id hr}"
proof -
  let ?rpc = "RegisterNetHandle msgid_querydata_rsp sid (sh_query_id hr) (hr, b) (lgRpc s)"
  note unf = Logic_OnQueryRsp_def Logic_callbacks_def
  show thesis
  proof (rule RegisterNetHandle_cases [OF assms, of "sh_query_id hr" msgid_querydata_rsp sid "(hr, b)"])
    assume "sh_query_id hr \<notin> fst ` set (queries s)" "?rpc = lgRpc s"
    then show thesis using unknown by (simp add: unf)
  next
    fix f
    assume f: "(sh_query_id hr, f) \<in> set (queries s)"
      and "rpcCalls ?rpc = rpcCalls (lgRpc s) @ [(sh_query_id hr, f, Response sid (hr, b))]"
      and w: "set (waiting msgid_querydata_rsp ?rpc) = {e \<in> set (queries s). fst e \<noteq> sh_query_id hr}"
    then have c: "Logic_OnQueryRsp sid hr b s = QueryCallback_call f (sid, hr, b) (s\<lparr>lgRpc := ?rpc\<rparr>)"
      by (simp add: unf called_now_append)
    then show thesis by (rule delivered [OF f]) (simp add: c w)
  qed
qed

lemma logic_inv_OnQueryRsp:
  assumes inv: "logic_inv s"
  shows "logic_inv (Logic_OnQueryRsp sid hr b s)"
proof (rule Logic_OnQueryRsp_cases [OF logic_invD(1) [OF inv], of hr sid b])
  assume "Logic_OnQueryRsp sid hr b s = s"
  then show ?thesis using inv by simp
next
  fix f
  let ?q = "sh_query_id hr" and ?s' = "Logic_OnQueryRsp sid hr b s" and ?u = "query_user \<circ> snd"
  assume f: "(?q, f) \<in> set (queries s)"
    and s': "?s' = QueryCallback_call f (sid, hr, b) (s\<lparr>lgRpc := RegisterNetHandle msgid_querydata_rsp sid ?q (hr, b) (lgRpc s)\<rparr>)"
    and w: "set (queries ?s') = {e \<in> set (queries s). fst e \<noteq> ?q}"
  note D = logic_invD [OF inv]
  have d: "distinct (map fst (queries s))" by (rule rpc_invD(4) [OF D(1)])
  have w': "set (queries ?s') = set (queries s) - {(?q, f)}"
    unfolding w using f d by (auto dest: eq_key_imp_eq_value)
  have load: "mapLoadingPlayer ?s' = (mapLoadingPlayer s)(query_user f := None)" unfolding s' by simp
  have online: "mapOnlinePlayer ?s' = mapOnlinePlayer s \<or>
      mapOnlinePlayer ?s' = (mapOnlinePlayer s)(query_user f := mapLoadingPlayer s (query_user f))"
    unfolding s' QueryCallback_call_online by simp
  show ?thesis
    unfolding logic_inv_def
  proof (intro conjI)
    show "rpc_inv (lgRpc ?s')" unfolding s' by (simp add: rpc_inv_RegisterNetHandle [OF D(1)])
    show "dom (mapLoadingPlayer ?s') \<inter> dom (mapOnlinePlayer ?s') = {}"
      using online D(2) unfolding load by (auto split: if_splits)
    have "?u ` (set (queries s) - {(?q, f)}) = ?u ` set (queries s) - {query_user f}"
      using D(4) f by (subst inj_on_image_set_diff [OF D(4)]) auto
    then show "dom (mapLoadingPlayer ?s') = ?u ` set (queries ?s')" unfolding w' load using D(3) by (simp del: comp_apply)
    show "inj_on ?u (set (queries ?s'))" using D(4) unfolding w' by (rule inj_on_subset) blast
    have "ran (mapLoadingPlayer ?s') \<union> ran (mapOnlinePlayer ?s') \<subseteq> ran (mapLoadingPlayer s) \<union> ran (mapOnlinePlayer s)"
      using online unfolding load by (auto simp: ran_def split: if_splits)
    then show "\<forall>p \<in> ran (mapLoadingPlayer ?s') \<union> ran (mapOnlinePlayer ?s'). p = PlayerData" using D(5) by blast
  qed
qed

lemma logic_inv_do: "logic_inv s \<Longrightarrow> logic_do e s = Some s' \<Longrightarrow> logic_inv s'"
  by (cases e) (auto intro: logic_inv_login logic_inv_OnQueryRsp logic_inv_OnTimeout)

lemma logic_inv_started: "logic_inv (logic_started net g)"
  by (simp add: logic_inv_def logic_started_def rpc_inv_init) (simp add: waiting_def RpcModule_def)

interpretation logic: invariant_system "\<lambda>s. \<exists>net g. s = logic_started net g" "\<lambda>s s'. \<exists>e. logic_do e s = Some s'" logic_inv
  by unfold_locales (auto intro: logic_inv_do logic_inv_started)

lemma logic_run_steps: "logic_run es s = Some s' \<Longrightarrow> (\<lambda>s s'. \<exists>e. logic_do e s = Some s')\<^sup>*\<^sup>* s s'"
  by (induction es arbitrary: s) (auto split: bind_splits intro: converse_rtranclp_into_rtranclp)

lemma logic_run_inv: "logic_run es (logic_started net g) = Some s \<Longrightarrow> logic_inv s"
  by (rule logic.reachable_inv [OF _ logic_run_steps]) auto

section \<open>What a run does to a query and to a user\<close>

lemma calls_rpc: "lgRpc (fold (\<lambda>(f, r). QueryCallback_call f (callback_args d r)) cs t) = lgRpc t"
  by (induction cs arbitrary: t) auto

lemma Logic_OnQueryRsp_rpc:
  "lgRpc (Logic_OnQueryRsp sid hr b s) = RegisterNetHandle msgid_querydata_rsp sid (sh_query_id hr) (hr, b) (lgRpc s)"
  by (simp add: Logic_OnQueryRsp_def Logic_callbacks_def calls_rpc)

lemma generation_step:
  assumes inv: "logic_inv s" and step: "logic_do e s = Some s'" and q: "q \<le> nQueryId (lgRpc s)"
  shows "generation m q (lgRpc s') \<le> generation m q (lgRpc s)" "q \<le> nQueryId (lgRpc s')"
    "e = LogicTick \<Longrightarrow> generation msgid_querydata_rsp q (lgRpc s') = generation msgid_querydata_rsp q (lgRpc s) - 1"
proof -
  note R = logic_invD(1) [OF inv]
  have go: "generation m q (lgRpc s') \<le> generation m q (lgRpc s) \<and> q \<le> nQueryId (lgRpc s')" if "lgRpc s' = rpc_do x (lgRpc s)" for x
    using generation_do [OF R q, of m x] nQueryId_mono [of "lgRpc s" x] q unfolding that by simp
  have same: "generation m q (lgRpc s') \<le> generation m q (lgRpc s) \<and> q \<le> nQueryId (lgRpc s')" if "lgRpc s' = lgRpc s"
    using q unfolding that by simp
  have "generation m q (lgRpc s') \<le> generation m q (lgRpc s) \<and> q \<le> nQueryId (lgRpc s')"
  proof (cases e)
    case (LogicLogin sid h)
    then have st: "Logic_OnHandleCSPlayerLoginReq sid h s = Some s'" using step by simp
    show ?thesis
    proof (cases "mapOnlinePlayer s (sh_user_id h) = None \<and> mapLoadingPlayer s (sh_user_id h) = None")
      case True
      then obtain dest where "lgRpc s' = RpcRequest dest msgid_querydata_rsp (QueryCallback sid h) (lgRpc s)"
        using Logic_login_new [OF _ _ st] by metis
      then show ?thesis using go [of "Request dest msgid_querydata_rsp (QueryCallback sid h)"] by simp
    next
      case False
      then have "lgRpc s' = lgRpc s"
        using st Logic_login_online [of s h sid] Logic_login_loading [of s h sid] by (metis Logic_send_fields(1) option.inject)
      then show ?thesis by (rule same)
    qed
  next
    case (LogicQueryRsp sid hr b)
    then have "s' = Logic_OnQueryRsp sid hr b s" using step by simp
    then show ?thesis
      using go [of "Respond msgid_querydata_rsp sid (sh_query_id hr) (hr, b)"] by (simp add: Logic_OnQueryRsp_rpc)
  next
    case LogicTick
    then have "lgRpc s' = rpc_do (Tick msgid_querydata_rsp []) (lgRpc s)" using step by (auto simp: Logic_OnTimeout_fields(1))
    then show ?thesis by (rule go)
  qed
  then show "generation m q (lgRpc s') \<le> generation m q (lgRpc s)" "q \<le> nQueryId (lgRpc s')" by blast+
  show "generation msgid_querydata_rsp q (lgRpc s') = generation msgid_querydata_rsp q (lgRpc s) - 1" if "e = LogicTick"
    using that step generation_do [OF R q, of msgid_querydata_rsp "Tick msgid_querydata_rsp []"]
    by (auto simp: Logic_OnTimeout_fields(1))
qed

fun logic_ticks :: "'d logic_event list \<Rightarrow> nat" where
  "logic_ticks [] = 0"
| "logic_ticks (LogicTick # es) = Suc (logic_ticks es)"
| "logic_ticks (_ # es) = logic_ticks es"

lemma logic_ticks_Cons: "logic_ticks (e # es) = (if e = LogicTick then 1 else 0) + logic_ticks es"
  by (cases e) simp_all

lemma generation_logic_run:
  assumes "logic_inv s" "logic_run es s = Some s'" "q \<le> nQueryId (lgRpc s)"
  shows "generation msgid_querydata_rsp q (lgRpc s') \<le> generation msgid_querydata_rsp q (lgRpc s) - logic_ticks es"
  using assms
proof (induction es arbitrary: s)
  case (Cons e es)
  then obtain s1 where s1: "logic_do e s = Some s1" "logic_run es s1 = Some s'" by (auto split: bind_splits)
  note G = generation_step [OF Cons.prems(1) s1(1) Cons.prems(3)]
  have "generation msgid_querydata_rsp q (lgRpc s') \<le> generation msgid_querydata_rsp q (lgRpc s1) - logic_ticks es"
    by (rule Cons.IH [OF logic_inv_do [OF Cons.prems(1) s1(1)] s1(2) G(2)])
  then show ?case using G(1) [of msgid_querydata_rsp] G(3) unfolding logic_ticks_Cons by (auto split: if_splits)
qed simp

text \<open>Without a login of the user, no query of the user is added.\<close>

lemma queries_step:
  assumes inv: "logic_inv s" and step: "logic_do e s = Some s'" and e: "\<And>sid h. e = LogicLogin sid h \<Longrightarrow> sh_user_id h \<noteq> u"
    and q: "(q, f) \<in> set (queries s')" "query_user f = u"
  shows "(q, f) \<in> set (queries s)"
proof (cases e)
  case (LogicLogin sid h)
  then have st: "Logic_OnHandleCSPlayerLoginReq sid h s = Some s'" using step by simp
  show ?thesis
  proof (cases "mapOnlinePlayer s (sh_user_id h) = None \<and> mapLoadingPlayer s (sh_user_id h) = None")
    case True
    then obtain dest where "lgRpc s' = RpcRequest dest msgid_querydata_rsp (QueryCallback sid h) (lgRpc s)"
      using Logic_login_new [OF _ _ st] by metis
    then show ?thesis using q e [OF LogicLogin] by (auto simp: waiting_RpcRequest [OF logic_invD(1) [OF inv]])
  next
    case False
    then have "lgRpc s' = lgRpc s"
      using st Logic_login_online [of s h sid] Logic_login_loading [of s h sid] by (metis Logic_send_fields(1) option.inject)
    then show ?thesis using q by simp
  qed
next
  case (LogicQueryRsp sid hr b)
  then have s': "s' = Logic_OnQueryRsp sid hr b s" using step by simp
  show ?thesis
    by (rule Logic_OnQueryRsp_cases [OF logic_invD(1) [OF inv], of hr sid b]) (use q s' in auto)
next
  case LogicTick
  then show ?thesis using step q by (auto simp: Logic_OnTimeout_fields(1) tick_effect(2) waiting_split [of _ "lgRpc s"])
qed

lemma queries_run:
  assumes "logic_inv s" "logic_run es s = Some s'" "\<forall>sid h. LogicLogin sid h \<in> set es \<longrightarrow> sh_user_id h \<noteq> u"
    and "(q, f) \<in> set (queries s')" "query_user f = u"
  shows "(q, f) \<in> set (queries s)"
  using assms
proof (induction es arbitrary: s)
  case (Cons e es)
  then obtain s1 where s1: "logic_do e s = Some s1" "logic_run es s1 = Some s'" by (auto split: bind_splits)
  have "(q, f) \<in> set (queries s1)"
    by (rule Cons.IH [OF logic_inv_do [OF Cons.prems(1) s1(1)] s1(2)]) (use Cons.prems in auto)
  then show ?case by (rule queries_step [OF Cons.prems(1) s1(1) _ _ Cons.prems(5), rotated]) (use Cons.prems(3) in auto)
qed simp

text \<open>An online player stays, as it is.\<close>

lemma online_step: "logic_do e s = Some s' \<Longrightarrow> mapOnlinePlayer s \<subseteq>\<^sub>m mapOnlinePlayer s'"
proof (cases e)
  case (LogicLogin sid h)
  assume "logic_do e s = Some s'"
  then have st: "Logic_OnHandleCSPlayerLoginReq sid h s = Some s'" using LogicLogin by simp
  then have "mapOnlinePlayer s' = mapOnlinePlayer s"
    using Logic_login_online [of s h sid] Logic_login_loading [of s h sid] Logic_login_new [OF _ _ st]
    by (metis Logic_send_fields(4) option.inject)
  then show ?thesis by simp
next
  case (LogicQueryRsp sid hr b)
  assume "logic_do e s = Some s'"
  then have s': "s' = Logic_OnQueryRsp sid hr b s" using LogicQueryRsp by simp
  have one: "mapOnlinePlayer t \<subseteq>\<^sub>m mapOnlinePlayer (QueryCallback_call f a t)" for f a and t :: "'a logic_server"
    by (auto simp: QueryCallback_call_online map_le_def)
  have "mapOnlinePlayer t \<subseteq>\<^sub>m mapOnlinePlayer (fold (\<lambda>(f, r). QueryCallback_call f (callback_args d r)) cs t)" for cs d and t :: "'a logic_server"
    by (induction cs arbitrary: t) (auto intro: map_le_trans one)
  from this [of "s\<lparr>lgRpc := x\<rparr>" for x] show ?thesis unfolding s' Logic_OnQueryRsp_def Logic_callbacks_def by simp
qed (auto simp: Logic_OnTimeout_fields(3))

lemma online_run: "logic_run es s = Some s' \<Longrightarrow> mapOnlinePlayer s \<subseteq>\<^sub>m mapOnlinePlayer s'"
  by (induction es arbitrary: s) (auto split: bind_splits dest: online_step intro: map_le_trans)

text \<open>What the answer to a waiting query does.\<close>

lemma query_answered:
  assumes inv: "logic_inv s" and q: "(q, QueryCallback sid h) \<in> set (queries s)" and hr: "sh_query_id hr = q"
  shows "\<exists>pkh. head_sent h pkh \<and> mapLoadingPlayer (Logic_OnQueryRsp d hr b s) (sh_user_id h) = None \<and>
    mapOnlinePlayer (Logic_OnQueryRsp d hr b s) (sh_user_id h) = (if sh_error_code hr = 0 then Some PlayerData else None) \<and>
    pnSent (lgNet (Logic_OnQueryRsp d hr b s)) =
      pnSent (lgNet s) @ (if pnOpen (lgNet s) sid then [(sid, msgid_login_rsp, pkh, CSPlayerLoginRsp)] else [])"
proof -
  note D = logic_invD [OF inv]
  let ?u = "sh_user_id h" and ?s' = "Logic_OnQueryRsp d hr b s"
  have u: "?u \<in> dom (mapLoadingPlayer s)" unfolding D(3) using q by (intro rev_image_eqI) auto
  then have load: "mapLoadingPlayer s ?u = Some PlayerData" "mapOnlinePlayer s ?u = None" using D(2,5) by (auto intro: ranI)
  obtain f where f: "(q, f) \<in> set (queries s)" and s': "?s' = QueryCallback_call f (d, hr, b)
      (s\<lparr>lgRpc := RegisterNetHandle msgid_querydata_rsp d (sh_query_id hr) (hr, b) (lgRpc s)\<rparr>)"
    by (rule Logic_OnQueryRsp_cases [OF D(1), of hr d b]) (use q hr in force)+
  have "f = QueryCallback sid h" using eq_key_imp_eq_value [OF rpc_invD(4) [OF D(1)] f q] .
  then have s'': "?s' = QueryCallback_call (QueryCallback sid h) (d, hr, b)
      (s\<lparr>lgRpc := RegisterNetHandle msgid_querydata_rsp d (sh_query_id hr) (hr, b) (lgRpc s)\<rparr>)"
    using s' by simp
  have "pnOpen (lgNet ?s') = pnOpen (lgNet s)" unfolding s'' by simp
  moreover obtain pkh where "head_sent h pkh" "pnSent (lgNet ?s') =
      pnSent (lgNet s) @ (if pnOpen (lgNet s) sid then [(sid, msgid_login_rsp, pkh, CSPlayerLoginRsp)] else [])"
    unfolding s'' using SendPacket_server(1) [of h sid msgid_login_rsp CSPlayerLoginRsp "lgNet s"]
    by (auto simp: Logic_send_def)
  moreover have "mapOnlinePlayer ?s' ?u = (if sh_error_code hr = 0 then Some PlayerData else None)"
    unfolding s'' QueryCallback_call_online using load by simp
  moreover have "mapLoadingPlayer ?s' ?u = None" unfolding s'' by simp
  ultimately show ?thesis by blast
qed

section \<open>Properties\<close>

text \<open>
  C14: in every run, no user is both loading and online, and a user is loading exactly while one query
  for the user waits for its answer: the loading map never keeps a user without a query.
\<close>

theorem logic_loading_is_querying:
  assumes "logic_run es (logic_started net g) = Some s"
  shows "\<forall>u. (mapLoadingPlayer s u = None \<or> mapOnlinePlayer s u = None) \<and>
    (mapLoadingPlayer s u \<noteq> None \<longleftrightarrow> (\<exists>!q. \<exists>sid h. (q, QueryCallback sid h) \<in> set (queries s) \<and> sh_user_id h = u))"
proof
  fix u
  note inv = logic_run_inv [OF assms]
  note D = logic_invD [OF inv]
  have one: "q = q'" if "(q, QueryCallback sid h) \<in> set (queries s) \<and> sh_user_id h = u"
      "(q', QueryCallback sid' h') \<in> set (queries s) \<and> sh_user_id h' = u" for q q' sid sid' h h'
    using inj_onD [OF D(4), of "(q, QueryCallback sid h)" "(q', QueryCallback sid' h')"] that by simp
  have "(\<exists>!q. \<exists>sid h. (q, QueryCallback sid h) \<in> set (queries s) \<and> sh_user_id h = u) \<longleftrightarrow> u \<in> (query_user \<circ> snd) ` set (queries s)"
  proof
    assume "u \<in> (query_user \<circ> snd) ` set (queries s)"
    then obtain q f where "(q, f) \<in> set (queries s)" "query_user f = u" by auto
    then obtain sid h where "(q, QueryCallback sid h) \<in> set (queries s) \<and> sh_user_id h = u" by (cases f) auto
    then show "\<exists>!q. \<exists>sid h. (q, QueryCallback sid h) \<in> set (queries s) \<and> sh_user_id h = u" using one by blast
  next
    assume "\<exists>!q. \<exists>sid h. (q, QueryCallback sid h) \<in> set (queries s) \<and> sh_user_id h = u"
    then obtain q sid h where "(q, QueryCallback sid h) \<in> set (queries s)" "sh_user_id h = u" by blast
    then show "u \<in> (query_user \<circ> snd) ` set (queries s)" by (intro rev_image_eqI [of "(q, QueryCallback sid h)"]) simp_all
  qed
  moreover have "mapLoadingPlayer s u \<noteq> None \<longleftrightarrow> u \<in> (query_user \<circ> snd) ` set (queries s)"
    unfolding D(3) [symmetric] by (simp only: domIff)
  moreover have "mapLoadingPlayer s u = None \<or> mapOnlinePlayer s u = None"
    using D(2) unfolding disjoint_iff domIff by blast
  ultimately show "(mapLoadingPlayer s u = None \<or> mapOnlinePlayer s u = None) \<and>
      (mapLoadingPlayer s u \<noteq> None \<longleftrightarrow> (\<exists>!q. \<exists>sid h. (q, QueryCallback sid h) \<in> set (queries s) \<and> sh_user_id h = u))"
    by (simp only: simp_thms)
qed

definition login_head :: "string \<Rightarrow> int64 \<Rightarrow> server_head" where
  "login_head u q = default_server_head\<lparr>sh_user_id := u, sh_query_id := q, sh_ttl := 30\<rparr>"

lemma sample_logic_run:
  "\<exists>s :: unit logic_server. logic_run [LogicLogin 7 (login_head ''u'' 5)] (logic_started (sample_net {7, 8}) (single_server DBServer 8)) = Some s \<and>
     queries s = [(1, QueryCallback 7 (login_head ''u'' 5))] \<and> mapLoadingPlayer s = [''u'' \<mapsto> PlayerData] \<and> mapOnlinePlayer s = Map.empty"
  using route_single(2) [of "''u''" DBServer 8]
  by (simp add: Logic_OnHandleCSPlayerLoginReq_def GetPlayerData_def logic_started_def login_head_def RpcRequest_packet_def
      RpcModule_def RpcRequest_def InitRpcContextMap_def GenQueryId_def set_context_def emplace_def waiting_def
      msgid_querydata_req_def msgid_querydata_rsp_def Let_def)

theorem logic_loading_is_querying_witness:
  "\<exists>s :: unit logic_server. logic_run [LogicLogin 7 (login_head ''u'' 5)] (logic_started (sample_net {7, 8}) (single_server DBServer 8)) = Some s \<and>
     mapLoadingPlayer s ''u'' \<noteq> None \<and> (\<exists>!q. \<exists>sid h. (q, QueryCallback sid h) \<in> set (queries s) \<and> sh_user_id h = ''u'')"
  using sample_logic_run
    logic_loading_is_querying [of "[LogicLogin 7 (login_head ''u'' 5)]" "sample_net {7, 8}" "single_server DBServer 8"]
  by (metis fun_upd_same option.distinct(1))

text \<open>
  C15: loading never hangs: over any period with two time-out ticks and no new login of the user, the
  user's loading has ended, whatever responses arrived or did not.
\<close>

theorem logic_loading_ends:
  assumes "logic_run es0 (logic_started net g) = Some s" and run: "logic_run es s = Some s'"
    and ticks: "2 \<le> logic_ticks es" and no_login: "\<forall>sid h. LogicLogin sid h \<in> set es \<longrightarrow> sh_user_id h \<noteq> u"
  shows "mapLoadingPlayer s' u = None"
proof (rule ccontr)
  assume "mapLoadingPlayer s' u \<noteq> None"
  note inv = logic_run_inv [OF assms(1)]
  have inv': "logic_inv s'" by (rule logic.steps_inv [OF logic_run_steps [OF run] inv])
  have "u \<in> (query_user \<circ> snd) ` set (queries s')" using \<open>mapLoadingPlayer s' u \<noteq> None\<close> logic_invD(3) [OF inv'] by (metis domIff)
  then obtain q f where q: "(q, f) \<in> set (queries s')" "query_user f = u" by auto
  have "(q, f) \<in> set (queries s)" by (rule queries_run [OF inv run no_login q])
  then have "q \<le> nQueryId (lgRpc s)" using rpc_invD(1,5) [OF logic_invD(1) [OF inv]] by blast
  moreover have "generation msgid_querydata_rsp q (lgRpc s) \<le> 2" by (simp add: generation_def split: option.split)
  ultimately have "generation msgid_querydata_rsp q (lgRpc s') = 0" using generation_logic_run [OF inv run, of q] ticks by simp
  then have "q \<notin> fst ` set (queries s')" by (rule generation_waiting [THEN iffD1])
  moreover have "q \<in> fst ` set (queries s')" using q(1) by (rule rev_image_eqI) simp
  ultimately show False by contradiction
qed

theorem logic_loading_ends_witness:
  "\<exists>(s :: unit logic_server) s'. logic_run [LogicLogin 7 (login_head ''u'' 5)] (logic_started (sample_net {7, 8}) (single_server DBServer 8)) = Some s \<and>
     mapLoadingPlayer s ''u'' = Some PlayerData \<and> logic_run [LogicTick, LogicTick] s = Some s' \<and> mapLoadingPlayer s' ''u'' = None"
proof -
  obtain s :: "unit logic_server" where s: "logic_run [LogicLogin 7 (login_head ''u'' 5)] (logic_started (sample_net {7, 8}) (single_server DBServer 8)) = Some s"
    "mapLoadingPlayer s = [''u'' \<mapsto> PlayerData]"
    using sample_logic_run by blast
  moreover obtain s' where s': "logic_run [LogicTick, LogicTick] s = Some s'" by simp
  moreover have "mapLoadingPlayer s' ''u'' = None" using logic_loading_ends [OF s(1) s', of "''u''"] by simp
  ultimately show ?thesis by (intro exI [of _ s] exI [of _ s']) simp
qed

text \<open>
  A player who came online is online for good (there is no logout), with the same data, and every
  later login of the user is refused with the code for an unknown user.
\<close>

theorem logic_online_forever:
  assumes "mapOnlinePlayer s u = Some p" "logic_run es s = Some s'" "sh_user_id h = u"
  shows "mapOnlinePlayer s' u = Some p \<and>
    logic_do (LogicLogin sid h) s' =
      Some (Logic_send sid msgid_login_rsp (ServerHead (h\<lparr>sh_error_code := cs_msg_not_find_user\<rparr>)) CSPlayerLoginRsp s')"
proof -
  have "mapOnlinePlayer s' u = Some p" using online_run [OF assms(2)] assms(1) by (auto simp: map_le_def dom_def)
  then show ?thesis using Logic_login_online [of s' h sid] assms(3) by simp
qed

theorem logic_online_forever_witness:
  "\<exists>s' :: unit logic_server. logic_run [LogicTick, LogicTick] (logic_started (sample_net {7}) (single_server DBServer 8)\<lparr>mapOnlinePlayer := [''u'' \<mapsto> PlayerData]\<rparr>) = Some s' \<and>
     mapOnlinePlayer s' ''u'' = Some PlayerData"
proof -
  let ?s = "logic_started (sample_net {7}) (single_server DBServer 8)\<lparr>mapOnlinePlayer := [''u'' \<mapsto> PlayerData]\<rparr> :: unit logic_server"
  obtain s' where "logic_run [LogicTick, LogicTick] ?s = Some s'" by simp
  then show ?thesis using logic_online_forever [of ?s "''u''" PlayerData "[LogicTick, LogicTick]" s' "login_head ''u'' 5"]
    by (simp add: login_head_def)
qed

end
