(* ===== verification/Db_Server.thy ===== *)
theory Db_Server
  imports Game_Net Rocksdb_Module Loop_Pool
begin

text \<open>
  \<open>DBExecModule\<close> (src/app/game/db_server/db_exec_module.h, db_exec_module.cpp) over \<open>RocksDBModule\<close>,
  the default of the build. A handler posts a task to the database loop its user's id selects; a loop
  runs its tasks in the order they were posted, each on the loop's own database, and hands the reply
  to the main loop, which sends it. The loops run in any order: a step names the loop. \<open>dbDone\<close> is a
  record of the replies with the loops that made them. \<open>None\<close> stands
  for what ends the process or never returns in \<open>RocksDBModule\<close>.
\<close>

section \<open>State and operations\<close>

datatype 'd db_task =
    SaveTask session_id_t server_head "'d message" "'d message"
  | QueryTask session_id_t server_head string

type_synonym 'd db_reply = "session_id_t \<times> u32 \<times> server_head \<times> 'd game_body"

record 'd db_server =
  dbNet :: "'d game_body packet_net"
  dbRocks :: rocks_module
  dbConfig :: data_base_config_data
  dbQueue :: "(nat \<times> 'd db_task) list"
  dbReplies :: "'d db_reply list"
  dbDone :: "(nat \<times> 'd db_reply) list"

text \<open>\<open>mutable_kv_data_...()->mutable_user_data()\<close>: an absent message is its default instance.\<close>

fun mutable_user_data :: "'d kv_data \<Rightarrow> 'd message" where
  "mutable_user_data (Some (Some m)) = m"
| "mutable_user_data _ = UserData_of [] None [] [] None"

definition OnHandleSSSaveDataReq ::
    "session_id_t \<Rightarrow> server_head \<Rightarrow> 'd kv_data \<Rightarrow> 'd kv_data \<Rightarrow> 'd db_server \<Rightarrow> 'd db_server option" where
  "OnHandleSSSaveDataReq sessionId head kv_data_update kv_data_delete s =
     (let userId = sh_user_id head
      in map_option (\<lambda>i. s\<lparr>dbQueue := dbQueue s @
             [(i, SaveTask sessionId head (mutable_user_data kv_data_update) (mutable_user_data kv_data_delete))]\<rparr>)
           (DBLoopExec userId (dbRocks s)))"

definition OnHandleSSQueryDataReq :: "session_id_t \<Rightarrow> server_head \<Rightarrow> string \<Rightarrow> 'd db_server \<Rightarrow> 'd db_server option" where
  "OnHandleSSQueryDataReq sessionId head userId s =
     map_option (\<lambda>i. s\<lparr>dbQueue := dbQueue s @ [(i, QueryTask sessionId head userId)]\<rparr>) (DBLoopExec userId (dbRocks s))"

text \<open>A task on its loop's database: the database after it and the reply for the main loop.\<close>

fun execute_task :: "endian \<Rightarrow> 'd pb_lib \<Rightarrow> 'd db_task \<Rightarrow> rocks_db \<Rightarrow> (rocks_db \<times> 'd db_reply) option" where
  "execute_task e lib (SaveTask sid head upd del) db =
     (case Rocks_MessageUpdate e lib upd db of
        None \<Rightarrow> None
      | Some db \<Rightarrow>
          (case Rocks_MessageDelete e lib del db of
             None \<Rightarrow> None
           | Some db \<Rightarrow> Some (db, (sid, msgid_savedata_rsp, head, SSSaveDataRsp))))"
| "execute_task e lib (QueryTask sid head userId) db =
     map_option (\<lambda>m. (db, (sid, msgid_querydata_rsp, head, SSQueryDataRsp (Some m))))
       (Rocks_MessageLoad e lib (UserData_of userId None [] [] None) db)"

definition loop_db :: "nat \<Rightarrow> 'd db_server \<Rightarrow> rocks_db" where
  "loop_db i s = (case rkFiles (dbRocks s) (shard_path (dbConfig s) i) of None \<Rightarrow> [] | Some db \<Rightarrow> db)"

definition set_loop_db :: "nat \<Rightarrow> rocks_db \<Rightarrow> 'd db_server \<Rightarrow> 'd db_server" where
  "set_loop_db i db s =
     s\<lparr>dbRocks := (dbRocks s)\<lparr>rkFiles := (rkFiles (dbRocks s))(shard_path (dbConfig s) i \<mapsto> db)\<rparr>\<rparr>"

definition Db_RunLoop :: "endian \<Rightarrow> 'd pb_lib \<Rightarrow> nat \<Rightarrow> 'd db_server \<Rightarrow> 'd db_server option" where
  "Db_RunLoop e lib i s =
     (case take_task i (dbQueue s) of
        None \<Rightarrow> Some s
      | Some (t, q) \<Rightarrow>
          map_option (\<lambda>(db, reply). set_loop_db i db (s\<lparr>dbQueue := q, dbReplies := dbReplies s @ [reply], dbDone := dbDone s @ [(i, reply)]\<rparr>))
            (execute_task e lib t (loop_db i s)))"

text \<open>The main loop sends the first reply.\<close>

definition Db_SendReply :: "'d db_server \<Rightarrow> 'd db_server" where
  "Db_SendReply s =
     (case dbReplies s of
        [] \<Rightarrow> s
      | (sid, ty, head, body) # rs \<Rightarrow>
          s\<lparr>dbReplies := rs, dbNet := snd (SendPacket sid ty (ServerHead head) body (dbNet s))\<rparr>)"

datatype 'd db_event =
    DbSave session_id_t server_head "'d kv_data" "'d kv_data"
  | DbQuery session_id_t server_head string
  | DbLoop nat
  | DbSend

fun db_do :: "endian \<Rightarrow> 'd pb_lib \<Rightarrow> 'd db_event \<Rightarrow> 'd db_server \<Rightarrow> 'd db_server option" where
  "db_do e lib (DbSave sid head upd del) s = OnHandleSSSaveDataReq sid head upd del s"
| "db_do e lib (DbQuery sid head u) s = OnHandleSSQueryDataReq sid head u s"
| "db_do e lib (DbLoop i) s = Db_RunLoop e lib i s"
| "db_do e lib DbSend s = Some (Db_SendReply s)"

fun db_run :: "endian \<Rightarrow> 'd pb_lib \<Rightarrow> 'd db_event list \<Rightarrow> 'd db_server \<Rightarrow> 'd db_server option" where
  "db_run e lib [] s = Some s"
| "db_run e lib (x # xs) s = Option.bind (db_do e lib x s) (db_run e lib xs)"

section \<open>Every loop is a sequential server\<close>

text \<open>The specification: the tasks of one loop, one after the other on its database.\<close>

fun execute_all :: "endian \<Rightarrow> 'd pb_lib \<Rightarrow> 'd db_task list \<Rightarrow> rocks_db \<Rightarrow> (rocks_db \<times> 'd db_reply list) option" where
  "execute_all e lib [] db = Some (db, [])"
| "execute_all e lib (t # ts) db =
     (case execute_task e lib t db of
        None \<Rightarrow> None
      | Some (db, r) \<Rightarrow> map_option (\<lambda>(db, rs). (db, r # rs)) (execute_all e lib ts db))"

text \<open>The tasks the requests of a run post to loop \<open>i\<close>; the routing does not change during a run.\<close>

fun posted_task :: "'d db_event \<Rightarrow> (string \<times> 'd db_task) option" where
  "posted_task (DbSave sid head upd del) = Some (sh_user_id head, SaveTask sid head (mutable_user_data upd) (mutable_user_data del))"
| "posted_task (DbQuery sid head u) = Some (u, QueryTask sid head u)"
| "posted_task _ = None"

definition posted_to :: "rocks_module \<Rightarrow> nat \<Rightarrow> 'd db_event list \<Rightarrow> 'd db_task list" where
  "posted_to rk i es =
     concat (map (\<lambda>x. case posted_task x of None \<Rightarrow> [] | Some (key, t) \<Rightarrow> if DBLoopExec key rk = Some i then [t] else []) es)"

lemma DBLoopExec_files: "DBLoopExec key (rk\<lparr>rkFiles := f\<rparr>) = DBLoopExec key rk"
  by (simp add: DBLoopExec_def)

lemma posted_to_files: "posted_to (rk\<lparr>rkFiles := f\<rparr>) i es = posted_to rk i es"
  by (simp add: posted_to_def DBLoopExec_files cong: option.case_cong)

lemma posted_to_Cons:
  "posted_to rk i (x # es) =
     (case posted_task x of None \<Rightarrow> [] | Some (key, t) \<Rightarrow> if DBLoopExec key rk = Some i then [t] else []) @ posted_to rk i es"
  by (simp add: posted_to_def)

lemma shard_path_inj: "shard_path cfg i = shard_path cfg j \<longleftrightarrow> i = j"
  by (simp add: shard_path_def to_string_inj)

lemma execute_all_snoc:
  assumes "execute_all e lib ts db = Some (db1, rs)" "execute_task e lib t db1 = Some (db2, r)"
  shows "execute_all e lib (ts @ [t]) db = Some (db2, rs @ [r])"
  using assms by (induction ts arbitrary: db rs) (auto split: option.splits prod.splits)

lemma loop_db_set [simp]: "loop_db j (set_loop_db i db s) = (if j = i then db else loop_db j s)"
  by (simp add: loop_db_def set_loop_db_def shard_path_inj)

lemma set_loop_db_fields [simp]:
  "dbQueue (set_loop_db i db s) = dbQueue s" "dbDone (set_loop_db i db s) = dbDone s" "dbConfig (set_loop_db i db s) = dbConfig s"
  "dbReplies (set_loop_db i db s) = dbReplies s" "dbNet (set_loop_db i db s) = dbNet s"
  "posted_to (dbRocks (set_loop_db i db s)) j es = posted_to (dbRocks s) j es"
  by (simp_all add: set_loop_db_def posted_to_files)

text \<open>One step, seen from loop \<open>i\<close>: it posts a task, runs the first one, or changes nothing.\<close>

definition loop_view :: "nat \<Rightarrow> 'd db_server \<Rightarrow> rocks_db \<times> 'd db_task list \<times> 'd db_reply list" where
  "loop_view i s = (loop_db i s, tasks_of i (dbQueue s), tasks_of i (dbDone s))"

lemma loop_db_cong: "dbRocks s' = dbRocks s \<Longrightarrow> dbConfig s' = dbConfig s \<Longrightarrow> loop_db i s' = loop_db i s"
  by (simp add: loop_db_def)

lemma posted_to_Nil [simp]: "posted_to rk i [] = []"
  by (simp add: posted_to_def)

lemma loop_step:
  assumes "db_do e lib x s = Some s'"
  shows "posted_to (dbRocks s') i es = posted_to (dbRocks s) i es"
    "(loop_db i s' = loop_db i s \<and> tasks_of i (dbQueue s') = tasks_of i (dbQueue s) @ posted_to (dbRocks s) i [x] \<and>
        tasks_of i (dbDone s') = tasks_of i (dbDone s)) \<or>
     (\<exists>t r. tasks_of i (dbQueue s) = t # tasks_of i (dbQueue s') \<and> execute_task e lib t (loop_db i s) = Some (loop_db i s', r) \<and>
        tasks_of i (dbDone s') = tasks_of i (dbDone s) @ [r] \<and> posted_to (dbRocks s) i [x] = [])"
proof -
  have "posted_to (dbRocks s') i es = posted_to (dbRocks s) i es \<and>
    ((loop_db i s' = loop_db i s \<and> tasks_of i (dbQueue s') = tasks_of i (dbQueue s) @ posted_to (dbRocks s) i [x] \<and>
        tasks_of i (dbDone s') = tasks_of i (dbDone s)) \<or>
     (\<exists>t r. tasks_of i (dbQueue s) = t # tasks_of i (dbQueue s') \<and> execute_task e lib t (loop_db i s) = Some (loop_db i s', r) \<and>
        tasks_of i (dbDone s') = tasks_of i (dbDone s) @ [r] \<and> posted_to (dbRocks s) i [x] = []))"
  proof (cases x)
    case (DbSave sid head upd del)
    then show ?thesis
      using assms by (auto simp: OnHandleSSSaveDataReq_def Let_def posted_to_Cons loop_db_def)
  next
    case (DbQuery sid head u)
    then show ?thesis
      using assms by (auto simp: OnHandleSSQueryDataReq_def posted_to_Cons loop_db_def)
  next
    case (DbLoop j)
    show ?thesis
    proof (cases "take_task j (dbQueue s)")
      case None
      then show ?thesis using assms DbLoop by (simp add: Db_RunLoop_def posted_to_Cons)
    next
      case (Some tq)
      then obtain t q where tq: "take_task j (dbQueue s) = Some (t, q)" by (cases tq) auto
      note T = take_task_tasks(2) [OF tq]
      obtain db r where x: "execute_task e lib t (loop_db j s) = Some (db, r)"
        and s': "s' = set_loop_db j db (s\<lparr>dbQueue := q, dbReplies := dbReplies s @ [r], dbDone := dbDone s @ [(j, r)]\<rparr>)"
        using assms DbLoop tq by (auto simp: Db_RunLoop_def)
      have l: "loop_db i s' = (if i = j then db else loop_db i s)" unfolding s' loop_db_set by (auto simp: loop_db_def)
      show ?thesis
        using T x DbLoop unfolding l by (cases "i = j"; cases r) (simp_all add: s' posted_to_Cons)
    qed
  next
    case DbSend
    then have "dbRocks s' = dbRocks s" "dbConfig s' = dbConfig s" "dbQueue s' = dbQueue s" "dbDone s' = dbDone s"
      using assms by (auto simp: Db_SendReply_def split: list.splits)
    then show ?thesis using DbSend by (simp add: posted_to_Cons loop_db_def)
  qed
  then show "posted_to (dbRocks s') i es = posted_to (dbRocks s) i es"
    "(loop_db i s' = loop_db i s \<and> tasks_of i (dbQueue s') = tasks_of i (dbQueue s) @ posted_to (dbRocks s) i [x] \<and>
        tasks_of i (dbDone s') = tasks_of i (dbDone s)) \<or>
     (\<exists>t r. tasks_of i (dbQueue s) = t # tasks_of i (dbQueue s') \<and> execute_task e lib t (loop_db i s) = Some (loop_db i s', r) \<and>
        tasks_of i (dbDone s') = tasks_of i (dbDone s) @ [r] \<and> posted_to (dbRocks s) i [x] = [])"
    by blast+
qed

text \<open>
  C16: whatever the order in which the loops run and requests arrive, each loop behaves as one server
  that executes the tasks routed to it one after the other in the order they were requested, on its
  own database, and its replies are those of that execution.
\<close>

theorem db_loops_sequential:
  assumes "db_run e lib es s = Some s'"
  shows "\<exists>k rs. let ts = tasks_of i (dbQueue s) @ posted_to (dbRocks s) i es in
    k \<le> length ts \<and> execute_all e lib (take k ts) (loop_db i s) = Some (loop_db i s', rs) \<and>
    tasks_of i (dbQueue s') = drop k ts \<and> tasks_of i (dbDone s') = tasks_of i (dbDone s) @ rs"
  using assms
proof (induction es arbitrary: s)
  case Nil
  then show ?case by (intro exI [of _ 0] exI [of _ "[]"]) (simp add: posted_to_def)
next
  case (Cons x es)
  then obtain s1 where s1: "db_do e lib x s = Some s1" "db_run e lib es s1 = Some s'" by (auto split: bind_splits)
  obtain k rs where IH: "k \<le> length (tasks_of i (dbQueue s1) @ posted_to (dbRocks s1) i es)"
    "execute_all e lib (take k (tasks_of i (dbQueue s1) @ posted_to (dbRocks s1) i es)) (loop_db i s1) = Some (loop_db i s', rs)"
    "tasks_of i (dbQueue s') = drop k (tasks_of i (dbQueue s1) @ posted_to (dbRocks s1) i es)"
    "tasks_of i (dbDone s') = tasks_of i (dbDone s1) @ rs"
    using Cons.IH [OF s1(2)] unfolding Let_def by blast
  note p = loop_step(1) [OF s1(1), of i es]
  have c: "posted_to (dbRocks s) i (x # es) = posted_to (dbRocks s) i [x] @ posted_to (dbRocks s) i es"
    by (simp add: posted_to_def)
  from loop_step(2) [OF s1(1), of i] show ?case
  proof (elim disjE exE conjE)
    assume "loop_db i s1 = loop_db i s" "tasks_of i (dbQueue s1) = tasks_of i (dbQueue s) @ posted_to (dbRocks s) i [x]"
      "tasks_of i (dbDone s1) = tasks_of i (dbDone s)"
    then show ?thesis using IH unfolding p c Let_def by (intro exI [of _ k] exI [of _ rs]) simp
  next
    fix t r
    assume "tasks_of i (dbQueue s) = t # tasks_of i (dbQueue s1)" "execute_task e lib t (loop_db i s) = Some (loop_db i s1, r)"
      "tasks_of i (dbDone s1) = tasks_of i (dbDone s) @ [r]" "posted_to (dbRocks s) i [x] = []"
    then show ?thesis using IH unfolding p c Let_def by (intro exI [of _ "Suc k"] exI [of _ "r # rs"]) simp
  qed
qed

section \<open>What a save leaves for a query\<close>

definition UserBase_of :: "string \<Rightarrow> int64 \<Rightarrow> 'd message" where
  "UserBase_of name t = Message ''Db.UserBase'' [(''user_name'', VString name), (''update_time'', VInt64 t)]"

definition UserCount_of :: "int32 \<Rightarrow> int32 \<Rightarrow> int32 \<Rightarrow> int64 \<Rightarrow> 'd message" where
  "UserCount_of ty sub v tick = Message ''Db.UserCount''
     [(''count_type'', VInt32 ty), (''count_subtype'', VInt32 sub), (''count_value'', VInt32 v), (''count_tick'', VInt64 tick)]"

lemma count_keys: "key_strings lib (UserCount_of ty sub v tick) = [to_string ty, to_string sub]"
  by (simp add: key_strings_def UserCount_of_def IsDBKey_def IsDBCommonKeyType_def DbPbFieldKey_def)

lemma base_keys: "key_strings lib (UserBase_of name t) = []"
  by (simp add: key_strings_def UserBase_of_def IsDBKey_def IsDBCommonKeyType_def DbPbFieldKey_def)

lemma empty_keys: "PaserList e [] = Some []" "PaserList_set e [] = Some []"
  by (simp_all add: PaserList_set_def PaserList_def PaserList_loop.simps size_of_def)

lemma single_key: "x \<noteq> [] \<Longrightarrow> length (packed e [x]) < 2 ^ 32 - 1 \<Longrightarrow> PaserList e (packed e [x]) = Some [x]"
  using PaserList_packed [of "[]" e "[x]" "[]"] by (simp add: PaserList_def parsed_def del: packed_simps)

lemma Db_Get_Put: "Db_Get k' (Db_Put k v d) = (if k' = k then v else Db_Get k' d)"
  using rocks.get_put by simp

lemma delete_nothing: "Rocks_MessageDelete e lib (UserData_of u None [] [] None) db = Some db"
  by (simp add: Rocks_MessageDelete_def MessageDeleteOnKV_def UserData_of_def delete_field_def IsDBCommonKeyType_def)

definition user_table :: "endian \<Rightarrow> string \<Rightarrow> string \<Rightarrow> string" where
  "user_table e u tab = common_key tab (packed e [u])"

text \<open>A table that was never written for the user stays as it is in the reply.\<close>

lemma load_unwritten:
  assumes "Db_Get (common_key tab c) db = []" "v = VMessage p None \<or> v = VRepeated p []"
  shows "load_field e lib PbMessageKVHandle db m (tab, v) (c, done1) = Some (c, done1 @ [(tab, v)])"
  using assms by (elim disjE) (simp_all add: load_field_def load_keys_def load_all_def IsDBCommonKeyType_def empty_keys)

text \<open>The store after a save of one user base and one count of a new user, and its look-ups.\<close>

lemma save_base_and_count:
  fixes e u
  defines "c \<equiv> packed e [u]"
  assumes fresh: "Db_Get (common_key ''user_base'' c) db = []" "Db_Get (common_key ''user_counts'' c) db = []"
  shows "Rocks_MessageUpdate e lib (UserData_of u (Some (UserBase_of name t)) [UserCount_of ty sub v tick] [] None) db =
    Some (Db_Put (common_key ''user_counts'' c) (packed e [GetMessageElementKey e lib ''user_counts'' c (UserCount_of ty sub v tick)])
      (Db_Put (GetMessageElementKey e lib ''user_counts'' c (UserCount_of ty sub v tick)) (SerializeAsString lib (UserCount_of ty sub v tick))
        (Db_Put (common_key ''user_base'' c) (packed e [common_key ''user_base'' c])
          (Db_Put (common_key ''user_base'' c) (SerializeAsString lib (UserBase_of name t)) db))))"
proof -
  let ?cb = "common_key ''user_base'' c" and ?cc = "common_key ''user_counts'' c"
  let ?b = "UserBase_of name t" and ?n = "UserCount_of ty sub v tick"
  let ?db1 = "Db_Put ?cb (packed e [?cb]) (Db_Put ?cb (SerializeAsString lib ?b) db)"
  have ne: "?cb \<noteq> ?cc" using common_key_inj [of "''user_base''" "''user_counts''" c "[]" c "[]"] by auto
  have kb: "GetMessageElementKey e lib ''user_base'' c ?b = ?cb" by (simp add: element_key_eq base_keys)
  have "update_table e lib PbMessageKVHandle ''user_base'' c False [?b] db = Some ?db1"
    using fresh(1) by (simp add: update_table_def update_singular_def set_insert_def PacketList_eq empty_keys kb Let_def del: packed_simps)
  moreover have "update_table e lib PbMessageKVHandle ''user_counts'' c True [?n] ?db1 =
      Some (Db_Put ?cc (packed e [GetMessageElementKey e lib ''user_counts'' c ?n])
        (Db_Put (GetMessageElementKey e lib ''user_counts'' c ?n) (SerializeAsString lib ?n) ?db1))"
    using fresh(2) ne by (simp add: update_table_def update_repeated_def set_insert_def PacketList_eq empty_keys Db_Get_Put Let_def del: packed_simps)
  ultimately show ?thesis
    by (simp add: Rocks_MessageUpdate_def MessageUpdateOnKV_def UserData_of_def update_field_def IsDBCommonKeyType_def
        AppendRawData_eq c_def [symmetric] del: packed_simps)
qed

text \<open>
  C38: a user saved for the first time with a user base and one count, then queried: the count comes
  back as it was saved, and in place of the user base comes what parsing the table's key list yields.
  Tables that were never written stay empty.
\<close>

theorem saved_then_queried:
  fixes e u name t ty sub v tick
  defines "c \<equiv> packed e [u]"
  defines "d \<equiv> UserData_of u (Some (UserBase_of name t)) [UserCount_of ty sub v tick] [] None"
  assumes fresh: "\<forall>tab \<in> {''user_base'', ''user_counts'', ''client_cache'', ''client_login_info''}. Db_Get (common_key tab c) db = []"
    and lib: "ParseFromString lib UserCount_default (SerializeAsString lib (UserCount_of ty sub v tick)) = UserCount_of ty sub v tick"
    and len: "length (packed e [common_key ''user_base'' c]) < 2 ^ 32 - 1"
      "length (packed e [GetMessageElementKey e lib ''user_counts'' c (UserCount_of ty sub v tick)]) < 2 ^ 32 - 1"
  shows "\<exists>db'. execute_all e lib [SaveTask s1 h1 d (mutable_user_data None), QueryTask s2 h2 u] db =
    Some (db', [(s1, msgid_savedata_rsp, h1, SSSaveDataRsp),
      (s2, msgid_querydata_rsp, h2, SSQueryDataRsp (Some
        (UserData_of u (Some (ParseFromString lib UserBase_default (packed e [common_key ''user_base'' c]))) [UserCount_of ty sub v tick] [] None)))])"
proof -
  let ?cb = "common_key ''user_base'' c" and ?cc = "common_key ''user_counts'' c"
  let ?b = "UserBase_of name t" and ?n = "UserCount_of ty sub v tick"
  let ?k = "GetMessageElementKey e lib ''user_counts'' c ?n"
  let ?db' = "Db_Put ?cc (packed e [?k]) (Db_Put ?k (SerializeAsString lib ?n) (Db_Put ?cb (packed e [?cb]) (Db_Put ?cb (SerializeAsString lib ?b) db)))"
  have upd: "Rocks_MessageUpdate e lib d db = Some ?db'"
    using save_base_and_count [of e u db lib name t ty sub v tick] fresh unfolding c_def d_def by simp
  have k: "?k = ?cc @ packed e [to_string ty, to_string sub]" by (simp add: element_key_eq count_keys del: packed_simps)
  have tab: "common_key n c @ x = common_key n' c @ x' \<longleftrightarrow> n = n' \<and> x = x'" if "CHR ''#'' \<notin> set n" "CHR ''#'' \<notin> set n'" for n n' x x'
    using common_key_inj [OF that, of c x c x'] by auto
  have tab0: "common_key n c = common_key n' c \<longleftrightarrow> n = n'" if "CHR ''#'' \<notin> set n" "CHR ''#'' \<notin> set n'" for n n'
    using tab [OF that, of "[]" "[]"] by simp
  have tabk: "common_key n c \<noteq> ?k" if "CHR ''#'' \<notin> set n" for n
    using tab [OF that, of "''user_counts''" "[]" "packed e [to_string ty, to_string sub]"] unfolding k by (auto simp del: packed_simps dest: sym)
  have g: "Db_Get ?cb ?db' = packed e [?cb]" "Db_Get ?cc ?db' = packed e [?k]" "Db_Get ?k ?db' = SerializeAsString lib ?n"
    "Db_Get (common_key ''client_cache'' c) ?db' = []" "Db_Get (common_key ''client_login_info'' c) ?db' = []"
    using fresh tabk [of "''user_base''"] tabk [of "''user_counts''"] tabk [of "''client_cache''"] tabk [of "''client_login_info''"]
    by (simp_all add: Db_Get_Put tab0 del: packed_simps)
  have nn: "?cb \<noteq> []" "?k \<noteq> []" by (simp_all add: element_key_eq common_key_def strTableSpacer_def)
  have base: "load_field e lib PbMessageKVHandle ?db' m (''user_base'', VMessage UserBase_default None) (c, done1) =
      Some (c, done1 @ [(''user_base'', VMessage UserBase_default (Some (ParseFromString lib UserBase_default (packed e [?cb]))))])" for m done1
    using single_key [OF nn(1) len(1)] g(1)
    by (simp add: load_field_def load_keys_def load_all_def IsDBCommonKeyType_def del: packed_simps)
  have counts: "load_field e lib PbMessageKVHandle ?db' m (''user_counts'', VRepeated UserCount_default []) (c, done1) =
      Some (c, done1 @ [(''user_counts'', VRepeated UserCount_default [?n])])" for m done1
    using single_key [OF nn(2) len(2)] g(2,3) lib
    by (simp add: load_field_def load_keys_def load_all_def IsDBCommonKeyType_def del: packed_simps)
  note rest = load_unwritten [OF g(4), of "VRepeated ClientCache_default []" ClientCache_default]
    load_unwritten [OF g(5), of "VMessage ClientLoginInfo_default None" ClientLoginInfo_default]
  have "Rocks_MessageLoad e lib (UserData_of u None [] [] None) ?db' =
      Some (UserData_of u (Some (ParseFromString lib UserBase_default (packed e [?cb]))) [?n] [] None)"
    unfolding Rocks_MessageLoad_def MessageLoadOnKV_def UserData_of_def
    by (simp add: load_field_def [of _ _ _ _ _ "(''user_id'', _)"] IsDBCommonKeyType_def AppendRawData_eq c_def [symmetric] base counts rest
        del: packed_simps)
  then show ?thesis
    using upd delete_nothing [of e lib "[]" ?db'] by (auto simp: d_def simp del: packed_simps)
qed

definition count_lib :: "unit pb_lib" where
  "count_lib = \<lparr>SerializeAsString = (\<lambda>m. if m = UserCount_of 1 2 7 0 then ''c'' else []),
     ParseFromString = (\<lambda>p s. if s = ''c'' then UserCount_of 1 2 7 0 else p), ftoa = (\<lambda>_. []), atof = (\<lambda>_. ()), nonzero = (\<lambda>_. False)\<rparr>"

theorem saved_then_queried_witness:
  "\<exists>db'. execute_all LittleEndian count_lib
     [SaveTask 4 default_server_head (UserData_of ''u1'' (Some (UserBase_of ''Ann'' 9)) [UserCount_of 1 2 7 0] [] None) (mutable_user_data None),
      QueryTask 4 default_server_head ''u1''] [] =
    Some (db', [(4, msgid_savedata_rsp, default_server_head, SSSaveDataRsp),
      (4, msgid_querydata_rsp, default_server_head, SSQueryDataRsp (Some (UserData_of ''u1'' (Some UserBase_default) [UserCount_of 1 2 7 0] [] None)))])"
proof -
  have "length (packed LittleEndian [common_key ''user_base'' (packed LittleEndian [''u1''])]) < 2 ^ 32 - 1"
    by (simp add: common_key_def strTableSpacer_def)
  moreover have "length (packed LittleEndian [GetMessageElementKey LittleEndian count_lib ''user_counts'' (packed LittleEndian [''u1'']) (UserCount_of 1 2 7 0)]) < 2 ^ 32 - 1"
    by (simp add: element_key_eq count_keys sample_digits common_key_def strTableSpacer_def)
  moreover have "packed LittleEndian [common_key ''user_base'' (packed LittleEndian [''u1''])] \<noteq> ''c''"
    by (simp add: common_key_def strTableSpacer_def)
  ultimately show ?thesis
    using saved_then_queried [where u = "''u1''" and e = LittleEndian and db = "[]" and lib = count_lib and ty = 1 and sub = 2
        and v = 7 and tick = 0 and name = "''Ann''" and t = 9]
    by (simp add: Db_Get_def count_lib_def)
qed

definition one_loop :: "unit db_server" where
  "one_loop = \<lparr>dbNet = sample_net {4}, dbRocks = (RocksDBModule Map.empty)\<lparr>rkLoops := 1\<rparr>,
     dbConfig = DataBaseConfigData\<lparr>dbAddress := ''/'', dbShardNum := 1\<rparr>, dbQueue = [], dbReplies = [], dbDone = []\<rparr>"

theorem db_loops_sequential_witness:
  "\<exists>s' k rs. db_run LittleEndian count_lib [DbQuery 4 default_server_head ''u1'', DbLoop 0] one_loop = Some s' \<and>
     execute_all LittleEndian count_lib (take k [QueryTask 4 default_server_head ''u1'']) [] = Some (loop_db 0 s', rs) \<and>
     tasks_of 0 (dbQueue s') = drop k [QueryTask 4 default_server_head ''u1''] \<and> tasks_of 0 (dbDone s') = rs"
proof -
  have route: "DBLoopExec ''u1'' (dbRocks one_loop) = Some 0"
    by (simp add: DBLoopExec_def one_loop_def RocksDBModule_def CRC32_two_string_eq)
  have "Rocks_MessageLoad LittleEndian count_lib (UserData_of ''u1'' None [] [] None) [] = Some (UserData_of ''u1'' None [] [] None)"
    unfolding Rocks_MessageLoad_def MessageLoadOnKV_def UserData_of_def
    by (simp add: load_field_def load_keys_def load_all_def IsDBCommonKeyType_def AppendRawData_eq empty_keys Db_Get_def del: packed_simps)
  then obtain s' where s': "db_run LittleEndian count_lib [DbQuery 4 default_server_head ''u1'', DbLoop 0] one_loop = Some s'"
    using route by (simp add: OnHandleSSQueryDataReq_def Db_RunLoop_def loop_db_def one_loop_def RocksDBModule_def)
  moreover have p: "posted_to (dbRocks one_loop) 0 [DbQuery 4 default_server_head ''u1'', DbLoop 0] = [QueryTask 4 default_server_head ''u1'']"
    using route by (simp add: posted_to_Cons)
  moreover have "dbQueue one_loop = []" "dbDone one_loop = []" "loop_db 0 one_loop = []"
    by (simp_all add: one_loop_def loop_db_def RocksDBModule_def)
  ultimately show ?thesis
    using db_loops_sequential [OF s', of 0] unfolding p by (fastforce simp: Let_def)
qed

end
