(* ===== verification/Game_System.thy ===== *)
theory Game_System
  imports Gate_Server Logic_Server Db_Server
begin

text \<open>
  One gate, one logic and one database server connected by sessions, with the packets they send each
  other under way. What a server sent on the session to another server and has not been delivered yet
  arrives in order, at any time; a packet is taken by the handler registered for its message type after
  the time-to-live check. The sessions are the parameter \<open>links\<close>: the id of each connection at
  either end.
\<close>

section \<open>The three servers and their connections\<close>

record links =
  lkGateLogic :: session_id_t
  lkLogicGate :: session_id_t
  lkLogicDb :: session_id_t
  lkDbLogic :: session_id_t

record 'd game =
  gmGate :: "'d gate_server"
  gmLogic :: "'d logic_server"
  gmDb :: "'d db_server"
  gmToLogic :: nat
  gmToGate :: nat
  gmToDb :: nat
  gmFromDb :: nat

text \<open>What was sent on one session.\<close>

definition on_link :: "session_id_t \<Rightarrow> 'b packet_net \<Rightarrow> 'b sent_packet list" where
  "on_link sid net = filter (\<lambda>p. fst p = sid) (pnSent net)"

fun logic_receive :: "session_id_t \<Rightarrow> 'd game_body sent_packet \<Rightarrow> 'd logic_server \<Rightarrow> 'd logic_server option" where
  "logic_receive sid (_, ty, ServerHead h, CSPlayerLoginReq token name) s =
     (if ty = msgid_login_req \<and> CheckHeadTTLError_server h then Logic_OnHandleCSPlayerLoginReq sid h s else Some s)"
| "logic_receive sid (_, ty, ServerHead h, SSQueryDataRsp d) s =
     (if ty = msgid_querydata_rsp \<and> CheckHeadTTLError_server h then Some (Logic_OnQueryRsp sid h (SSQueryDataRsp d) s) else Some s)"
| "logic_receive sid _ s = Some s"

fun db_receive :: "session_id_t \<Rightarrow> 'd game_body sent_packet \<Rightarrow> 'd db_server \<Rightarrow> 'd db_server option" where
  "db_receive sid (_, ty, ServerHead h, SSQueryDataReq u) s =
     (if ty = msgid_querydata_req \<and> CheckHeadTTLError_server h then OnHandleSSQueryDataReq sid h u s else Some s)"
| "db_receive sid (_, ty, ServerHead h, SSSaveDataReq _ upd del) s =
     (if ty = msgid_savedata_req \<and> CheckHeadTTLError_server h then OnHandleSSSaveDataReq sid h upd del s else Some s)"
| "db_receive sid _ s = Some s"

fun gate_receive :: "session_id_t \<Rightarrow> 'd game_body sent_packet \<Rightarrow> 'd gate_server \<Rightarrow> 'd gate_server" where
  "gate_receive sid (_, ty, ServerHead h, CSPlayerLoginRsp) s =
     (if ty = msgid_login_rsp \<and> CheckHeadTTLError_server h then Gate_OnLoginRsp sid h CSPlayerLoginRsp s else s)"
| "gate_receive sid _ s = s"

datatype game_event =
    ClientLogin session_id_t client_head string string
  | ToLogic | ToDb | RunDbLoop nat | SendDbReply | FromDb | ToGate
  | GateTimeout | LogicTimeout

fun game_do :: "endian \<Rightarrow> 'd pb_lib \<Rightarrow> links \<Rightarrow> game_event \<Rightarrow> 'd game \<Rightarrow> 'd game option" where
  "game_do e lib lk (ClientLogin sid head token name) s =
     map_option (\<lambda>g. s\<lparr>gmGate := g\<rparr>) (OnHandleCSPlayerLoginReq sid head token name (gmGate s))"
| "game_do e lib lk ToLogic s =
     (let ps = on_link (lkGateLogic lk) (gtNet (gmGate s))
      in if gmToLogic s < length ps
         then map_option (\<lambda>l. s\<lparr>gmLogic := l, gmToLogic := gmToLogic s + 1\<rparr>) (logic_receive (lkLogicGate lk) (ps ! gmToLogic s) (gmLogic s))
         else Some s)"
| "game_do e lib lk ToDb s =
     (let ps = on_link (lkLogicDb lk) (lgNet (gmLogic s))
      in if gmToDb s < length ps
         then map_option (\<lambda>d. s\<lparr>gmDb := d, gmToDb := gmToDb s + 1\<rparr>) (db_receive (lkDbLogic lk) (ps ! gmToDb s) (gmDb s))
         else Some s)"
| "game_do e lib lk (RunDbLoop i) s = map_option (\<lambda>d. s\<lparr>gmDb := d\<rparr>) (Db_RunLoop e lib i (gmDb s))"
| "game_do e lib lk SendDbReply s = Some (s\<lparr>gmDb := Db_SendReply (gmDb s)\<rparr>)"
| "game_do e lib lk FromDb s =
     (let ps = on_link (lkDbLogic lk) (dbNet (gmDb s))
      in if gmFromDb s < length ps
         then map_option (\<lambda>l. s\<lparr>gmLogic := l, gmFromDb := gmFromDb s + 1\<rparr>) (logic_receive (lkLogicDb lk) (ps ! gmFromDb s) (gmLogic s))
         else Some s)"
| "game_do e lib lk ToGate s =
     (let ps = on_link (lkLogicGate lk) (lgNet (gmLogic s))
      in if gmToGate s < length ps
         then Some (s\<lparr>gmGate := gate_receive (lkGateLogic lk) (ps ! gmToGate s) (gmGate s), gmToGate := gmToGate s + 1\<rparr>)
         else Some s)"
| "game_do e lib lk GateTimeout s = Some (s\<lparr>gmGate := Gate_OnTimeout (gmGate s)\<rparr>)"
| "game_do e lib lk LogicTimeout s = Some (s\<lparr>gmLogic := Logic_OnTimeout (gmLogic s)\<rparr>)"

fun game_run :: "endian \<Rightarrow> 'd pb_lib \<Rightarrow> links \<Rightarrow> game_event list \<Rightarrow> 'd game \<Rightarrow> 'd game option" where
  "game_run e lib lk [] s = Some s"
| "game_run e lib lk (x # xs) s = Option.bind (game_do e lib lk x s) (game_run e lib lk xs)"

text \<open>Servers just started, nothing sent; the database has any content and any tasks.\<close>

definition game_started ::
    "'d game_body packet_net \<Rightarrow> gov \<Rightarrow> 'd game_body packet_net \<Rightarrow> gov \<Rightarrow> 'd db_server \<Rightarrow> 'd game" where
  "game_started gnet ggov lnet lgov db =
     \<lparr>gmGate = gate_started (gnet\<lparr>pnSent := []\<rparr>) ggov, gmLogic = logic_started (lnet\<lparr>pnSent := []\<rparr>) lgov, gmDb = db\<lparr>dbNet := (dbNet db)\<lparr>pnSent := []\<rparr>, dbReplies := []\<rparr>,
      gmToLogic = 0, gmToGate = 0, gmToDb = 0, gmFromDb = 0\<rparr>"

section \<open>Where a binding comes from\<close>

text \<open>The logins the clients asked for: session and name.\<close>

definition asked :: "game_event list \<Rightarrow> (session_id_t \<times> string) set" where
  "asked es = {(sid, name). \<exists>head token. ClientLogin sid head token name \<in> set es}"

text \<open>A head that belongs to a login request: its query id is that of the request, its user the one asked for.\<close>

definition claim :: "(session_id_t \<times> string) set \<Rightarrow> 'd gate_server \<Rightarrow> server_head \<Rightarrow> bool" where
  "claim A g h \<longleftrightarrow> (\<exists>sid head. (sh_query_id h, msgid_login_rsp, LoginCallback sid head) \<in> set (rpcIssued (gtRpc g)) \<and> (sid, sh_user_id h) \<in> A)"

text \<open>The database server sends no login requests.\<close>

definition db_sends_no_login :: "'d db_server \<Rightarrow> bool" where
  "db_sends_no_login d \<longleftrightarrow>
     (\<forall>sid pkh b. (sid, msgid_login_req, pkh, b) \<notin> set (pnSent (dbNet d))) \<and> (\<forall>sid h b. (sid, msgid_login_req, h, b) \<notin> set (dbReplies d))"

definition game_inv :: "(session_id_t \<times> string) set \<Rightarrow> 'd game \<Rightarrow> bool" where
  "game_inv A s \<longleftrightarrow>
     gate_inv (gmGate s) \<and> rpc_inv (gtRpc (gmGate s)) \<and> logic_inv (gmLogic s) \<and>
     (\<forall>sid ty h b. (sid, ty, ServerHead h, b) \<in> set (pnSent (gtNet (gmGate s))) \<longrightarrow> claim A (gmGate s) h) \<and>
     (\<forall>sid h b. (sid, msgid_login_rsp, ServerHead h, b) \<in> set (pnSent (lgNet (gmLogic s))) \<longrightarrow> claim A (gmGate s) h) \<and>
     (\<forall>q sid h. (q, QueryCallback sid h) \<in> set (queries (gmLogic s)) \<longrightarrow> claim A (gmGate s) h) \<and>
     (\<forall>u sid. user_session (gmGate s) u = Some sid \<longrightarrow> (sid, u) \<in> A) \<and> db_sends_no_login (gmDb s)"

lemma claim_mono:
  assumes "claim A g h" "A \<subseteq> A'" "set (rpcIssued (gtRpc g)) \<subseteq> set (rpcIssued (gtRpc g'))"
  shows "claim A' g' h"
  using assms unfolding claim_def by blast

lemma claim_head: "claim A g h \<Longrightarrow> sh_query_id h' = sh_query_id h \<Longrightarrow> sh_user_id h' = sh_user_id h \<Longrightarrow> claim A g h'"
  by (simp add: claim_def)

lemma claim_cong: "rpcIssued (gtRpc g') = rpcIssued (gtRpc g) \<Longrightarrow> claim A g' h = claim A g h"
  by (simp add: claim_def)

lemma game_invD:
  assumes "game_inv A s"
  shows "gate_inv (gmGate s)" "rpc_inv (gtRpc (gmGate s))" "logic_inv (gmLogic s)"
    "(sid, ty, ServerHead h, b) \<in> set (pnSent (gtNet (gmGate s))) \<Longrightarrow> claim A (gmGate s) h"
    "(sid, msgid_login_rsp, ServerHead h, b) \<in> set (pnSent (lgNet (gmLogic s))) \<Longrightarrow> claim A (gmGate s) h"
    "(q, QueryCallback sid h) \<in> set (queries (gmLogic s)) \<Longrightarrow> claim A (gmGate s) h"
    "user_session (gmGate s) u = Some sid \<Longrightarrow> (sid, u) \<in> A" "db_sends_no_login (gmDb s)"
  using assms unfolding game_inv_def by blast+

text \<open>Sending a packet with a server head.\<close>

lemma sent_server:
  assumes "(sid', ty', ServerHead h', b') \<in> set (pnSent (snd (SendPacket sid ty (ServerHead h) b net)))"
  shows "(sid', ty', ServerHead h', b') \<in> set (pnSent net) \<or>
    (sid' = sid \<and> ty' = ty \<and> sh_user_id h' = sh_user_id h \<and> sh_query_id h' = sh_query_id h)"
proof -
  obtain pkh where "head_sent h pkh" "pnSent (snd (SendPacket sid ty (ServerHead h) b net)) =
      pnSent net @ (if pnOpen net sid then [(sid, ty, pkh, b)] else [])"
    using SendPacket_server(1) [of h sid ty b net] by blast
  then show ?thesis using assms by (auto simp: head_sent_def split: if_splits)
qed

lemma sent_client:
  "(sid', ty', ServerHead h', b') \<in> set (pnSent (snd (SendPacket sid ty (ClientHead h) b net))) \<Longrightarrow>
   (sid', ty', ServerHead h', b') \<in> set (pnSent net)"
  by (cases "pnOpen net sid") (auto simp: SendPacket_client)

section \<open>Steps of the gate\<close>

lemma rpcIssued_RpcRequest: "rpc_inv s \<Longrightarrow> rpcIssued (RpcRequest dest m f s) = rpcIssued s @ [(nQueryId s + 1, m, f)]"
  by (simp add: RpcRequest_eq)

lemma game_inv_ClientLogin:
  assumes inv: "game_inv A s" and step: "OnHandleCSPlayerLoginReq sid head token name (gmGate s) = Some g"
  shows "game_inv (insert (sid, name) A) (s\<lparr>gmGate := g\<rparr>)"
proof -
  note D = game_invD [OF inv]
  let ?A = "insert (sid, name) A" and ?q = "nQueryId (gtRpc (gmGate s)) + 1"
  obtain dest where g: "gtRpc g = RpcRequest dest msgid_login_rsp (LoginCallback sid head) (gtRpc (gmGate s))"
    "gtNet g = snd (SendPacket dest msgid_login_req (ServerHead (default_server_head\<lparr>sh_user_id := name, sh_query_id := nQueryId (gtRpc g)\<rparr>))
       (CSPlayerLoginReq token name) (gtNet (gmGate s)))"
    "mapSessionUserInfo g = mapSessionUserInfo (gmGate s)" "mapUserInfo g = mapUserInfo (gmGate s)"
    using step by (rule OnHandleCSPlayerLoginReq_effect)
  have iss: "rpcIssued (gtRpc g) = rpcIssued (gtRpc (gmGate s)) @ [(?q, msgid_login_rsp, LoginCallback sid head)]"
    unfolding g(1) by (rule rpcIssued_RpcRequest [OF D(2)])
  have q: "nQueryId (gtRpc g) = ?q" unfolding g(1) by (rule nQueryId_RpcRequest)
  have mono: "claim ?A g h" if "claim A (gmGate s) h" for h
    by (rule claim_mono [OF that]) (auto simp: iss)
  have new: "claim ?A g h" if "sh_query_id h = ?q" "sh_user_id h = name" for h
    unfolding claim_def iss that by auto
  show ?thesis
    unfolding game_inv_def
  proof (intro conjI allI impI)
    show "gate_inv (gmGate (s\<lparr>gmGate := g\<rparr>))" using D(1) gate_inv_cong(1) [OF g(3,4)] by simp
    show "rpc_inv (gtRpc (gmGate (s\<lparr>gmGate := g\<rparr>)))" using rpc_inv_RpcRequest [OF D(2)] by (simp add: g(1))
    show "logic_inv (gmLogic (s\<lparr>gmGate := g\<rparr>))" using D(3) by simp
    show "claim ?A (gmGate (s\<lparr>gmGate := g\<rparr>)) h"
      if "(sid', ty, ServerHead h, b) \<in> set (pnSent (gtNet (gmGate (s\<lparr>gmGate := g\<rparr>))))" for sid' ty h b
    proof -
      have "(sid', ty, ServerHead h, b) \<in> set (pnSent (gtNet g))" using that by simp
      then have "(sid', ty, ServerHead h, b) \<in> set (pnSent (gtNet (gmGate s))) \<or> (sh_query_id h = ?q \<and> sh_user_id h = name)"
        unfolding g(2) q by (auto dest: sent_server)
      then show ?thesis using mono [OF D(4)] new by auto
    qed
    show "claim ?A (gmGate (s\<lparr>gmGate := g\<rparr>)) h"
      if "(sid', msgid_login_rsp, ServerHead h, b) \<in> set (pnSent (lgNet (gmLogic (s\<lparr>gmGate := g\<rparr>))))" for sid' h b
      using that mono [OF D(5)] by simp
    show "claim ?A (gmGate (s\<lparr>gmGate := g\<rparr>)) h"
      if "(q', QueryCallback sid' h) \<in> set (queries (gmLogic (s\<lparr>gmGate := g\<rparr>)))" for q' sid' h
      using that mono [OF D(6)] by simp
    show "db_sends_no_login (gmDb (s\<lparr>gmGate := g\<rparr>))" using D(8) by simp
    show "(sid', u) \<in> ?A" if "user_session (gmGate (s\<lparr>gmGate := g\<rparr>)) u = Some sid'" for u sid'
      using that D(7) gate_inv_cong(2) [OF g(3,4)] by simp
  qed
qed

text \<open>A response at the gate: nothing, or one bound session, which the response's head belongs to.\<close>

lemma Gate_OnLoginRsp_cases:
  assumes "rpc_inv (gtRpc s)"
  obtains
    (unknown) "Gate_OnLoginRsp d hr b s = s"
  | (delivered) f where "(sh_query_id hr, msgid_login_rsp, f) \<in> set (rpcIssued (gtRpc s))"
      "Gate_OnLoginRsp d hr b s = LoginCallback_call f (d, hr, b)
         (s\<lparr>gtRpc := RegisterNetHandle msgid_login_rsp d (sh_query_id hr) (hr, b) (gtRpc s)\<rparr>)"
      "rpcIssued (RegisterNetHandle msgid_login_rsp d (sh_query_id hr) (hr, b) (gtRpc s)) = rpcIssued (gtRpc s)"
proof -
  let ?rpc = "RegisterNetHandle msgid_login_rsp d (sh_query_id hr) (hr, b) (gtRpc s)"
  note unf = Gate_OnLoginRsp_def Gate_callbacks_def
  show thesis
  proof (rule RegisterNetHandle_cases [OF assms, of "sh_query_id hr" msgid_login_rsp d "(hr, b)"])
    assume "?rpc = gtRpc s"
    then show thesis using unknown by (simp add: unf)
  next
    fix f
    assume f: "(sh_query_id hr, f) \<in> set (waiting msgid_login_rsp (gtRpc s))"
      and "rpcCalls ?rpc = rpcCalls (gtRpc s) @ [(sh_query_id hr, f, Response d (hr, b))]" and i: "rpcIssued ?rpc = rpcIssued (gtRpc s)"
    then have "Gate_OnLoginRsp d hr b s = LoginCallback_call f (d, hr, b) (s\<lparr>gtRpc := ?rpc\<rparr>)"
      by (simp add: unf called_now_append)
    then show thesis by (rule delivered [OF rpc_invD(5) [OF assms f] _ i])
  qed
qed

text \<open>What a callback of the gate leaves: the requests issued, server heads sent, and bindings but one.\<close>

lemma LoginCallback_call_keeps:
  assumes inv: "gate_inv s" and s'_def: "s' = LoginCallback_call (LoginCallback sid head) (d, hr, b) s"
  shows "gtRpc s' = gtRpc s"
    "(sid', ty, ServerHead h, b') \<in> set (pnSent (gtNet s')) \<Longrightarrow> (sid', ty, ServerHead h, b') \<in> set (pnSent (gtNet s))"
    "user_session s' u = Some sid' \<Longrightarrow> user_session s u = Some sid' \<or> (sh_error_code hr = 0 \<and> u = sh_user_id hr \<and> sid' = sid)"
proof -
  have "gtRpc s' = gtRpc s \<and>
    ((sid', ty, ServerHead h, b') \<in> set (pnSent (gtNet s')) \<longrightarrow> (sid', ty, ServerHead h, b') \<in> set (pnSent (gtNet s))) \<and>
    (user_session s' u = Some sid' \<longrightarrow> user_session s u = Some sid' \<or> (sh_error_code hr = 0 \<and> u = sh_user_id hr \<and> sid' = sid))"
  proof (rule LoginCallback_call_cases [of sid head d hr b s, folded s'_def])
    assume "s' = s"
    then show ?thesis by simp
  next
    let ?s1 = "snd (OnUserLogin sid (sh_user_id hr) s)"
    assume s': "s' = Gate_send sid msgid_login_rsp (ClientHead head) b ?s1" "sh_error_code hr = 0" "mapSessionUserInfo s sid = None"
    have "user_session s' = user_session ?s1" unfolding s'(1) by (rule gate_inv_cong(2)) simp_all
    also have "... = (user_session s)(sh_user_id hr \<mapsto> sid)" by (rule user_session_OnUserLogin [OF inv s'(3)])
    finally have "user_session s' = (user_session s)(sh_user_id hr \<mapsto> sid)" .
    moreover have "(sid', ty, ServerHead h, b') \<in> set (pnSent (gtNet s))" if "(sid', ty, ServerHead h, b') \<in> set (pnSent (gtNet s'))"
      using that sent_client [of sid' ty h b' sid msgid_login_rsp head b "gtNet s"] unfolding s'(1) by (simp add: Gate_send_def)
    ultimately show ?thesis using s'(2) by (auto simp: s'(1) split: if_splits)
  qed
  then show "gtRpc s' = gtRpc s"
    "(sid', ty, ServerHead h, b') \<in> set (pnSent (gtNet s')) \<Longrightarrow> (sid', ty, ServerHead h, b') \<in> set (pnSent (gtNet s))"
    "user_session s' u = Some sid' \<Longrightarrow> user_session s u = Some sid' \<or> (sh_error_code hr = 0 \<and> u = sh_user_id hr \<and> sid' = sid)"
    by blast+
qed

lemma game_inv_gate:
  assumes inv: "game_inv A s" and g: "gate_inv g" "rpc_inv (gtRpc g)" "rpcIssued (gtRpc g) = rpcIssued (gtRpc (gmGate s))"
    and sent: "\<And>sid ty h b. (sid, ty, ServerHead h, b) \<in> set (pnSent (gtNet g)) \<Longrightarrow> (sid, ty, ServerHead h, b) \<in> set (pnSent (gtNet (gmGate s)))"
    and bind: "\<And>u sid. user_session g u = Some sid \<Longrightarrow> (sid, u) \<in> A"
    and s': "gmGate s' = g" "gmLogic s' = gmLogic s" "gmDb s' = gmDb s"
  shows "game_inv A s'"
  unfolding game_inv_def s' claim_cong [OF g(3)]
  using game_invD [OF inv] g(1,2) sent bind by blast

lemma game_inv_ToGate:
  assumes inv: "game_inv A s" and p: "p \<in> set (pnSent (lgNet (gmLogic s)))"
    and s': "gmGate s' = gate_receive gl p (gmGate s)" "gmLogic s' = gmLogic s" "gmDb s' = gmDb s"
  shows "game_inv A s'"
proof (cases "gate_receive gl p (gmGate s) = gmGate s")
  case True
  then show ?thesis using inv s' by (simp add: game_inv_def)
next
  case False
  note D = game_invD [OF inv]
  obtain sid h where ph: "p = (sid, msgid_login_rsp, ServerHead h, CSPlayerLoginRsp)"
    and r: "gate_receive gl p (gmGate s) = Gate_OnLoginRsp gl h CSPlayerLoginRsp (gmGate s)"
    using False by (cases "(gl, p, gmGate s)" rule: gate_receive.cases) (auto split: if_splits)
  have c: "claim A (gmGate s) h" using D(5) p unfolding ph by blast
  show ?thesis
  proof (rule Gate_OnLoginRsp_cases [OF D(2), of gl h CSPlayerLoginRsp])
    assume "Gate_OnLoginRsp gl h CSPlayerLoginRsp (gmGate s) = gmGate s"
    then show ?thesis using False r by simp
  next
    fix f
    let ?rpc = "RegisterNetHandle msgid_login_rsp gl (sh_query_id h) (h, CSPlayerLoginRsp) (gtRpc (gmGate s))"
    let ?g = "Gate_OnLoginRsp gl h CSPlayerLoginRsp (gmGate s)"
    assume f: "(sh_query_id h, msgid_login_rsp, f) \<in> set (rpcIssued (gtRpc (gmGate s)))"
      and g: "?g = LoginCallback_call f (gl, h, CSPlayerLoginRsp) (gmGate s\<lparr>gtRpc := ?rpc\<rparr>)"
      and iss: "rpcIssued ?rpc = rpcIssued (gtRpc (gmGate s))"
    obtain sid' head where a: "(sh_query_id h, msgid_login_rsp, LoginCallback sid' head) \<in> set (rpcIssued (gtRpc (gmGate s)))" "(sid', sh_user_id h) \<in> A"
      using c unfolding claim_def by blast
    have ff: "f = LoginCallback sid' head"
      using eq_key_imp_eq_value [OF rpc_invD(2) [OF D(2)] f a(1)] by simp
    have inv1: "gate_inv (gmGate s\<lparr>gtRpc := ?rpc\<rparr>)" using D(1) by (simp add: gate_inv_def)
    note K = LoginCallback_call_keeps [OF inv1 g [unfolded ff]]
    show ?thesis
    proof (rule game_inv_gate [OF inv])
      show "gate_inv ?g" unfolding g by (rule gate_inv_callback [OF inv1])
      show "rpc_inv (gtRpc ?g)" unfolding K(1) by (simp add: rpc_inv_RegisterNetHandle [OF D(2)])
      show "rpcIssued (gtRpc ?g) = rpcIssued (gtRpc (gmGate s))" unfolding K(1) by (simp add: iss)
      show "(sid, ty, ServerHead h', b) \<in> set (pnSent (gtNet (gmGate s)))" if "(sid, ty, ServerHead h', b) \<in> set (pnSent (gtNet ?g))" for sid ty h' b
        using K(2) [OF that] by simp
      show "(sid, u) \<in> A" if "user_session ?g u = Some sid" for u sid
        using K(3) [OF that] a(2) D(7) by (auto simp: user_session_def)
      show "gmGate s' = ?g" using s'(1) r by simp
    qed (rule s'(2,3))+
  qed
qed

lemma game_inv_GateTimeout:
  assumes inv: "game_inv A s"
  shows "game_inv A (s\<lparr>gmGate := Gate_OnTimeout (gmGate s)\<rparr>)"
proof -
  note D = game_invD [OF inv]
  let ?g0 = "gmGate s" and ?rpc = "RegisterTimeoutHandle msgid_login_rsp [] (gtRpc (gmGate s))"
  have c: "called_now (gtRpc ?g0) ?rpc = map (\<lambda>(q, f). (f, TimedOut)) (last_waiting msgid_login_rsp (gtRpc ?g0))"
    by (simp add: called_now_append [OF tick_effect(1)] split_def comp_def)
  have one: "LoginCallback_call f (callback_args b TimedOut) t = t" for f b and t :: "'a gate_server"
    by (cases f) (simp add: default_server_head_def ss_msg_timeout_def)
  have "fold (\<lambda>(f, r). LoginCallback_call f (callback_args b r)) (map (\<lambda>(q, f). (f, TimedOut)) cs) t = t" for cs b and t :: "'a gate_server"
    by (induction cs) (auto simp: one simp del: callback_args.simps)
  then have g: "Gate_OnTimeout ?g0 = ?g0\<lparr>gtRpc := ?rpc\<rparr>" unfolding Gate_OnTimeout_def Gate_callbacks_def c .
  show ?thesis
    by (rule game_inv_gate [OF inv, of "?g0\<lparr>gtRpc := ?rpc\<rparr>"])
      (use D(1,7) in \<open>simp_all add: g gate_inv_def rpc_inv_tick [OF D(2)] tick_effect user_session_def\<close>)
qed

section \<open>Steps of the logic server\<close>

lemma game_inv_logic:
  assumes inv: "game_inv A s" and l: "logic_inv l"
    and sent: "\<And>sid h b. (sid, msgid_login_rsp, ServerHead h, b) \<in> set (pnSent (lgNet l)) \<Longrightarrow>
      (sid, msgid_login_rsp, ServerHead h, b) \<in> set (pnSent (lgNet (gmLogic s))) \<or> claim A (gmGate s) h"
    and qs: "\<And>q sid h. (q, QueryCallback sid h) \<in> set (queries l) \<Longrightarrow>
      (q, QueryCallback sid h) \<in> set (queries (gmLogic s)) \<or> claim A (gmGate s) h"
    and s': "gmGate s' = gmGate s" "gmLogic s' = l" "gmDb s' = gmDb s"
  shows "game_inv A s'"
  unfolding game_inv_def s'
  using game_invD [OF inv] l sent qs by blast

text \<open>A reply to a login carries the head of its request.\<close>

lemma reply_claim:
  assumes "(sid', ty', ServerHead h', b') \<in> set (pnSent (lgNet (Logic_send sid ty (ServerHead h0) b l)))"
    and "sh_user_id h0 = sh_user_id h" "sh_query_id h0 = sh_query_id h" "claim A g h"
  shows "(sid', ty', ServerHead h', b') \<in> set (pnSent (lgNet l)) \<or> claim A g h'"
  using sent_server [of sid' ty' h' b' sid ty h0 b "lgNet l"] assms claim_head [OF assms(4), of h'] by (auto simp: Logic_send_def)

lemma query_rsp_not_login: "msgid_querydata_req \<noteq> msgid_login_rsp" "msgid_querydata_rsp \<noteq> msgid_login_req"
  by (simp_all add: msgid_querydata_req_def msgid_login_rsp_def msgid_querydata_rsp_def msgid_login_req_def)

lemma game_inv_login:
  assumes inv: "game_inv A s" and step: "Logic_OnHandleCSPlayerLoginReq sid h (gmLogic s) = Some l" and c: "claim A (gmGate s) h"
    and s': "gmGate s' = gmGate s" "gmLogic s' = l" "gmDb s' = gmDb s"
  shows "game_inv A s'"
proof -
  note D = game_invD [OF inv]
  let ?l = "gmLogic s" and ?u = "sh_user_id h"
  have l: "logic_inv l" by (rule logic_inv_login [OF D(3) step])
  show ?thesis
  proof (cases "mapOnlinePlayer ?l ?u = None \<and> mapLoadingPlayer ?l ?u = None")
    case True
    obtain dest where n: "lgRpc l = RpcRequest dest msgid_querydata_rsp (QueryCallback sid h) (lgRpc ?l)"
      "lgNet l = snd (SendPacket dest msgid_querydata_req (ServerHead (h\<lparr>sh_query_id := nQueryId (lgRpc l)\<rparr>)) (SSQueryDataReq ?u) (lgNet ?l))"
      using Logic_login_new [OF True [THEN conjunct1] True [THEN conjunct2] step] by metis
    have "set (queries l) = insert (nQueryId (lgRpc ?l) + 1, QueryCallback sid h) (set (queries ?l))"
      unfolding n(1) by (simp add: waiting_RpcRequest [OF logic_invD(1) [OF D(3)]])
    moreover have "(sid', msgid_login_rsp, ServerHead h', b) \<in> set (pnSent (lgNet ?l))"
      if "(sid', msgid_login_rsp, ServerHead h', b) \<in> set (pnSent (lgNet l))" for sid' h' b
      using that query_rsp_not_login(1) unfolding n(2) by (auto dest: sent_server)
    ultimately show ?thesis using c by (intro game_inv_logic [OF inv l _ _ s']) auto
  next
    case False
    then obtain err where lr: "l = Logic_send sid msgid_login_rsp (ServerHead (h\<lparr>sh_error_code := err\<rparr>)) CSPlayerLoginRsp ?l"
      using step Logic_login_online [of ?l h sid] Logic_login_loading [of ?l h sid] by (metis option.inject)
    show ?thesis
    proof (rule game_inv_logic [OF inv l _ _ s'])
      show "(sid', msgid_login_rsp, ServerHead h', b) \<in> set (pnSent (lgNet ?l)) \<or> claim A (gmGate s) h'"
        if "(sid', msgid_login_rsp, ServerHead h', b) \<in> set (pnSent (lgNet l))" for sid' h' b
        using reply_claim [OF that [unfolded lr] _ _ c] by simp
    qed (simp add: lr)
  qed
qed

text \<open>Callbacks of queries reply with the heads they keep.\<close>

lemma callbacks_sent:
  assumes "(sid', msgid_login_rsp, ServerHead h', b') \<in> set (pnSent (lgNet (fold (\<lambda>(f, r). QueryCallback_call f (callback_args d r)) cs l)))"
    and "\<And>f r sid h. (f, r) \<in> set cs \<Longrightarrow> f = QueryCallback sid h \<Longrightarrow> claim A g h"
  shows "(sid', msgid_login_rsp, ServerHead h', b') \<in> set (pnSent (lgNet l)) \<or> claim A g h'"
  using assms
proof (induction cs arbitrary: l)
  case (Cons c cs)
  obtain f r sid h where c: "c = (f, r)" "f = QueryCallback sid h" by (cases c; cases "fst c") auto
  obtain x y z where a: "callback_args d r = (x, y, z)" by (cases "callback_args d r") auto
  let ?l1 = "QueryCallback_call f (callback_args d r) l"
  have "(sid', msgid_login_rsp, ServerHead h', b') \<in> set (pnSent (lgNet ?l1)) \<or> claim A g h'"
    using Cons.prems c(1) by (intro Cons.IH [of ?l1]) auto
  moreover have "claim A g h" using Cons.prems(2) [of f r sid h] c by simp
  then have "(sid', msgid_login_rsp, ServerHead h', b') \<in> set (pnSent (lgNet l)) \<or> claim A g h'"
    if "(sid', msgid_login_rsp, ServerHead h', b') \<in> set (pnSent (lgNet ?l1))"
    using reply_claim [OF that [unfolded c(2) a QueryCallback_call.simps], of h A g] by simp
  ultimately show ?case by blast
qed simp

lemma called_now_queries:
  assumes inv: "game_inv A s"
  shows "(f, r) \<in> set (called_now (lgRpc (gmLogic s)) (RegisterNetHandle msgid_querydata_rsp d q x (lgRpc (gmLogic s)))) \<Longrightarrow> \<exists>q. (q, f) \<in> set (queries (gmLogic s))"
    "(f, r) \<in> set (called_now (lgRpc (gmLogic s)) (RegisterTimeoutHandle msgid_querydata_rsp [] (lgRpc (gmLogic s)))) \<Longrightarrow> \<exists>q. (q, f) \<in> set (queries (gmLogic s))"
proof -
  note R = logic_invD(1) [OF game_invD(3) [OF inv]]
  show "\<exists>q. (q, f) \<in> set (queries (gmLogic s))"
    if "(f, r) \<in> set (called_now (lgRpc (gmLogic s)) (RegisterNetHandle msgid_querydata_rsp d q x (lgRpc (gmLogic s))))"
    by (rule RegisterNetHandle_cases [OF R, of q msgid_querydata_rsp d x]) (use that in \<open>auto simp: called_now_append\<close>)
  show "\<exists>q. (q, f) \<in> set (queries (gmLogic s))"
    if "(f, r) \<in> set (called_now (lgRpc (gmLogic s)) (RegisterTimeoutHandle msgid_querydata_rsp [] (lgRpc (gmLogic s))))"
    using that by (auto simp: called_now_append [OF tick_effect(1)] waiting_split)
qed

lemma queries_subset:
  assumes "logic_inv l"
  shows "set (queries (Logic_OnQueryRsp d hr b l)) \<subseteq> set (queries l)" "set (queries (Logic_OnTimeout l)) \<subseteq> set (queries l)"
proof -
  show "set (queries (Logic_OnQueryRsp d hr b l)) \<subseteq> set (queries l)"
    by (rule Logic_OnQueryRsp_cases [OF logic_invD(1) [OF assms], of hr d b]) auto
  show "set (queries (Logic_OnTimeout l)) \<subseteq> set (queries l)"
    by (simp add: Logic_OnTimeout_fields(1) tick_effect(2) waiting_split [of _ "lgRpc l"])
qed

lemma game_inv_query_answers:
  assumes inv: "game_inv A s" and s': "gmGate s' = gmGate s" "gmDb s' = gmDb s"
    and l: "gmLogic s' = Logic_OnQueryRsp d hr b (gmLogic s) \<or> gmLogic s' = Logic_OnTimeout (gmLogic s)"
  shows "game_inv A s'"
proof (rule game_inv_logic [OF inv _ _ _ s'(1) refl s'(2)])
  note D = game_invD [OF inv]
  have c: "claim A (gmGate s) h" if "(f, r) \<in> set (called_now (lgRpc (gmLogic s)) (RegisterNetHandle msgid_querydata_rsp d (sh_query_id hr) (hr, b) (lgRpc (gmLogic s)))) \<or>
      (f, r) \<in> set (called_now (lgRpc (gmLogic s)) (RegisterTimeoutHandle msgid_querydata_rsp [] (lgRpc (gmLogic s))))"
    "f = QueryCallback sid h" for f r sid h
    using that called_now_queries [OF inv] D(6) by metis
  show "logic_inv (gmLogic s')" using l logic_inv_OnQueryRsp [OF D(3)] logic_inv_OnTimeout [OF D(3)] by auto
  show "(sid, msgid_login_rsp, ServerHead h, x) \<in> set (pnSent (lgNet (gmLogic s))) \<or> claim A (gmGate s) h"
    if "(sid, msgid_login_rsp, ServerHead h, x) \<in> set (pnSent (lgNet (gmLogic s')))" for sid h x
    using l
  proof
    assume e: "gmLogic s' = Logic_OnQueryRsp d hr b (gmLogic s)"
    show ?thesis
      using callbacks_sent [OF that [unfolded e Logic_OnQueryRsp_def Logic_callbacks_def], of A "gmGate s"] c by simp blast
  next
    assume e: "gmLogic s' = Logic_OnTimeout (gmLogic s)"
    show ?thesis
      using callbacks_sent [OF that [unfolded e Logic_OnTimeout_def Logic_callbacks_def], of A "gmGate s"] c by simp blast
  qed
  show "(q, QueryCallback sid h) \<in> set (queries (gmLogic s)) \<or> claim A (gmGate s) h"
    if "(q, QueryCallback sid h) \<in> set (queries (gmLogic s'))" for q sid h
    using that l queries_subset(1) [OF D(3), of d hr b] queries_subset(2) [OF D(3)] by (elim disjE) auto
qed

text \<open>All steps.\<close>

lemma db_receive_sends:
  assumes "db_receive sid p d = Some d'" "db_sends_no_login d"
  shows "db_sends_no_login d'"
  using assms by (cases "(sid, p, d)" rule: db_receive.cases)
    (auto simp: db_sends_no_login_def OnHandleSSQueryDataReq_def OnHandleSSSaveDataReq_def Let_def split: if_splits)

lemma Db_RunLoop_sends:
  assumes "Db_RunLoop e lib i d = Some d'" "db_sends_no_login d"
  shows "db_sends_no_login d'"
proof (cases "take_task i (dbQueue d)")
  case (Some tq)
  then obtain t q db r where tq: "take_task i (dbQueue d) = Some (t, q)" and x: "execute_task e lib t (loop_db i d) = Some (db, r)"
    and d': "d' = set_loop_db i db (d\<lparr>dbQueue := q, dbReplies := dbReplies d @ [r], dbDone := dbDone d @ [(i, r)]\<rparr>)"
    using assms(1) by (cases tq) (auto simp: Db_RunLoop_def)
  have "fst (snd r) \<noteq> msgid_login_req"
    using x by (cases t) (auto simp: msgid_savedata_rsp_def msgid_querydata_rsp_def msgid_login_req_def split: option.splits)
  then show ?thesis using assms(2) unfolding d' by (cases r) (auto simp: db_sends_no_login_def)
qed (use assms in \<open>simp add: Db_RunLoop_def\<close>)

lemma Db_SendReply_sends:
  assumes "db_sends_no_login d"
  shows "db_sends_no_login (Db_SendReply d)"
proof (cases "dbReplies d")
  case (Cons r rs)
  obtain sid ty h b where r: "r = (sid, ty, h, b)" by (cases r) auto
  obtain pkh where "pnSent (snd (SendPacket sid ty (ServerHead h) b (dbNet d))) =
      pnSent (dbNet d) @ (if pnOpen (dbNet d) sid then [(sid, ty, pkh, b)] else [])"
    using SendPacket_server(1) [of h sid ty b "dbNet d"] by blast
  moreover have "(sid, ty, h, b) \<in> set (dbReplies d)" using Cons r by simp
  then have "ty \<noteq> msgid_login_req" using assms unfolding db_sends_no_login_def by blast
  ultimately show ?thesis using assms Cons by (auto simp: Db_SendReply_def r db_sends_no_login_def)
qed (use assms in \<open>simp add: Db_SendReply_def\<close>)

lemma game_inv_db:
  assumes "game_inv A s" "db_sends_no_login d" "gmGate s' = gmGate s" "gmLogic s' = gmLogic s" "gmDb s' = d"
  shows "game_inv A s'"
  using assms(1,2) by (simp add: game_inv_def assms(3-5))

lemma game_inv_do:
  assumes inv: "game_inv A s" and step: "game_do e lib lk x s = Some s'"
  shows "game_inv (A \<union> asked [x]) s'"
proof (cases x)
  case (ClientLogin sid head token name)
  then show ?thesis using game_inv_ClientLogin [OF inv] step by (auto simp: asked_def insert_commute)
next
  case ToLogic
  have a: "A \<union> asked [x] = A" using ToLogic by (simp add: asked_def)
  let ?ps = "on_link (lkGateLogic lk) (gtNet (gmGate s))"
  show ?thesis
  proof (cases "gmToLogic s < length ?ps")
    case True
    let ?p = "?ps ! gmToLogic s"
    obtain l where l: "logic_receive (lkLogicGate lk) ?p (gmLogic s) = Some l" "s' = s\<lparr>gmLogic := l, gmToLogic := gmToLogic s + 1\<rparr>"
      using step ToLogic True by (auto simp: Let_def)
    have p: "?p \<in> set (pnSent (gtNet (gmGate s)))" using nth_mem [OF True] by (simp add: on_link_def)
    show ?thesis
    proof (cases "(lkLogicGate lk, ?p, gmLogic s)" rule: logic_receive.cases)
      case (1 sid sid' ty h token name t)
      then have "claim A (gmGate s) h" using game_invD(4) [OF inv] p by (metis Pair_inject)
      then show ?thesis
        using 1 l inv game_inv_login [OF inv, of sid h l s'] unfolding a by (auto simp: game_inv_def split: if_splits)
    next
      case (2 sid sid' ty h d t)
      then show ?thesis
        using l inv game_inv_query_answers [OF inv, of s' sid h "SSQueryDataRsp d"] unfolding a by (auto simp: game_inv_def split: if_splits)
    qed (use l inv in \<open>auto simp: a game_inv_def\<close>)
  qed (use step ToLogic inv a in simp)
next
  case FromDb
  have a: "A \<union> asked [x] = A" using FromDb by (simp add: asked_def)
  let ?ps = "on_link (lkDbLogic lk) (dbNet (gmDb s))"
  show ?thesis
  proof (cases "gmFromDb s < length ?ps")
    case True
    let ?p = "?ps ! gmFromDb s"
    obtain l where l: "logic_receive (lkLogicDb lk) ?p (gmLogic s) = Some l" "s' = s\<lparr>gmLogic := l, gmFromDb := gmFromDb s + 1\<rparr>"
      using step FromDb True by (auto simp: Let_def)
    have p: "?p \<in> set (pnSent (dbNet (gmDb s)))" using nth_mem [OF True] by (simp add: on_link_def)
    show ?thesis
    proof (cases "(lkLogicDb lk, ?p, gmLogic s)" rule: logic_receive.cases)
      case (1 sid sid' ty h token name t)
      then have "ty \<noteq> msgid_login_req" using game_invD(8) [OF inv] p unfolding db_sends_no_login_def by (metis Pair_inject)
      then show ?thesis using 1 l inv unfolding a by (auto simp: game_inv_def)
    next
      case (2 sid sid' ty h d t)
      then show ?thesis
        using l inv game_inv_query_answers [OF inv, of s' sid h "SSQueryDataRsp d"] unfolding a by (auto simp: game_inv_def split: if_splits)
    qed (use l inv in \<open>auto simp: a game_inv_def\<close>)
  qed (use step FromDb inv a in simp)
next
  case ToGate
  have a: "A \<union> asked [x] = A" using ToGate by (simp add: asked_def)
  let ?ps = "on_link (lkLogicGate lk) (lgNet (gmLogic s))"
  show ?thesis
  proof (cases "gmToGate s < length ?ps")
    case True
    have "?ps ! gmToGate s \<in> set (pnSent (lgNet (gmLogic s)))" using nth_mem [OF True] by (simp add: on_link_def)
    from game_inv_ToGate [OF inv this, of s' "lkGateLogic lk"] show ?thesis using step ToGate True unfolding a by (auto simp: Let_def)
  qed (use step ToGate inv a in simp)
next
  case GateTimeout
  then show ?thesis using step game_inv_GateTimeout [OF inv] by (auto simp: asked_def)
next
  case LogicTimeout
  then show ?thesis using step game_inv_query_answers [OF inv, of s'] by (auto simp: asked_def)
next
  case ToDb
  have a: "A \<union> asked [x] = A" using ToDb by (simp add: asked_def)
  let ?ps = "on_link (lkLogicDb lk) (lgNet (gmLogic s))"
  show ?thesis
  proof (cases "gmToDb s < length ?ps")
    case True
    then obtain d where d: "db_receive (lkDbLogic lk) (?ps ! gmToDb s) (gmDb s) = Some d" "s' = s\<lparr>gmDb := d, gmToDb := gmToDb s + 1\<rparr>"
      using step ToDb by (auto simp: Let_def)
    show ?thesis unfolding a by (rule game_inv_db [OF inv db_receive_sends [OF d(1) game_invD(8) [OF inv]]]) (simp_all add: d(2))
  qed (use step ToDb inv a in simp)
next
  case (RunDbLoop i)
  then have a: "A \<union> asked [x] = A" by (simp add: asked_def)
  obtain d where d: "Db_RunLoop e lib i (gmDb s) = Some d" "s' = s\<lparr>gmDb := d\<rparr>" using step RunDbLoop by auto
  show ?thesis unfolding a by (rule game_inv_db [OF inv Db_RunLoop_sends [OF d(1) game_invD(8) [OF inv]]]) (simp_all add: d(2))
next
  case SendDbReply
  then have a: "A \<union> asked [x] = A" by (simp add: asked_def)
  have "s' = s\<lparr>gmDb := Db_SendReply (gmDb s)\<rparr>" using step SendDbReply by simp
  then show ?thesis unfolding a using Db_SendReply_sends [OF game_invD(8) [OF inv]] by (intro game_inv_db [OF inv]) simp_all
qed

lemma asked_Cons: "asked (x # es) = asked [x] \<union> asked es"
  by (auto simp: asked_def)

lemma game_inv_run: "game_inv A s \<Longrightarrow> game_run e lib lk es s = Some s' \<Longrightarrow> game_inv (A \<union> asked es) s'"
proof (induction es arbitrary: A s)
  case (Cons x es)
  then obtain s1 where s1: "game_do e lib lk x s = Some s1" "game_run e lib lk es s1 = Some s'" by (auto split: bind_splits)
  from Cons.IH [OF game_inv_do [OF Cons.prems(1) s1(1)] s1(2)] show ?case unfolding asked_Cons [of x es] Un_assoc .
qed (simp add: asked_def)

lemma game_inv_started: "game_inv {} (game_started gnet ggov lnet lgov db)"
  by (simp add: game_inv_def game_started_def gate_inv_started logic_inv_started)
    (simp add: gate_started_def logic_started_def rpc_inv_init [unfolded RpcModule_def] waiting_def RpcModule_def user_session_def db_sends_no_login_def)

section \<open>The stages of a login\<close>

text \<open>The client's request: the gate asks the logic server.\<close>

lemma stage_client:
  assumes rpc: "rpc_inv (gtRpc g)" and route: "GetServerSessionIdByKey LogicServer u (gtGov g) = Some gl" and up: "pnOpen (gtNet g) gl"
  obtains g' h where "OnHandleCSPlayerLoginReq sid head token u g = Some g'"
    "pnSent (gtNet g') = pnSent (gtNet g) @ [(gl, msgid_login_req, ServerHead h, CSPlayerLoginReq token u)]"
    "sh_user_id h = u" "sh_query_id h = nQueryId (gtRpc g) + 1" "sh_error_code h = 0" "sh_ttl h = 30"
    "(nQueryId (gtRpc g) + 1, LoginCallback sid head) \<in> set (waiting msgid_login_rsp (gtRpc g'))" "rpc_inv (gtRpc g')"
    "mapSessionUserInfo g' = mapSessionUserInfo g" "mapUserInfo g' = mapUserInfo g" "pnOpen (gtNet g') = pnOpen (gtNet g)"
proof -
  obtain g' where g': "OnHandleCSPlayerLoginReq sid head token u g = Some g'"
    using route by (simp add: OnHandleCSPlayerLoginReq_def)
  obtain dest where E: "GetServerSessionIdByKey LogicServer u (gtGov g) = Some dest"
    "gtRpc g' = RpcRequest dest msgid_login_rsp (LoginCallback sid head) (gtRpc g)"
    "gtNet g' = snd (SendPacket dest msgid_login_req (ServerHead (default_server_head\<lparr>sh_user_id := u, sh_query_id := nQueryId (gtRpc g')\<rparr>))
       (CSPlayerLoginReq token u) (gtNet g))"
    "mapSessionUserInfo g' = mapSessionUserInfo g" "mapUserInfo g' = mapUserInfo g"
    using g' by (rule OnHandleCSPlayerLoginReq_effect)
  have d: "dest = gl" using E(1) route by simp
  have q: "nQueryId (gtRpc g') = nQueryId (gtRpc g) + 1" unfolding E(2) by (rule nQueryId_RpcRequest)
  obtain pkh where pkh: "head_sent (default_server_head\<lparr>sh_user_id := u, sh_query_id := nQueryId (gtRpc g')\<rparr>) pkh"
    "pnSent (gtNet g') = pnSent (gtNet g) @ [(gl, msgid_login_req, pkh, CSPlayerLoginReq token u)]"
    using SendPacket_server(1) [of "default_server_head\<lparr>sh_user_id := u, sh_query_id := nQueryId (gtRpc g')\<rparr>" gl msgid_login_req
        "CSPlayerLoginReq token u" "gtNet g"] up unfolding E(3) d by auto
  then obtain h where h: "pkh = ServerHead h" "sh_user_id h = u" "sh_query_id h = nQueryId (gtRpc g) + 1" "sh_error_code h = 0" "sh_ttl h = 30"
    by (auto simp: head_sent_def default_server_head_def q)
  have w: "(nQueryId (gtRpc g) + 1, LoginCallback sid head) \<in> set (waiting msgid_login_rsp (gtRpc g'))"
    unfolding E(2) by (simp add: waiting_RpcRequest [OF rpc])
  show thesis
    by (rule that [OF g' pkh(2) [unfolded h(1)] h(2-5) w])
      (simp_all add: E(2,4,5) rpc_inv_RpcRequest [OF rpc], simp add: E(3))
qed

text \<open>The logic server starts to load: one query, nothing sent to the gate.\<close>

lemma generations_RpcRequest:
  assumes "rpc_inv s"
  shows "current_waiting m (RpcRequest dest m f s) = current_waiting m s @ [(nQueryId s + 1, f)]"
    "last_waiting m (RpcRequest dest m f s) = last_waiting m s"
  by (simp_all add: RpcRequest_eq [OF assms] current_waiting_def last_waiting_def split: option.split)

lemma stage_logic:
  assumes inv: "logic_inv l" and h: "sh_user_id h = u" "sh_error_code h = 0" "sh_ttl h = 30"
    and new: "mapOnlinePlayer l u = None" "mapLoadingPlayer l u = None"
    and route: "GetServerSessionIdByKey DBServer u (lgGov l) = Some ld"
  obtains l' h2 where "Logic_OnHandleCSPlayerLoginReq lg h l = Some l'"
    "pnSent (lgNet l') = pnSent (lgNet l) @ (if pnOpen (lgNet l) ld then [(ld, msgid_querydata_req, ServerHead h2, SSQueryDataReq u)] else [])"
    "sh_query_id h2 = nQueryId (lgRpc l) + 1" "sh_error_code h2 = 0" "sh_ttl h2 = 29"
    "current_waiting msgid_querydata_rsp (lgRpc l') = current_waiting msgid_querydata_rsp (lgRpc l) @ [(nQueryId (lgRpc l) + 1, QueryCallback lg h)]"
    "last_waiting msgid_querydata_rsp (lgRpc l') = last_waiting msgid_querydata_rsp (lgRpc l)"
    "mapOnlinePlayer l' = mapOnlinePlayer l" "pnOpen (lgNet l') = pnOpen (lgNet l)" "logic_inv l'"
proof -
  obtain l' where l': "Logic_OnHandleCSPlayerLoginReq lg h l = Some l'"
    using new route h(1) by (simp add: Logic_OnHandleCSPlayerLoginReq_def GetPlayerData_def Let_def)
  obtain dest where E: "GetServerSessionIdByKey DBServer (sh_user_id h) (lgGov l) = Some dest"
    "lgRpc l' = RpcRequest dest msgid_querydata_rsp (QueryCallback lg h) (lgRpc l)" "mapOnlinePlayer l' = mapOnlinePlayer l"
    "lgNet l' = snd (SendPacket dest msgid_querydata_req (ServerHead (h\<lparr>sh_query_id := nQueryId (lgRpc l')\<rparr>)) (SSQueryDataReq (sh_user_id h)) (lgNet l))"
    using Logic_login_new [OF new [folded h(1)] l'] by metis
  have d: "dest = ld" using E(1) route h(1) by simp
  note rpc = logic_invD(1) [OF inv]
  obtain pkh where pkh: "head_sent (h\<lparr>sh_query_id := nQueryId (lgRpc l')\<rparr>) pkh"
    "pnSent (lgNet l') = pnSent (lgNet l) @ (if pnOpen (lgNet l) ld then [(ld, msgid_querydata_req, pkh, SSQueryDataReq u)] else [])"
    using SendPacket_server(1) [of "h\<lparr>sh_query_id := nQueryId (lgRpc l')\<rparr>" ld msgid_querydata_req "SSQueryDataReq u" "lgNet l"]
    unfolding E(4) d h(1) by blast
  have q: "nQueryId (lgRpc l') = nQueryId (lgRpc l) + 1" unfolding E(2) by (rule nQueryId_RpcRequest)
  obtain h2 where h2: "pkh = ServerHead h2" "sh_query_id h2 = nQueryId (lgRpc l) + 1" "sh_error_code h2 = 0" "sh_ttl h2 = 29"
    using pkh(1) h by (auto simp: head_sent_def q)
  show thesis
    by (rule that [OF l' pkh(2) [unfolded h2(1)] h2(2-4)])
      (simp_all add: E(2,3) generations_RpcRequest [OF rpc] logic_inv_login [OF inv l'], simp add: E(4))
qed

text \<open>The reply of the logic server binds the user at the gate and goes on to the client.\<close>

lemma stage_gate:
  assumes inv: "gate_inv g" "rpc_inv (gtRpc g)" and w: "(q, LoginCallback sid head) \<in> set (waiting msgid_login_rsp (gtRpc g))"
    and free: "mapSessionUserInfo g sid = None"
    and h: "sh_query_id h = q" "sh_user_id h = u" "sh_error_code h = 0" "0 < sh_ttl h"
    and g'_def: "g' = gate_receive gl (x, msgid_login_rsp, ServerHead h, CSPlayerLoginRsp) g"
  shows "user_session g' u = Some sid"
    "pnOpen (gtNet g) sid \<Longrightarrow> pnSent (gtNet g') = pnSent (gtNet g) @ [(sid, msgid_login_rsp, ClientHead head, CSPlayerLoginRsp)]"
proof -
  let ?rpc = "RegisterNetHandle msgid_login_rsp gl q (h, CSPlayerLoginRsp) (gtRpc g)"
  let ?g1 = "g\<lparr>gtRpc := ?rpc\<rparr>"
  have "called_now (gtRpc g) ?rpc = [(LoginCallback sid head, Response gl (h, CSPlayerLoginRsp))]"
    by (simp add: called_now_append [OF RegisterNetHandle_waiting [OF inv(2) w]])
  then have g': "g' = LoginCallback_call (LoginCallback sid head) (gl, h, CSPlayerLoginRsp) ?g1"
    using h by (simp add: g'_def CheckHeadTTLError_server_def Gate_OnLoginRsp_def Gate_callbacks_def)
  have i1: "gate_inv ?g1" using inv(1) by (simp add: gate_inv_def)
  have f1: "mapSessionUserInfo ?g1 sid = None" using free by simp
  have "fst (OnUserLogin sid u ?g1)" by (rule OnUserLogin_maps(1) [OF i1 f1])
  then have g'': "g' = Gate_send sid msgid_login_rsp (ClientHead head) CSPlayerLoginRsp (snd (OnUserLogin sid u ?g1))"
    unfolding g' using h by (cases "OnUserLogin sid u ?g1") simp
  have "user_session g' = user_session (snd (OnUserLogin sid u ?g1))" unfolding g'' by (rule gate_inv_cong(2)) simp_all
  then show "user_session g' u = Some sid" by (simp add: user_session_OnUserLogin [OF i1 f1])
  show "pnSent (gtNet g') = pnSent (gtNet g) @ [(sid, msgid_login_rsp, ClientHead head, CSPlayerLoginRsp)]" if "pnOpen (gtNet g) sid"
    using that by (simp add: g'' Gate_send_def SendPacket_client)
qed

text \<open>Nothing is under way between the servers.\<close>

definition idle :: "links \<Rightarrow> 'd game \<Rightarrow> bool" where
  "idle lk s \<longleftrightarrow> gmToLogic s = length (on_link (lkGateLogic lk) (gtNet (gmGate s))) \<and>
     gmToGate s = length (on_link (lkLogicGate lk) (lgNet (gmLogic s))) \<and>
     gmToDb s = length (on_link (lkLogicDb lk) (lgNet (gmLogic s))) \<and>
     gmFromDb s = length (on_link (lkDbLogic lk) (dbNet (gmDb s))) \<and> queries (gmLogic s) = [] \<and> dbReplies (gmDb s) = []"

text \<open>A user who is not online asks from a session without a user; the servers are connected.\<close>

definition login_possible :: "links \<Rightarrow> session_id_t \<Rightarrow> string \<Rightarrow> 'd game \<Rightarrow> bool" where
  "login_possible lk sid u s \<longleftrightarrow> idle lk s \<and> mapSessionUserInfo (gmGate s) sid = None \<and> mapOnlinePlayer (gmLogic s) u = None \<and>
     GetServerSessionIdByKey LogicServer u (gtGov (gmGate s)) = Some (lkGateLogic lk) \<and>
     GetServerSessionIdByKey DBServer u (lgGov (gmLogic s)) = Some (lkLogicDb lk) \<and> lkLogicGate lk \<noteq> lkLogicDb lk \<and>
     pnOpen (gtNet (gmGate s)) (lkGateLogic lk) \<and> pnOpen (gtNet (gmGate s)) sid \<and> pnOpen (lgNet (gmLogic s)) (lkLogicGate lk)"

lemma on_link_append [simp]:
  "pnSent n' = pnSent n @ ps \<Longrightarrow> on_link sid n' = on_link sid n @ filter (\<lambda>p. fst p = sid) ps"
  by (simp add: on_link_def)

text \<open>The first two steps, up to the query.\<close>

lemma login_asks:
  assumes inv: "game_inv A s" and ok: "login_possible lk sid u s"
  obtains g' l' h hq where "game_run e lib lk [ClientLogin sid head token u, ToLogic] s =
      Some (s\<lparr>gmGate := g', gmLogic := l', gmToLogic := gmToLogic s + 1\<rparr>)"
    "gate_inv g'" "rpc_inv (gtRpc g')" "logic_inv l'" "mapSessionUserInfo g' sid = None" "pnOpen (gtNet g') sid"
    "(sh_query_id h, LoginCallback sid head) \<in> set (waiting msgid_login_rsp (gtRpc g'))"
    "sh_user_id h = u" "sh_error_code h = 0" "sh_ttl h = 30"
    "mapOnlinePlayer l' u = None" "pnOpen (lgNet l') = pnOpen (lgNet (gmLogic s))"
    "current_waiting msgid_querydata_rsp (lgRpc l') = [(sh_query_id hq, QueryCallback (lkLogicGate lk) h)]" "last_waiting msgid_querydata_rsp (lgRpc l') = []"
    "sh_error_code hq = 0" "sh_ttl hq = 29"
    "pnSent (lgNet l') = pnSent (lgNet (gmLogic s)) @
       (if pnOpen (lgNet (gmLogic s)) (lkLogicDb lk) then [(lkLogicDb lk, msgid_querydata_req, ServerHead hq, SSQueryDataReq u)] else [])"
proof -
  note D = game_invD [OF inv] and P = ok [unfolded login_possible_def idle_def]
  obtain g' h where g': "OnHandleCSPlayerLoginReq sid head token u (gmGate s) = Some g'"
    "pnSent (gtNet g') = pnSent (gtNet (gmGate s)) @ [(lkGateLogic lk, msgid_login_req, ServerHead h, CSPlayerLoginReq token u)]"
    "sh_user_id h = u" "sh_query_id h = nQueryId (gtRpc (gmGate s)) + 1" "sh_error_code h = 0" "sh_ttl h = 30"
    "(nQueryId (gtRpc (gmGate s)) + 1, LoginCallback sid head) \<in> set (waiting msgid_login_rsp (gtRpc g'))" "rpc_inv (gtRpc g')"
    "mapSessionUserInfo g' = mapSessionUserInfo (gmGate s)" "mapUserInfo g' = mapUserInfo (gmGate s)" "pnOpen (gtNet g') = pnOpen (gtNet (gmGate s))"
    by (rule stage_client [OF D(2), of u "lkGateLogic lk" sid head token]) (use P in auto)
  have none: "current_waiting msgid_querydata_rsp (lgRpc (gmLogic s)) = []" "last_waiting msgid_querydata_rsp (lgRpc (gmLogic s)) = []"
    using P by (auto simp: waiting_split)
  have "dom (mapLoadingPlayer (gmLogic s)) = {}" using logic_invD(3) [OF D(3)] P by simp
  then have new: "mapLoadingPlayer (gmLogic s) u = None" by auto
  obtain l' hq where l': "Logic_OnHandleCSPlayerLoginReq (lkLogicGate lk) h (gmLogic s) = Some l'"
    "pnSent (lgNet l') = pnSent (lgNet (gmLogic s)) @ (if pnOpen (lgNet (gmLogic s)) (lkLogicDb lk) then [(lkLogicDb lk, msgid_querydata_req, ServerHead hq, SSQueryDataReq u)] else [])"
    "sh_query_id hq = nQueryId (lgRpc (gmLogic s)) + 1" "sh_error_code hq = 0" "sh_ttl hq = 29"
    "current_waiting msgid_querydata_rsp (lgRpc l') = current_waiting msgid_querydata_rsp (lgRpc (gmLogic s)) @ [(nQueryId (lgRpc (gmLogic s)) + 1, QueryCallback (lkLogicGate lk) h)]"
    "last_waiting msgid_querydata_rsp (lgRpc l') = last_waiting msgid_querydata_rsp (lgRpc (gmLogic s))"
    "mapOnlinePlayer l' = mapOnlinePlayer (gmLogic s)" "pnOpen (lgNet l') = pnOpen (lgNet (gmLogic s))" "logic_inv l'"
    by (rule stage_logic [OF D(3) g'(3,5,6) _ new, of "lkLogicDb lk" "lkLogicGate lk"]) (use P in auto)
  have step2: "game_do e lib lk ToLogic (s\<lparr>gmGate := g'\<rparr>) = Some (s\<lparr>gmGate := g', gmLogic := l', gmToLogic := gmToLogic s + 1\<rparr>)"
    using P l'(1) g'(6) by (simp add: on_link_append [OF g'(2)] CheckHeadTTLError_server_def)
  have run: "game_run e lib lk [ClientLogin sid head token u, ToLogic] s =
      Some (s\<lparr>gmGate := g', gmLogic := l', gmToLogic := gmToLogic s + 1\<rparr>)"
    using g'(1) step2 by (simp del: game_do.simps(2))
  show thesis
    by (rule that [OF run, where h = h and hq = hq]) (use g' l' none P gate_inv_cong(1) [OF g'(9,10)] D(1) in simp_all)
qed

section \<open>Properties\<close>

text \<open>
  C4: in every run of the three servers, with the packets between them delivered at any time and any
  time-outs, no user is ever bound to a session that did not ask to log in under that very name: the
  correlation of requests and responses through both servers never mixes up two logins.
\<close>

theorem login_binds_who_asked:
  assumes "game_run e lib lk es (game_started gnet ggov lnet lgov db) = Some s"
    and "user_session (gmGate s) u = Some sid"
  shows "\<exists>head token. ClientLogin sid head token u \<in> set es"
proof -
  have "game_inv ({} \<union> asked es) s" by (rule game_inv_run [OF game_inv_started assms(1)])
  then show ?thesis using game_invD(7) [of "asked es" s u sid] assms(2) by (simp add: asked_def)
qed

text \<open>Running two parts.\<close>

lemma game_run_append: "game_run e lib lk (es @ es') s = Option.bind (game_run e lib lk es s) (game_run e lib lk es')"
  by (induction es arbitrary: s) (auto split: bind_splits)

lemma reply_of_query:
  assumes "head_sent h pkh" "sh_ttl h = 30"
  obtains h' where "pkh = ServerHead h'" "sh_query_id h' = sh_query_id h" "sh_user_id h' = sh_user_id h" "sh_error_code h' = sh_error_code h" "sh_ttl h' = 29"
  using assms by (auto simp: head_sent_def)

text \<open>A login whose query times out.\<close>

lemma timeout_login:
  assumes inv: "game_inv A s" and ok: "login_possible lk sid u s"
  shows "\<exists>s'. game_run e lib lk [ClientLogin sid head token u, ToLogic, LogicTimeout, LogicTimeout, ToGate] s = Some s' \<and>
    user_session (gmGate s') u = Some sid \<and> last (pnSent (gtNet (gmGate s'))) = (sid, msgid_login_rsp, ClientHead head, CSPlayerLoginRsp) \<and>
    mapOnlinePlayer (gmLogic s') u = None \<and> gmDb s' = gmDb s"
proof -
  note P = ok [unfolded login_possible_def idle_def]
  obtain g' l' h hq where A: "game_run e lib lk [ClientLogin sid head token u, ToLogic] s =
      Some (s\<lparr>gmGate := g', gmLogic := l', gmToLogic := gmToLogic s + 1\<rparr>)"
    and g: "gate_inv g'" "rpc_inv (gtRpc g')" and l: "logic_inv l'" and free: "mapSessionUserInfo g' sid = None" "pnOpen (gtNet g') sid"
    and w: "(sh_query_id h, LoginCallback sid head) \<in> set (waiting msgid_login_rsp (gtRpc g'))"
    and h: "sh_user_id h = u" "sh_error_code h = 0" "sh_ttl h = 30"
    and off: "mapOnlinePlayer l' u = None" "pnOpen (lgNet l') = pnOpen (lgNet (gmLogic s))"
    and q: "current_waiting msgid_querydata_rsp (lgRpc l') = [(sh_query_id hq, QueryCallback (lkLogicGate lk) h)]" "last_waiting msgid_querydata_rsp (lgRpc l') = []"
    and sent: "pnSent (lgNet l') = pnSent (lgNet (gmLogic s)) @
       (if pnOpen (lgNet (gmLogic s)) (lkLogicDb lk) then [(lkLogicDb lk, msgid_querydata_req, ServerHead hq, SSQueryDataReq u)] else [])"
    by (rule login_asks [OF inv ok])
  let ?m = msgid_querydata_rsp
  define l1 where "l1 = Logic_OnTimeout l'"
  define l2 where "l2 = Logic_OnTimeout l1"
  have n1: "lgNet l1 = lgNet l'"
    using q(2) by (simp add: l1_def Logic_OnTimeout_def Logic_callbacks_def called_now_append [OF tick_effect(1)])
  have w1: "last_waiting ?m (lgRpc l1) = [(sh_query_id hq, QueryCallback (lkLogicGate lk) h)]"
    by (simp add: l1_def Logic_OnTimeout_fields(1) tick_effect(3) q(1))
  obtain pkh where pkh: "head_sent h pkh"
    "pnSent (lgNet l2) = pnSent (lgNet l') @ [(lkLogicGate lk, msgid_login_rsp, pkh, CSPlayerLoginRsp)]"
    using SendPacket_server(1) [of h "lkLogicGate lk" msgid_login_rsp CSPlayerLoginRsp "lgNet l'"] P off(2)
    by (auto simp: l2_def Logic_OnTimeout_def Logic_callbacks_def called_now_append [OF tick_effect(1)] w1 Logic_send_def n1)
  obtain h' where h': "pkh = ServerHead h'" "sh_query_id h' = sh_query_id h" "sh_user_id h' = u" "sh_error_code h' = 0" "sh_ttl h' = 29"
    using reply_of_query [OF pkh(1) h(3)] h by metis
  have on: "mapOnlinePlayer l2 u = None" by (simp add: l2_def l1_def Logic_OnTimeout_fields(3) off(1))
  have link: "on_link (lkLogicGate lk) (lgNet l2) = on_link (lkLogicGate lk) (lgNet (gmLogic s)) @
      [(lkLogicGate lk, msgid_login_rsp, ServerHead h', CSPlayerLoginRsp)]"
    using P by (simp add: on_link_def pkh(2) sent h'(1))
  define g2 where "g2 = gate_receive (lkGateLogic lk) (lkLogicGate lk, msgid_login_rsp, ServerHead h', CSPlayerLoginRsp) g'"
  have h'0: "0 < sh_ttl h'" by (simp add: h'(5))
  note G = stage_gate [OF g w free(1) h'(2-4) h'0 g2_def]
  have "game_run e lib lk [LogicTimeout, LogicTimeout, ToGate] (s\<lparr>gmGate := g', gmLogic := l', gmToLogic := gmToLogic s + 1\<rparr>) =
      Some (s\<lparr>gmGate := g2, gmLogic := l2, gmToLogic := gmToLogic s + 1, gmToGate := gmToGate s + 1\<rparr>)"
    using P by (simp add: l1_def [symmetric] l2_def [symmetric] link g2_def [symmetric] del: gate_receive.simps)
  then have run: "game_run e lib lk ([ClientLogin sid head token u, ToLogic] @ [LogicTimeout, LogicTimeout, ToGate]) s =
      Some (s\<lparr>gmGate := g2, gmLogic := l2, gmToLogic := gmToLogic s + 1, gmToGate := gmToGate s + 1\<rparr>)"
    unfolding game_run_append A by simp
  show ?thesis using run G(1) G(2) [OF free(2)] on by simp
qed


text \<open>The query at the database server, up to its answer.\<close>

lemma take_task_last: "tasks_of i q = [] \<Longrightarrow> take_task i (q @ [(i, t)]) = Some (t, q)"
  by (induction q) (auto split: if_splits)

lemma stage_db:
  assumes route: "DBLoopExec u (dbRocks d) = Some i" and none: "tasks_of i (dbQueue d) = []" "dbReplies d = []"
    and load: "Rocks_MessageLoad e lib (UserData_of u None [] [] None) (loop_db i d) = Some m"
    and up: "pnOpen (dbNet d) dl" and hq: "sh_ttl hq = 29"
  obtains d1 d2 ha where "db_receive dl (x, msgid_querydata_req, ServerHead hq, SSQueryDataReq u) d = Some d1"
    "Db_RunLoop e lib i d1 = Some d2"
    "pnSent (dbNet (Db_SendReply d2)) = pnSent (dbNet d) @ [(dl, msgid_querydata_rsp, ServerHead ha, SSQueryDataRsp (Some m))]"
    "sh_query_id ha = sh_query_id hq" "sh_error_code ha = sh_error_code hq" "0 < sh_ttl ha"
proof -
  define d1 where "d1 = d\<lparr>dbQueue := dbQueue d @ [(i, QueryTask dl hq u)]\<rparr>"
  define d2 where "d2 = set_loop_db i (loop_db i d) (d1\<lparr>dbQueue := dbQueue d,
      dbReplies := [(dl, msgid_querydata_rsp, hq, SSQueryDataRsp (Some m))], dbDone := dbDone d @ [(i, dl, msgid_querydata_rsp, hq, SSQueryDataRsp (Some m))]\<rparr>)"
  have "loop_db i d1 = loop_db i d" by (simp add: d1_def loop_db_def)
  then have 2: "Db_RunLoop e lib i d1 = Some d2"
    using none load by (simp add: Db_RunLoop_def d1_def take_task_last d2_def)
  have 1: "db_receive dl (x, msgid_querydata_req, ServerHead hq, SSQueryDataReq u) d = Some d1"
    using route hq by (simp add: OnHandleSSQueryDataReq_def CheckHeadTTLError_server_def d1_def)
  obtain pkh where pkh: "head_sent hq pkh" "pnSent (snd (SendPacket dl msgid_querydata_rsp (ServerHead hq) (SSQueryDataRsp (Some m)) (dbNet d))) =
      pnSent (dbNet d) @ [(dl, msgid_querydata_rsp, pkh, SSQueryDataRsp (Some m))]"
    using SendPacket_server(1) [of hq dl msgid_querydata_rsp "SSQueryDataRsp (Some m)" "dbNet d"] up by auto
  obtain ha where ha: "pkh = ServerHead ha" "sh_query_id ha = sh_query_id hq" "sh_error_code ha = sh_error_code hq" "0 < sh_ttl ha"
    using pkh(1) hq by (auto simp: head_sent_def)
  have "dbNet d2 = dbNet d" by (simp add: d2_def d1_def)
  then have "pnSent (dbNet (Db_SendReply d2)) = pnSent (dbNet d) @ [(dl, msgid_querydata_rsp, ServerHead ha, SSQueryDataRsp (Some m))]"
    using pkh(2) ha(1) by (simp add: Db_SendReply_def d2_def)
  then show thesis by (rule that [OF 1 2 _ ha(2-4)])
qed

text \<open>
  C6: a login with all servers connected: the query reaches the database loop of the user, its answer
  brings the player online, the gate binds the user to the client's session, and the client gets the
  reply with its own head.
\<close>

theorem login_completes:
  assumes reach: "game_run e lib lk es (game_started gnet ggov lnet lgov db) = Some s" and ok: "login_possible lk sid u s"
    and dbup: "pnOpen (lgNet (gmLogic s)) (lkLogicDb lk)" "pnOpen (dbNet (gmDb s)) (lkDbLogic lk)"
    and route: "DBLoopExec u (dbRocks (gmDb s)) = Some i" "tasks_of i (dbQueue (gmDb s)) = []"
    and load: "Rocks_MessageLoad e lib (UserData_of u None [] [] None) (loop_db i (gmDb s)) = Some m"
  shows "\<exists>s'. game_run e lib lk [ClientLogin sid head token u, ToLogic, ToDb, RunDbLoop i, SendDbReply, FromDb, ToGate] s = Some s' \<and>
    user_session (gmGate s') u = Some sid \<and> last (pnSent (gtNet (gmGate s'))) = (sid, msgid_login_rsp, ClientHead head, CSPlayerLoginRsp) \<and>
    mapOnlinePlayer (gmLogic s') u = Some PlayerData"
proof -
  note inv = game_inv_run [OF game_inv_started reach] and P = ok [unfolded login_possible_def idle_def]
  obtain g' l' h hq where A: "game_run e lib lk [ClientLogin sid head token u, ToLogic] s =
      Some (s\<lparr>gmGate := g', gmLogic := l', gmToLogic := gmToLogic s + 1\<rparr>)"
    and g: "gate_inv g'" "rpc_inv (gtRpc g')" and l: "logic_inv l'" and free: "mapSessionUserInfo g' sid = None" "pnOpen (gtNet g') sid"
    and w: "(sh_query_id h, LoginCallback sid head) \<in> set (waiting msgid_login_rsp (gtRpc g'))"
    and h: "sh_user_id h = u" "sh_error_code h = 0" "sh_ttl h = 30"
    and off: "mapOnlinePlayer l' u = None" "pnOpen (lgNet l') = pnOpen (lgNet (gmLogic s))"
    and q: "current_waiting msgid_querydata_rsp (lgRpc l') = [(sh_query_id hq, QueryCallback (lkLogicGate lk) h)]" "last_waiting msgid_querydata_rsp (lgRpc l') = []"
    and hq: "sh_error_code hq = 0" "sh_ttl hq = 29"
    and sent: "pnSent (lgNet l') = pnSent (lgNet (gmLogic s)) @
       (if pnOpen (lgNet (gmLogic s)) (lkLogicDb lk) then [(lkLogicDb lk, msgid_querydata_req, ServerHead hq, SSQueryDataReq u)] else [])"
    by (rule login_asks [OF inv ok])
  obtain d1 d2 ha where d1: "db_receive (lkDbLogic lk) (lkLogicDb lk, msgid_querydata_req, ServerHead hq, SSQueryDataReq u) (gmDb s) = Some d1"
    and d2: "Db_RunLoop e lib i d1 = Some d2"
    and d3: "pnSent (dbNet (Db_SendReply d2)) = pnSent (dbNet (gmDb s)) @ [(lkDbLogic lk, msgid_querydata_rsp, ServerHead ha, SSQueryDataRsp (Some m))]"
    and ha: "sh_query_id ha = sh_query_id hq" "sh_error_code ha = sh_error_code hq" "0 < sh_ttl ha"
    by (rule stage_db [OF route _ load dbup(2) hq(2)]) (use P in auto)
  define l2 where "l2 = Logic_OnQueryRsp (lkLogicDb lk) ha (SSQueryDataRsp (Some m)) l'"
  have qw: "(sh_query_id ha, QueryCallback (lkLogicGate lk) h) \<in> set (queries l')" by (simp add: waiting_split q ha(1))
  obtain pkh where pkh: "head_sent h pkh"
    "pnSent (lgNet l2) = pnSent (lgNet l') @ [(lkLogicGate lk, msgid_login_rsp, pkh, CSPlayerLoginRsp)]"
    and on: "mapOnlinePlayer l2 u = Some PlayerData"
    using query_answered [OF l qw refl, of "lkLogicDb lk" "SSQueryDataRsp (Some m)"] P off(2) h(1) ha(2) hq(1)
    unfolding l2_def by auto
  obtain h' where h': "pkh = ServerHead h'" "sh_query_id h' = sh_query_id h" "sh_user_id h' = u" "sh_error_code h' = 0" "sh_ttl h' = 29"
    using reply_of_query [OF pkh(1) h(3)] h by metis
  have link: "on_link (lkLogicGate lk) (lgNet l2) = on_link (lkLogicGate lk) (lgNet (gmLogic s)) @
      [(lkLogicGate lk, msgid_login_rsp, ServerHead h', CSPlayerLoginRsp)]"
    using P by (simp add: on_link_def pkh(2) sent h'(1))
  have linkd: "on_link (lkLogicDb lk) (lgNet l') = on_link (lkLogicDb lk) (lgNet (gmLogic s)) @
      [(lkLogicDb lk, msgid_querydata_req, ServerHead hq, SSQueryDataReq u)]"
    using dbup(1) by (simp add: on_link_def sent)
  have linkr: "on_link (lkDbLogic lk) (dbNet (Db_SendReply d2)) = on_link (lkDbLogic lk) (dbNet (gmDb s)) @
      [(lkDbLogic lk, msgid_querydata_rsp, ServerHead ha, SSQueryDataRsp (Some m))]"
    by (simp add: on_link_def d3)
  define g2 where "g2 = gate_receive (lkGateLogic lk) (lkLogicGate lk, msgid_login_rsp, ServerHead h', CSPlayerLoginRsp) g'"
  have h'0: "0 < sh_ttl h'" by (simp add: h'(5))
  note G = stage_gate [OF g w free(1) h'(2-4) h'0 g2_def]
  let ?s2 = "s\<lparr>gmGate := g', gmLogic := l', gmToLogic := gmToLogic s + 1\<rparr>"
  have lr: "logic_receive (lkLogicDb lk) (lkDbLogic lk, msgid_querydata_rsp, ServerHead ha, SSQueryDataRsp (Some m)) l' = Some l2"
    using ha(3) by (simp add: l2_def CheckHeadTTLError_server_def)
  have "\<exists>s'. game_run e lib lk [ToDb, RunDbLoop i, SendDbReply, FromDb, ToGate] ?s2 = Some s' \<and> gmGate s' = g2 \<and> gmLogic s' = l2"
    using P by (simp add: linkd d1 d2 linkr lr link g2_def [symmetric] del: gate_receive.simps logic_receive.simps db_receive.simps)
  then obtain s' where s': "game_run e lib lk [ToDb, RunDbLoop i, SendDbReply, FromDb, ToGate] ?s2 = Some s'" "gmGate s' = g2" "gmLogic s' = l2"
    by blast
  have "game_run e lib lk ([ClientLogin sid head token u, ToLogic] @ [ToDb, RunDbLoop i, SendDbReply, FromDb, ToGate]) s = Some s'"
    unfolding game_run_append A using s'(1) by simp
  then show ?thesis using s'(2,3) G(1) G(2) [OF free(2)] on by (intro exI [of _ s']) simp
qed

section \<open>A run of the three servers\<close>

definition sample_links :: links where
  "sample_links = \<lparr>lkGateLogic = 7, lkLogicGate = 2, lkLogicDb = 8, lkDbLogic = 4\<rparr>"

definition sample_game :: "unit game" where
  "sample_game = game_started (sample_net {3, 7}) (single_server LogicServer 7) (sample_net {2, 8}) (single_server DBServer 8) one_loop"

definition sample_client :: client_head where
  "sample_client = \<lparr>ch_query_id = 1, ch_req_time = 0, ch_error_code = 0\<rparr>"

lemma sample_possible: "login_possible sample_links 3 ''u1'' sample_game"
proof -
  have "on_link x (sample_net o1\<lparr>pnSent := []\<rparr>) = []" for x o1 by (simp add: on_link_def)
  then show ?thesis
    by (simp add: login_possible_def idle_def sample_links_def sample_game_def game_started_def gate_started_def logic_started_def
        route_single(2) sample_net_def waiting_def RpcModule_def on_link_def one_loop_def)
qed

lemma sample_run: "game_run e lib lk [] sample_game = Some sample_game"
  by simp


theorem login_binds_who_asked_witness:
  "\<exists>s. game_run LittleEndian count_lib sample_links [ClientLogin 3 sample_client ''t'' ''u1'', ToLogic, LogicTimeout, LogicTimeout, ToGate] sample_game = Some s \<and>
     user_session (gmGate s) ''u1'' = Some 3 \<and>
     (\<exists>head token. ClientLogin 3 head token ''u1'' \<in> set [ClientLogin 3 sample_client ''t'' ''u1'', ToLogic, LogicTimeout, LogicTimeout, ToGate])"
proof -
  have "game_inv {} sample_game" unfolding sample_game_def by (rule game_inv_started)
  then obtain s where s: "game_run LittleEndian count_lib sample_links [ClientLogin 3 sample_client ''t'' ''u1'', ToLogic, LogicTimeout, LogicTimeout, ToGate] sample_game = Some s"
    "user_session (gmGate s) ''u1'' = Some 3"
    using timeout_login [OF _ sample_possible] by blast
  show ?thesis using s login_binds_who_asked [OF s(1) [unfolded sample_game_def] s(2)] by blast
qed

theorem login_completes_witness:
  "\<exists>s'. game_run LittleEndian count_lib sample_links
     [ClientLogin 3 sample_client ''t'' ''u1'', ToLogic, ToDb, RunDbLoop 0, SendDbReply, FromDb, ToGate] sample_game = Some s' \<and>
     user_session (gmGate s') ''u1'' = Some 3 \<and> mapOnlinePlayer (gmLogic s') ''u1'' = Some PlayerData"
proof -
  have d: "dbRocks (gmDb sample_game) = dbRocks one_loop" "dbQueue (gmDb sample_game) = []" "loop_db 0 (gmDb sample_game) = []"
    by (simp_all add: sample_game_def game_started_def one_loop_def loop_db_def RocksDBModule_def)
  have "DBLoopExec ''u1'' (dbRocks (gmDb sample_game)) = Some 0"
    unfolding d by (simp add: DBLoopExec_def one_loop_def RocksDBModule_def CRC32_two_string_eq)
  moreover have "Rocks_MessageLoad LittleEndian count_lib (UserData_of ''u1'' None [] [] None) (loop_db 0 (gmDb sample_game)) =
      Some (UserData_of ''u1'' None [] [] None)"
    unfolding d Rocks_MessageLoad_def MessageLoadOnKV_def UserData_of_def
    by (simp add: load_field_def load_keys_def load_all_def IsDBCommonKeyType_def AppendRawData_eq empty_keys Db_Get_def del: packed_simps)
  moreover have "pnOpen (lgNet (gmLogic sample_game)) (lkLogicDb sample_links)" "pnOpen (dbNet (gmDb sample_game)) (lkDbLogic sample_links)"
    by (simp_all add: sample_game_def game_started_def logic_started_def sample_net_def one_loop_def sample_links_def)
  ultimately show ?thesis
    using login_completes [OF sample_run [unfolded sample_game_def, of LittleEndian count_lib sample_links] sample_possible [unfolded sample_game_def],
      of 0 "UserData_of ''u1'' None [] [] None" sample_client "''t''"] d(2) unfolding sample_game_def by fastforce
qed

end
