(* ===== verification/Mysql_Module.thy ===== *)
theory Mysql_Module
  imports Rocksdb_Module Loop_Pool
begin

text \<open>
  Messages in a MySQL database (common/database/mysql/mysql_module.h, mysql_module.cpp): the SQL
  texts built from a message through reflection, the substitution of arguments, the limits on them,
  and the rows of a result written back into the message. The MySQL client library is the argument
  \<open>db\<close>: its functions act on the state \<open>'m\<close> of a connection, of which each loop of the pool has one.
  \<open>None\<close> is undefined behaviour (a read past the end, a null pointer, a reflection call on a field of
  another kind) or, for the pool, a task that is not there. The result of a query is an association
  list whose order stands for the iteration order of the \<open>std::unordered_map\<close>.
\<close>

section \<open>The client library\<close>

record 'm mysql =
  mysql_real_escape_string :: "string \<Rightarrow> string"
  mysql_real_query :: "string \<Rightarrow> 'm \<Rightarrow> bool \<times> 'm"
  mysql_store_result :: "'m \<Rightarrow> (string list \<times> string option list list) option"
  mysql_affected_rows :: "'m \<Rightarrow> int64"
  mysql_insert_id :: "'m \<Rightarrow> int64"

definition kArgNumMax :: size_t where "kArgNumMax = 100"

definition kArgLenMax :: size_t where "kArgLenMax = 128000000"

definition ss_msg_success :: int32 where "ss_msg_success = 0"

definition ss_msg_error_sql :: int32 where "ss_msg_error_sql = 0x40000002"

definition ss_msg_arg_length_overflow :: int32 where "ss_msg_arg_length_overflow = 0x40000003"

definition ss_msg_cache_length_overflow :: int32 where "ss_msg_cache_length_overflow = 0x40000004"

section \<open>Substituting the arguments\<close>

text \<open>A \<open>std::string\<close> may be read at its end, where a NUL stands.\<close>

definition char_at :: "string \<Rightarrow> nat \<Rightarrow> char option" where
  "char_at s i = (if i < length s then Some (s ! i) else if i = length s then Some (CHR 0x00) else None)"

function replace_loop ::
    "string \<Rightarrow> string list \<Rightarrow> nat \<Rightarrow> nat \<Rightarrow> nat \<Rightarrow> nat \<Rightarrow> string \<Rightarrow> (string \<times> nat) option" where
  "replace_loop strQueryString vecBuff nLenRead i nLastRead iReplace strResult =
     (if i < nLenRead then
        case char_at strQueryString i of
          None \<Rightarrow> None
        | Some c \<Rightarrow>
            if c \<noteq> CHR ''{''
            then replace_loop strQueryString vecBuff nLenRead (i + 1) nLastRead iReplace strResult
            else case char_at strQueryString (i + 1) of
                   None \<Rightarrow> None
                 | Some c' \<Rightarrow>
                     if c' \<noteq> CHR ''}''
                     then replace_loop strQueryString vecBuff nLenRead (i + 1) nLastRead iReplace strResult
                     else if iReplace < length vecBuff
                     then let strResult = strResult @ take (i - nLastRead) (drop nLastRead strQueryString) @ vecBuff ! iReplace;
                              nLastRead = i + 2
                          in if iReplace + 1 \<ge> length vecBuff then Some (strResult, nLastRead)
                             else replace_loop strQueryString vecBuff nLenRead (i + 2) nLastRead (iReplace + 1) strResult
                     else None
      else Some (strResult, nLastRead))"
  by pat_completeness auto
termination
  by (relation "measure (\<lambda>(q, v, n, i, l, r, s). n - i)") auto

declare replace_loop.simps [simp del]

text \<open>
  For an empty text the length minus one wraps around and the loop reads past the end. The last copy
  takes at most what is left of the text.
\<close>

definition QueryStringReplace :: "string \<Rightarrow> string list \<Rightarrow> string option" where
  "QueryStringReplace strQueryString vecBuff =
     (if vecBuff \<noteq> [] then Some strQueryString
      else if strQueryString = [] then None
      else let nLenRead = size_of strQueryString - 1
           in case replace_loop strQueryString vecBuff (unat nLenRead) 0 0 0 [] of
                None \<Rightarrow> None
              | Some (strResult, nLastRead) \<Rightarrow>
                  Some (strResult @
                    take (unat (min (nLenRead - 1 - word_of_nat nLastRead) (size_of strQueryString - word_of_nat nLastRead)))
                      (drop nLastRead strQueryString)))"

text \<open>The arguments of a query are escaped one by one; an error code ends the loop.\<close>

fun escape_args :: "'m mysql \<Rightarrow> string list \<Rightarrow> string list option" where
  "escape_args db [] = Some []"
| "escape_args db (strArg # vecArgs) =
     (if size_of strArg * 2 + 1 > kArgLenMax then None
      else map_option ((#) (mysql_real_escape_string db strArg)) (escape_args db vecArgs))"

definition MysqlQuery :: "'m mysql \<Rightarrow> string \<Rightarrow> string list \<Rightarrow> 'm \<Rightarrow> (int32 \<times> 'm) option" where
  "MysqlQuery db strQueryString vecArgs m =
     (if size_of vecArgs \<ge> kArgNumMax then Some (ss_msg_cache_length_overflow, m)
      else case escape_args db vecArgs of
             None \<Rightarrow> Some (ss_msg_arg_length_overflow, m)
           | Some vecBuff \<Rightarrow>
               (case QueryStringReplace strQueryString vecBuff of
                  None \<Rightarrow> None
                | Some strQuery \<Rightarrow>
                    (case mysql_real_query db strQuery m of
                       (err, m') \<Rightarrow> Some (if err then ss_msg_error_sql else ss_msg_success, m'))))"

type_synonym select_result = "(string \<times> string list) list"

fun emplace_column :: "string \<Rightarrow> string \<Rightarrow> select_result \<Rightarrow> select_result" where
  "emplace_column k x [] = [(k, [x])]"
| "emplace_column k x ((k', xs) # r) = (if k' = k then (k', xs @ [x]) # r else (k', xs) # emplace_column k x r)"

definition add_row :: "string list \<Rightarrow> string option list \<Rightarrow> select_result \<Rightarrow> select_result" where
  "add_row vecFieldName row mapResult =
     fold (\<lambda>(name, x). emplace_column name (case x of None \<Rightarrow> [] | Some pRow \<Rightarrow> pRow)) (zip vecFieldName row) mapResult"

definition QuerySelectRowsInCurrentThread ::
    "'m mysql \<Rightarrow> string \<Rightarrow> string list \<Rightarrow> 'm \<Rightarrow> (int32 \<times> select_result \<times> 'm) option" where
  "QuerySelectRowsInCurrentThread db strQueryString vecArgs m =
     (case MysqlQuery db strQueryString vecArgs m of
        None \<Rightarrow> None
      | Some (nError, m) \<Rightarrow>
          if nError \<noteq> 0 then Some (nError, [], m)
          else case mysql_store_result db m of
                 None \<Rightarrow> None
               | Some (vecFieldName, rows) \<Rightarrow> Some (nError, fold (add_row vecFieldName) rows [], m))"

definition QueryModifyInCurrentThread ::
    "'m mysql \<Rightarrow> string \<Rightarrow> string list \<Rightarrow> 'm \<Rightarrow> (int32 \<times> int64 \<times> int64 \<times> 'm) option" where
  "QueryModifyInCurrentThread db strQueryString vecArgs m =
     (case MysqlQuery db strQueryString vecArgs m of
        None \<Rightarrow> None
      | Some (nError, m) \<Rightarrow>
          if nError \<noteq> 0 then Some (nError, 0, 0, m)
          else Some (nError, mysql_affected_rows db m, mysql_insert_id db m, m))"

section \<open>Conditions\<close>

definition GetProtoSqlStringPlaceholder :: "'d pb_value \<Rightarrow> string" where
  "GetProtoSqlStringPlaceholder v =
     (if cpp_type v = CPPTYPE_STRING then CHR 0x27 # ''{}'' @ [CHR 0x27] else ''{}'')"

definition AddQueryItemCondition ::
    "'d pb_lib \<Rightarrow> 'd message \<Rightarrow> string \<times> 'd pb_value \<Rightarrow> string \<times> string list \<Rightarrow> string \<times> string list" where
  "AddQueryItemCondition lib message f acc =
     (case acc of (strQuerys, vecArgs) \<Rightarrow>
        (strQuerys @ (if vecArgs \<noteq> [] then '' AND '' else []) @ '' '' @ fst f @ '' = '' @ GetProtoSqlStringPlaceholder (snd f),
         vecArgs @ [DBProtoMessageToString lib message (snd f)]))"

definition AddQueryMessageCondition :: "'d pb_lib \<Rightarrow> 'd message \<Rightarrow> string \<times> string list \<Rightarrow> string \<times> string list" where
  "AddQueryMessageCondition lib message acc =
     fold (\<lambda>f acc. if \<not> IsDBKey message f then acc else AddQueryItemCondition lib message f acc) (message_fields message) acc"

text \<open>Appending a list with a separator before every element but the first.\<close>

definition append_all :: "string \<Rightarrow> string list \<Rightarrow> string" where
  "append_all sep xs = concat (map (\<lambda>(i, x). (if i \<noteq> 0 then sep else []) @ x) (enumerate 0 xs))"

section \<open>Loading\<close>

text \<open>The fields and the items of an \<open>IN\<close> condition; the separator depends on the index of the field.\<close>

definition in_fields :: "'d message \<Rightarrow> 'd message \<Rightarrow> string" where
  "in_fields p first =
     concat (map (\<lambda>(iSubField, f). if \<not> IsDBKey first f then [] else (if iSubField > 0 then '','' else []) @ fst f)
       (enumerate 0 (message_fields p)))"

definition in_item :: "'d message \<Rightarrow> string" where
  "in_item msg = ''('' @
     concat (map (\<lambda>(iMsgField, f). if \<not> IsDBKey msg f then []
                   else (if iMsgField \<noteq> 0 then '','' else []) @ GetProtoSqlStringPlaceholder (snd f))
       (enumerate 0 (message_fields msg))) @ '')''"

definition in_items :: "'d message list \<Rightarrow> string" where
  "in_items msgs =
     concat (map (\<lambda>(iChildField, msg). if message_fields msg = [] then []
                   else (if iChildField \<noteq> 0 then '','' else []) @ in_item msg) (enumerate 0 msgs))"

definition key_args :: "'d pb_lib \<Rightarrow> 'd message \<Rightarrow> string list" where
  "key_args lib msg = map (\<lambda>f. DBProtoMessageToString lib msg (snd f)) (filter (IsDBKey msg) (message_fields msg))"

text \<open>
  The query of one table: its text and arguments, and the condition on the common keys, to which the
  keys of a singular element are added for good. The fields of the element type are those of its
  default instance; another type of field has none.
\<close>

definition load_query ::
    "'d pb_lib \<Rightarrow> string \<times> 'd pb_value \<Rightarrow> string \<Rightarrow> string list \<Rightarrow> (string \<times> string list \<times> string) option" where
  "load_query lib f strQueryCommonKey vecCommonArgs =
     (let conditions =
        (case snd f of
           VRepeated p ms \<Rightarrow>
             Some (p, strQueryCommonKey, if ms = [] then [] else in_fields p (ms ! 0), in_items ms,
               vecCommonArgs @ concat (map (key_args lib) ms))
         | VMessage p (Some msg) \<Rightarrow>
             (case AddQueryMessageCondition lib msg (strQueryCommonKey, vecCommonArgs) of
                (strQueryCommonKey, vecTableArgs) \<Rightarrow> Some (p, strQueryCommonKey, [], [], vecTableArgs))
         | VMessage p None \<Rightarrow> Some (p, strQueryCommonKey, [], [], vecCommonArgs)
         | _ \<Rightarrow> None)
      in case conditions of
           None \<Rightarrow> None
         | Some (p, strQueryCommonKey, strQueryInFields, strQueryInItems, vecTableArgs) \<Rightarrow>
             Some (butlast (''SELECT '' @ concat (map (\<lambda>g. fst g @ '','') (message_fields p))) @ '' '' @
                     '' FROM '' @ fst f @
                     (if strQueryCommonKey \<noteq> [] \<or> strQueryInItems \<noteq> [] then '' WHERE'' else []) @ strQueryCommonKey @
                     (if strQueryInItems \<noteq> []
                      then '' AND ('' @ strQueryInFields @ '') IN ('' @ strQueryInItems @ '')'' else []),
                   vecTableArgs, strQueryCommonKey))"

text \<open>One row of the result written into a message, then all rows into the field.\<close>

fun fill_fields :: "'d pb_lib \<Rightarrow> select_result \<Rightarrow> nat \<Rightarrow> (string \<times> 'd pb_value) list \<Rightarrow> (string \<times> 'd pb_value) list option" where
  "fill_fields lib mapResult iResult [] = Some []"
| "fill_fields lib mapResult iResult ((name, v) # fs) =
     (case map_of mapResult name of
        None \<Rightarrow> None
      | Some xs \<Rightarrow>
          if iResult \<ge> length xs then None
          else case (if is_repeated v then DBStringToProtoMessageAsBlob lib v (xs ! iResult)
                     else DBStringToProtoMessage lib v (xs ! iResult)) of
                 None \<Rightarrow> None
               | Some v' \<Rightarrow> map_option ((#) (name, v')) (fill_fields lib mapResult iResult fs))"

definition fill_message :: "'d pb_lib \<Rightarrow> select_result \<Rightarrow> nat \<Rightarrow> 'd message \<Rightarrow> 'd message option" where
  "fill_message lib mapResult iResult msg =
     map_option (Message (type_name msg)) (fill_fields lib mapResult iResult (message_fields msg))"

fun fill_row :: "'d pb_lib \<Rightarrow> select_result \<Rightarrow> nat \<Rightarrow> 'd pb_value \<Rightarrow> 'd pb_value option" where
  "fill_row lib mapResult iResult (VRepeated p ms) =
     map_option (\<lambda>m. VRepeated p (ms @ [m])) (fill_message lib mapResult iResult p)"
| "fill_row lib mapResult iResult (VMessage p m) =
     map_option (\<lambda>m. VMessage p (Some m)) (fill_message lib mapResult iResult (case m of None \<Rightarrow> p | Some m \<Rightarrow> m))"
| "fill_row lib mapResult iResult v = Some v"

definition fill_field :: "'d pb_lib \<Rightarrow> select_result \<Rightarrow> 'd pb_value \<Rightarrow> 'd pb_value option" where
  "fill_field lib mapResult v =
     (case mapResult of
        [] \<Rightarrow> Some v
      | (_, xs) # _ \<Rightarrow> for_each (fill_row lib mapResult) [0..<length xs] v)"

fun load_tables ::
    "'d pb_lib \<Rightarrow> 'm mysql \<Rightarrow> 'd message \<Rightarrow> (string \<times> 'd pb_value) list \<Rightarrow> string \<Rightarrow> string list \<Rightarrow> 'm \<Rightarrow>
       (int32 \<times> (string \<times> 'd pb_value) list \<times> 'm) option" where
  "load_tables lib db message [] strQueryCommonKey vecCommonArgs m = Some (0, [], m)"
| "load_tables lib db message (f # fs) strQueryCommonKey vecCommonArgs m =
     (if IsDBCommonKeyType (cpp_type (snd f))
      then case AddQueryItemCondition lib message f (strQueryCommonKey, vecCommonArgs) of
             (strQueryCommonKey, vecCommonArgs) \<Rightarrow>
               map_option (\<lambda>(nError, fs, m). (nError, f # fs, m))
                 (load_tables lib db message fs strQueryCommonKey vecCommonArgs m)
      else case load_query lib f strQueryCommonKey vecCommonArgs of
             None \<Rightarrow> None
           | Some (strQueryString, vecTableArgs, strQueryCommonKey) \<Rightarrow>
               (case QuerySelectRowsInCurrentThread db strQueryString vecTableArgs m of
                  None \<Rightarrow> None
                | Some (nError, mapResult, m) \<Rightarrow>
                    if nError \<noteq> 0 then Some (nError, f # fs, m)
                    else case fill_field lib mapResult (snd f) of
                           None \<Rightarrow> None
                         | Some v \<Rightarrow>
                             map_option (\<lambda>(nError, fs, m). (nError, (fst f, v) # fs, m))
                               (load_tables lib db message fs strQueryCommonKey vecCommonArgs m)))"

definition MessageLoad :: "'d pb_lib \<Rightarrow> 'm mysql \<Rightarrow> 'd message \<Rightarrow> 'm \<Rightarrow> (int32 \<times> 'd message \<times> 'm) option" where
  "MessageLoad lib db message m =
     map_option (\<lambda>(nError, fs, m). (nError, Message (type_name message) fs, m))
       (load_tables lib db message (message_fields message) [] [] m)"

section \<open>Saving\<close>

text \<open>The names, arguments and placeholders of the common keys seen so far.\<close>

record common_keys =
  vecFieldNameCommon :: "string list"
  vecCommonKeyArgs :: "string list"
  vecFieldParamCharCommon :: "string list"

definition add_common_key :: "'d pb_lib \<Rightarrow> 'd message \<Rightarrow> string \<times> 'd pb_value \<Rightarrow> common_keys \<Rightarrow> common_keys" where
  "add_common_key lib message f c =
     \<lparr>vecFieldNameCommon = vecFieldNameCommon c @ [fst f],
      vecCommonKeyArgs = vecCommonKeyArgs c @ [DBProtoMessageToString lib message (snd f)],
      vecFieldParamCharCommon = vecFieldParamCharCommon c @ [GetProtoSqlStringPlaceholder (snd f)]\<rparr>"

definition insert_text :: "'d message \<Rightarrow> string \<Rightarrow> 'd message \<Rightarrow> nat \<Rightarrow> common_keys \<Rightarrow> string" where
  "insert_text message strTabName p nElements c =
     (let vecCurFieldName = vecFieldNameCommon c @ map fst (message_fields p);
          vecCurFieldParamCharCommon =
            vecFieldParamCharCommon c @ map (\<lambda>g. GetProtoSqlStringPlaceholder (snd g)) (message_fields p);
          vecCurFieldDataNames = map fst (filter (\<lambda>g. \<not> IsDBKey message g) (message_fields p));
          strValuesElem = ''('' @ append_all '', '' vecCurFieldParamCharCommon @ '' )''
      in ''INSERT INTO '' @ strTabName @ '' ('' @ append_all '', '' vecCurFieldName @ '')'' @ '' VALUES'' @
         append_all '','' (replicate nElements strValuesElem) @ '' ON DUPLICATE KEY UPDATE '' @
         append_all '', '' (map (\<lambda>n. n @ ''=values('' @ n @ '')'') vecCurFieldDataNames))"

definition element_args :: "'d pb_lib \<Rightarrow> common_keys \<Rightarrow> 'd message \<Rightarrow> string list" where
  "element_args lib c msg = vecCommonKeyArgs c @ map (\<lambda>g. DBProtoMessageToString lib msg (snd g)) (message_fields msg)"

definition singular_args :: "'d pb_lib \<Rightarrow> common_keys \<Rightarrow> 'd message \<Rightarrow> string list" where
  "singular_args lib c msg =
     vecCommonKeyArgs c @
     map (\<lambda>g. DBProtoMessageToString lib msg (snd g)) (filter (\<lambda>g. \<not> IsDBKey msg g) (message_fields msg))"

text \<open>The statement of one table, if it is written at all (\<open>Some None\<close>: the field is skipped).\<close>

definition update_statement ::
    "'d pb_lib \<Rightarrow> 'd message \<Rightarrow> string \<times> 'd pb_value \<Rightarrow> common_keys \<Rightarrow> (string \<times> string list) option option" where
  "update_statement lib message f c =
     (case snd f of
        VRepeated p ms \<Rightarrow>
          Some (if ms = [] then None
                else Some (insert_text message (fst f) p (length ms) c, concat (map (element_args lib c) ms)))
      | VMessage p None \<Rightarrow> Some None
      | VMessage p (Some msg) \<Rightarrow> Some (Some (insert_text message (fst f) p 1 c, singular_args lib c msg))
      | v \<Rightarrow> if HasField lib v then None else Some None)"

fun update_tables ::
    "'d pb_lib \<Rightarrow> 'm mysql \<Rightarrow> 'd message \<Rightarrow> (string \<times> 'd pb_value) list \<Rightarrow> common_keys \<Rightarrow> 'm \<Rightarrow> (int32 \<times> 'm) option" where
  "update_tables lib db message [] c m = Some (0, m)"
| "update_tables lib db message (f # fs) c m =
     (if IsDBCommonKeyType (cpp_type (snd f))
      then update_tables lib db message fs (add_common_key lib message f c) m
      else case update_statement lib message f c of
             None \<Rightarrow> None
           | Some None \<Rightarrow> update_tables lib db message fs c m
           | Some (Some (strQueryString, vecTableArgs)) \<Rightarrow>
               (case QueryModifyInCurrentThread db strQueryString vecTableArgs m of
                  None \<Rightarrow> None
                | Some (nError, nAffectRows, nInsertId, m) \<Rightarrow>
                    if nError \<noteq> 0 then Some (nError, m) else update_tables lib db message fs c m))"

definition MessageUpdate :: "'d pb_lib \<Rightarrow> 'm mysql \<Rightarrow> 'd message \<Rightarrow> 'm \<Rightarrow> (int32 \<times> 'm) option" where
  "MessageUpdate lib db message m =
     update_tables lib db message (message_fields message)
       \<lparr>vecFieldNameCommon = [], vecCommonKeyArgs = [], vecFieldParamCharCommon = []\<rparr> m"

section \<open>Deleting\<close>

definition delete_statement ::
    "'d pb_lib \<Rightarrow> string \<times> 'd pb_value \<Rightarrow> string \<Rightarrow> string list \<Rightarrow> (string \<times> string list) option option" where
  "delete_statement lib f strQueryCommonKey vecKeyCommonArgs =
     (let strQueryString = ''DELETE FROM '' @ fst f @ '' WHERE '' @ strQueryCommonKey;
          finish = (\<lambda>(strQueryConditionAppend, vecArgs).
            Some (Some (strQueryString @ (if strQueryConditionAppend \<noteq> [] then '' AND'' @ strQueryConditionAppend else []), vecArgs)))
      in case snd f of
           VRepeated p ms \<Rightarrow>
             if ms = [] then Some None
             else let elems = map (\<lambda>msg. AddQueryMessageCondition lib msg ([], [])) ms
                  in finish (append_all '' OR'' (map (\<lambda>el. '' ('' @ fst el @ '')'') elems), vecKeyCommonArgs @ concat (map snd elems))
         | VMessage p None \<Rightarrow> Some None
         | VMessage p (Some msg) \<Rightarrow> finish (AddQueryMessageCondition lib msg ([], vecKeyCommonArgs))
         | v \<Rightarrow> if HasField lib v then None else Some None)"

fun delete_tables ::
    "'d pb_lib \<Rightarrow> 'm mysql \<Rightarrow> 'd message \<Rightarrow> (string \<times> 'd pb_value) list \<Rightarrow> string \<Rightarrow> string list \<Rightarrow> 'm \<Rightarrow> (int32 \<times> 'm) option" where
  "delete_tables lib db message [] strQueryCommonKey vecKeyCommonArgs m = Some (0, m)"
| "delete_tables lib db message (f # fs) strQueryCommonKey vecKeyCommonArgs m =
     (if IsDBCommonKeyType (cpp_type (snd f))
      then case AddQueryItemCondition lib message f (strQueryCommonKey, vecKeyCommonArgs) of
             (strQueryCommonKey, vecKeyCommonArgs) \<Rightarrow> delete_tables lib db message fs strQueryCommonKey vecKeyCommonArgs m
      else case delete_statement lib f strQueryCommonKey vecKeyCommonArgs of
             None \<Rightarrow> None
           | Some None \<Rightarrow> delete_tables lib db message fs strQueryCommonKey vecKeyCommonArgs m
           | Some (Some (strQueryString, vecArgs)) \<Rightarrow>
               (case QueryModifyInCurrentThread db strQueryString vecArgs m of
                  None \<Rightarrow> None
                | Some (nError, nAffectRows, nInsertId, m) \<Rightarrow>
                    if nError \<noteq> 0 then Some (nError, m)
                    else delete_tables lib db message fs strQueryCommonKey vecKeyCommonArgs m))"

definition MessageDelete :: "'d pb_lib \<Rightarrow> 'm mysql \<Rightarrow> 'd message \<Rightarrow> 'm \<Rightarrow> (int32 \<times> 'm) option" where
  "MessageDelete lib db message m = delete_tables lib db message (message_fields message) [] [] m"

section \<open>The module and its loops\<close>

text \<open>
  Each loop of the pool has its own connection, none where \<open>mysql_init\<close> failed. A query posted to a
  loop runs there and posts the call of its callback, if it has one, back to the loop it came from.
\<close>

datatype mysql_task =
    ModifyTask string "string list" "nat option"
  | SelectTask string "string list" "nat option"

datatype mysql_call =
    ModifyCall nat int32 int64 int64
  | SelectCall nat int32 select_result

record 'm mysql_module =
  msHandles :: "'m option list"
  msInstanceName :: string
  msTasks :: "(nat \<times> mysql_task) list"
  msCalls :: "mysql_call list"

definition MysqlInit ::
    "(nat \<Rightarrow> 'm option) \<Rightarrow> (string \<Rightarrow> string \<Rightarrow> string \<Rightarrow> 'm \<Rightarrow> bool \<times> 'm) \<Rightarrow> ('m \<Rightarrow> 'm) \<Rightarrow> xml_config_module \<Rightarrow>
       'm mysql_module \<Rightarrow> 'm mysql_module" where
  "MysqlInit mysql_init mysql_real_connect mysql_options_reconnect config s =
     (case GetDataBaseConfigDataById ''mysql'' config of
        None \<Rightarrow> s
      | Some cfg \<Rightarrow>
          s\<lparr>msHandles := map (\<lambda>i. case mysql_init i of
              None \<Rightarrow> None
            | Some h \<Rightarrow>
                (case mysql_real_connect (c_str (dbAddress cfg)) (c_str (dbUser cfg)) (c_str (dbPassword cfg)) h of
                   (False, h) \<Rightarrow> Some h
                 | (True, h) \<Rightarrow> Some (mysql_options_reconnect h))) [0..<2]\<rparr>)"

definition Mysql_OnInit :: "gov \<Rightarrow> 'm mysql_module \<Rightarrow> 'm mysql_module" where
  "Mysql_OnInit g s = s\<lparr>msInstanceName := gvServerName g @ to_string (gvServerId g)\<rparr>"

definition Mysql_AfterStop :: "'m mysql_module \<Rightarrow> 'm mysql_module" where
  "Mysql_AfterStop s = s\<lparr>msHandles := []\<rparr>"

definition Mysql_Exec :: "nat \<Rightarrow> mysql_task \<Rightarrow> 'm mysql_module \<Rightarrow> 'm mysql_module" where
  "Mysql_Exec index t s =
     (if msHandles s = [] then s else s\<lparr>msTasks := msTasks s @ [(index mod length (msHandles s), t)]\<rparr>)"

definition QueryModify :: "u32 \<Rightarrow> string \<Rightarrow> string list \<Rightarrow> nat option \<Rightarrow> 'm mysql_module \<Rightarrow> int32 \<times> 'm mysql_module" where
  "QueryModify nIndex strQueryString vecArgs cb s = (0, Mysql_Exec (unat nIndex) (ModifyTask strQueryString vecArgs cb) s)"

definition QuerySelectRows :: "u32 \<Rightarrow> string \<Rightarrow> string list \<Rightarrow> nat option \<Rightarrow> 'm mysql_module \<Rightarrow> int32 \<times> 'm mysql_module" where
  "QuerySelectRows nIndex strQueryString vecArgs cb s = (0, Mysql_Exec (unat nIndex) (SelectTask strQueryString vecArgs cb) s)"

definition Mysql_DBLoopExec :: "string \<Rightarrow> mysql_task \<Rightarrow> 'm mysql_module \<Rightarrow> 'm mysql_module option" where
  "Mysql_DBLoopExec strIndexKey funcDo s =
     map_option (\<lambda>c. Mysql_Exec (unat c) funcDo s) (CRC32_two_string strIndexKey (msInstanceName s))"

fun run_mysql_task :: "'m mysql \<Rightarrow> mysql_task \<Rightarrow> 'm \<Rightarrow> (mysql_call list \<times> 'm) option" where
  "run_mysql_task db (ModifyTask q args cb) m =
     map_option (\<lambda>(nError, nAffectRows, nInsertId, m).
         (case cb of None \<Rightarrow> [] | Some k \<Rightarrow> [ModifyCall k nError nAffectRows nInsertId], m))
       (QueryModifyInCurrentThread db q args m)"
| "run_mysql_task db (SelectTask q args cb) m =
     map_option (\<lambda>(nError, mapResult, m). (case cb of None \<Rightarrow> [] | Some k \<Rightarrow> [SelectCall k nError mapResult], m))
       (QuerySelectRowsInCurrentThread db q args m)"

text \<open>Loop \<open>i\<close> runs its oldest task on its connection; without a connection this is undefined.\<close>

definition Mysql_RunLoop :: "'m mysql \<Rightarrow> nat \<Rightarrow> 'm mysql_module \<Rightarrow> 'm mysql_module option" where
  "Mysql_RunLoop db i s =
     (case take_task i (msTasks s) of
        None \<Rightarrow> None
      | Some (t, ts) \<Rightarrow>
          (case msHandles s ! i of
             None \<Rightarrow> None
           | Some m \<Rightarrow>
               (case run_mysql_task db t m of
                  None \<Rightarrow> None
                | Some (calls, m) \<Rightarrow>
                    Some (s\<lparr>msHandles := (msHandles s)[i := Some m], msTasks := ts, msCalls := msCalls s @ calls\<rparr>))))"

section \<open>The queries of a loop run in order\<close>

text \<open>
  The pool of connections is a keyed executor: what is posted under one index runs in posting order
  on one connection, as long as every connection was made.
\<close>

definition mysql_ok :: "nat \<Rightarrow> 'm mysql_module \<Rightarrow> bool" where
  "mysql_ok n s \<longleftrightarrow> 0 < n \<and> length (msHandles s) = n \<and> (\<forall>x \<in> set (msTasks s). fst x < n)"

definition post_query :: "u32 \<Rightarrow> mysql_task \<Rightarrow> 'm mysql_module \<Rightarrow> 'm mysql_module" where
  "post_query nIndex t s = Mysql_Exec (unat nIndex) t s"

definition run_query :: "'m mysql \<Rightarrow> nat \<Rightarrow> 'm mysql_module \<Rightarrow> (mysql_task \<times> 'm mysql_module) option" where
  "run_query db i s =
     (case take_task i (msTasks s) of
        None \<Rightarrow> None
      | Some (t, ts) \<Rightarrow> map_option (Pair t) (Mysql_RunLoop db i s))"

lemma take_task_subset: "take_task i q = Some (t, q') \<Longrightarrow> set q' \<subseteq> set q"
  by (induction i q arbitrary: q' rule: take_task.induct) (auto split: if_splits)

lemma run_query_Some:
  assumes "run_query db i s = Some (t, s')"
  shows "take_task i (msTasks s) = Some (t, msTasks s')" "length (msHandles s') = length (msHandles s)"
  using assms by (auto simp: run_query_def Mysql_RunLoop_def split: option.splits)

interpretation mq: keyed_executor "mysql_ok n" "\<lambda>k. unat k mod n" post_query "\<lambda>i s. tasks_of i (msTasks s)" "run_query db" for n and db :: "'m mysql"
proof unfold_locales
  show "mysql_ok n (post_query k j s)" "tasks_of i (msTasks (post_query k j s)) =
      (if i = unat k mod n then tasks_of i (msTasks s) @ [j] else tasks_of i (msTasks s))"
    if "mysql_ok n s" for k i j and s :: "'m mysql_module"
    using that by (auto simp: mysql_ok_def post_query_def Mysql_Exec_def)
next
  fix s s' :: "'m mysql_module" and i i' j
  assume s: "mysql_ok n s" and r: "run_query db i s = Some (j, s')"
  show "mysql_ok n s'"
    using s take_task_subset [OF run_query_Some(1) [OF r]] run_query_Some(2) [OF r] by (auto simp: mysql_ok_def)
  show "tasks_of i' (msTasks s) = (if i' = i then j # tasks_of i' (msTasks s') else tasks_of i' (msTasks s'))"
    using take_task_tasks(2) [OF run_query_Some(1) [OF r]] by simp
qed

section \<open>What reaches the server\<close>

definition arg_short :: "string \<Rightarrow> bool" where
  "arg_short x \<longleftrightarrow> size_of x * 2 + 1 \<le> kArgLenMax"

abbreviation args_alike :: "string list \<Rightarrow> string list \<Rightarrow> bool" where
  "args_alike \<equiv> list_all2 (\<lambda>x y. arg_short x \<and> arg_short y)"

lemma escape_args_Some: "\<forall>x \<in> set xs. arg_short x \<Longrightarrow> escape_args db xs = Some (map (mysql_real_escape_string db) xs)"
  by (induction xs) (auto simp: arg_short_def not_less [symmetric])

lemma args_alike_short:
  assumes "args_alike xs ys"
  shows "\<forall>x \<in> set xs. arg_short x" "\<forall>y \<in> set ys. arg_short y"
  using assms by (auto simp: list_all2_conv_all_nth in_set_conv_nth)

lemma MysqlQuery_args:
  assumes "\<forall>x \<in> set args. arg_short x" "args \<noteq> []" "size_of args < kArgNumMax"
  shows "MysqlQuery db q args m =
    Some (if fst (mysql_real_query db q m) then ss_msg_error_sql else ss_msg_success, snd (mysql_real_query db q m))"
proof -
  have "\<not> kArgNumMax \<le> size_of args" using assms(3) by simp
  with assms(1,2) show ?thesis
    by (simp add: MysqlQuery_def escape_args_Some QueryStringReplace_def case_prod_beta)
qed

lemma MysqlQuery_alike: "args_alike xs ys \<Longrightarrow> MysqlQuery db q xs m = MysqlQuery db q ys m"
proof -
  assume r: "args_alike xs ys"
  then have l: "length xs = length ys" by (rule list_all2_lengthD)
  have "escape_args db zs = Some (map (mysql_real_escape_string db) zs)" if "zs = xs \<or> zs = ys" for zs
    using args_alike_short [OF r] that by (intro escape_args_Some) auto
  then have e: "escape_args db xs = Some (map (mysql_real_escape_string db) xs)"
    "escape_args db ys = Some (map (mysql_real_escape_string db) ys)" by blast+
  have "xs = [] \<longleftrightarrow> ys = []" using l by (cases xs; cases ys) simp_all
  then have q: "QueryStringReplace q (map (mysql_real_escape_string db) xs) = QueryStringReplace q (map (mysql_real_escape_string db) ys)"
    by (cases "ys = []") (simp_all add: QueryStringReplace_def)
  show ?thesis unfolding MysqlQuery_def size_of_def l e option.case q ..
qed

lemma QueryModify_alike:
  "args_alike xs ys \<Longrightarrow> QueryModifyInCurrentThread db q xs m = QueryModifyInCurrentThread db q ys m"
  unfolding QueryModifyInCurrentThread_def by (simp only: MysqlQuery_alike)

text \<open>Messages that differ in the values of their fields only.\<close>

definition alike_fields :: "'d pb_lib \<Rightarrow> 'd message \<Rightarrow> 'd message \<Rightarrow> string \<times> 'd pb_value \<Rightarrow> string \<times> 'd pb_value \<Rightarrow> bool" where
  "alike_fields lib a b f g \<longleftrightarrow>
     fst f = fst g \<and> cpp_type (snd f) = cpp_type (snd g) \<and>
     arg_short (DBProtoMessageToString lib a (snd f)) \<and> arg_short (DBProtoMessageToString lib b (snd g))"

definition alike_elements :: "'d pb_lib \<Rightarrow> 'd message \<Rightarrow> 'd message \<Rightarrow> bool" where
  "alike_elements lib a b \<longleftrightarrow>
     type_name a = type_name b \<and> list_all2 (alike_fields lib a b) (message_fields a) (message_fields b)"

definition alike_table :: "'d pb_lib \<Rightarrow> 'd message \<Rightarrow> 'd message \<Rightarrow> string \<times> 'd pb_value \<Rightarrow> string \<times> 'd pb_value \<Rightarrow> bool" where
  "alike_table lib a b f g \<longleftrightarrow> fst f = fst g \<and>
     (case snd f of
        VRepeated p ms \<Rightarrow> (case snd g of VRepeated p' ms' \<Rightarrow> p = p' \<and> list_all2 (alike_elements lib) ms ms' | _ \<Rightarrow> False)
      | VMessage p x \<Rightarrow> (case snd g of VMessage p' y \<Rightarrow> p = p' \<and> rel_option (alike_elements lib) x y | _ \<Rightarrow> False)
      | _ \<Rightarrow> IsDBCommonKeyType (cpp_type (snd f)) \<and> alike_fields lib a b f g)"

definition alike_messages :: "'d pb_lib \<Rightarrow> 'd message \<Rightarrow> 'd message \<Rightarrow> bool" where
  "alike_messages lib a b \<longleftrightarrow>
     type_name a = type_name b \<and> list_all2 (alike_table lib a b) (message_fields a) (message_fields b)"

lemma alike_table_cases:
  assumes "alike_table lib a b f g"
  obtains (key) "IsDBCommonKeyType (cpp_type (snd f))" "IsDBCommonKeyType (cpp_type (snd g))" "alike_fields lib a b f g"
    | (repeated) n p ms ms' where "f = (n, VRepeated p ms)" "g = (n, VRepeated p ms')" "list_all2 (alike_elements lib) ms ms'"
    | (singular) n p x y where "f = (n, VMessage p (Some x))" "g = (n, VMessage p (Some y))" "alike_elements lib x y"
    | (absent) n p where "f = (n, VMessage p None)" "g = (n, VMessage p None)"
proof -
  obtain n v n' w where fg: "f = (n, v)" "g = (n', w)" by (cases f, cases g)
  show thesis
  proof (cases "cpp_type v = CPPTYPE_MESSAGE")
    case True
    with assms fg repeated singular absent show thesis
      by (cases v; cases w) (auto simp: alike_table_def IsDBCommonKeyType_def option_rel_Some1 elim!: option.rel_cases)
  next
    case False
    with assms fg key show thesis
      by (cases v) (auto simp: alike_table_def alike_fields_def)
  qed
qed

lemma IsDBKey_alike:
  "type_name a = type_name b \<Longrightarrow> fst f = fst g \<Longrightarrow> cpp_type (snd f) = cpp_type (snd g) \<Longrightarrow> IsDBKey a f = IsDBKey b g"
  by (cases f; cases g) (simp add: IsDBKey_def split: option.split)

lemma placeholder_alike:
  "cpp_type v = cpp_type w \<Longrightarrow> GetProtoSqlStringPlaceholder v = GetProtoSqlStringPlaceholder w"
  by (simp add: GetProtoSqlStringPlaceholder_def)

lemma args_alike_map:
  "list_all2 (alike_fields lib a b) fs gs \<Longrightarrow>
   args_alike (map (\<lambda>g. DBProtoMessageToString lib a (snd g)) fs) (map (\<lambda>g. DBProtoMessageToString lib b (snd g)) gs)"
  by (auto simp: list.rel_map alike_fields_def elim: list_all2_mono)

lemma filter_alike:
  assumes "type_name a = type_name b" "list_all2 (alike_fields lib a b) fs gs"
  shows "list_all2 (alike_fields lib a b) (filter (\<lambda>f. \<not> IsDBKey a f) fs) (filter (\<lambda>f. \<not> IsDBKey b f) gs)"
  using assms(2)
proof induction
  case (Cons f fs g gs)
  then have "IsDBKey a f = IsDBKey b g"
    using assms(1) by (intro IsDBKey_alike) (simp_all add: alike_fields_def)
  with Cons.IH Cons.hyps show ?case by simp
qed simp

lemma list_all2_concat: "list_all2 (list_all2 P) xss yss \<Longrightarrow> list_all2 P (concat xss) (concat yss)"
  by (induction rule: list_all2_induct) (auto intro: list_all2_appendI)

text \<open>Saving: the statements of tables that are alike have one text.\<close>

definition alike_keys :: "common_keys \<Rightarrow> common_keys \<Rightarrow> bool" where
  "alike_keys c d \<longleftrightarrow>
     vecFieldNameCommon c = vecFieldNameCommon d \<and> vecFieldParamCharCommon c = vecFieldParamCharCommon d \<and>
     args_alike (vecCommonKeyArgs c) (vecCommonKeyArgs d)"

abbreviation alike_statement :: "string \<times> string list \<Rightarrow> string \<times> string list \<Rightarrow> bool" where
  "alike_statement x y \<equiv> fst x = fst y \<and> args_alike (snd x) (snd y)"

lemma add_common_key_alike:
  "alike_keys c d \<Longrightarrow> alike_fields lib a b f g \<Longrightarrow> alike_keys (add_common_key lib a f c) (add_common_key lib b g d)"
  by (auto simp: alike_keys_def add_common_key_def alike_fields_def intro: list_all2_appendI placeholder_alike)

lemma element_args_alike:
  "alike_keys c d \<Longrightarrow> alike_elements lib x y \<Longrightarrow> args_alike (element_args lib c x) (element_args lib d y)"
  by (simp add: element_args_def alike_keys_def alike_elements_def list_all2_appendI args_alike_map)

lemma singular_args_alike:
  "alike_keys c d \<Longrightarrow> alike_elements lib x y \<Longrightarrow> args_alike (singular_args lib c x) (singular_args lib d y)"
  by (simp add: singular_args_def alike_keys_def alike_elements_def list_all2_appendI args_alike_map filter_alike)

lemma insert_text_alike:
  assumes "type_name a = type_name b" "alike_keys c d"
  shows "insert_text a n p k c = insert_text b n p k d"
proof -
  have "IsDBKey a = IsDBKey b" using assms(1) by (intro ext) (simp add: IsDBKey_def)
  with assms(2) show ?thesis by (simp add: insert_text_def alike_keys_def)
qed

lemma update_statement_alike:
  assumes "type_name a = type_name b" "alike_keys c d" "alike_table lib a b f g" "\<not> IsDBCommonKeyType (cpp_type (snd f))"
  shows "rel_option (rel_option alike_statement) (update_statement lib a f c) (update_statement lib b g d)"
  using assms(3)
proof (cases rule: alike_table_cases)
  case key
  with assms(4) show ?thesis by simp
next
  case (repeated n p ms ms')
  have "list_all2 args_alike (map (element_args lib c) ms) (map (element_args lib d) ms')"
    using repeated(3) element_args_alike [OF assms(2)] by (auto simp: list.rel_map elim!: list_all2_mono)
  then show ?thesis
    using repeated list_all2_lengthD [OF repeated(3)] insert_text_alike [OF assms(1,2)]
    by (auto simp: update_statement_def intro: list_all2_concat)
next
  case (singular n p x y)
  then show ?thesis
    using singular_args_alike [OF assms(2) singular(3)] insert_text_alike [OF assms(1,2)] by (simp add: update_statement_def)
qed (simp add: update_statement_def)

lemma update_tables_alike:
  assumes "list_all2 (alike_table lib a b) fs gs" "type_name a = type_name b" "alike_keys c d"
  shows "update_tables lib db a fs c m = update_tables lib db b gs d m"
  using assms(1,3)
proof (induction fs gs arbitrary: c d m)
  case (Cons f fs g gs)
  show ?case
  proof (cases "IsDBCommonKeyType (cpp_type (snd f))")
    case True
    with Cons(1) have "IsDBCommonKeyType (cpp_type (snd g))" "alike_fields lib a b f g"
      by (auto elim: alike_table_cases simp: IsDBCommonKeyType_def)
    with True Cons.IH [OF add_common_key_alike [OF Cons.prems]] show ?thesis by simp
  next
    case False
    with Cons(1) have "\<not> IsDBCommonKeyType (cpp_type (snd g))"
      by (auto elim!: alike_table_cases simp: IsDBCommonKeyType_def)
    with False show ?thesis
      using update_statement_alike [OF assms(2) Cons.prems Cons(1) False] Cons.IH [OF Cons.prems]
      by (auto elim!: option.rel_cases simp: QueryModify_alike split: option.split)
  qed
qed simp

text \<open>Deleting.\<close>

lemma AddQueryItemCondition_alike:
  "alike_statement s t \<Longrightarrow> alike_fields lib a b f g \<Longrightarrow>
   alike_statement (AddQueryItemCondition lib a f s) (AddQueryItemCondition lib b g t)"
  by (auto simp: AddQueryItemCondition_def alike_fields_def split_beta intro: list_all2_appendI placeholder_alike)

lemma AddQueryMessageCondition_alike:
  assumes "alike_statement s t" "alike_elements lib x y"
  shows "alike_statement (AddQueryMessageCondition lib x s) (AddQueryMessageCondition lib y t)"
proof -
  have n: "type_name x = type_name y" and f: "list_all2 (alike_fields lib x y) (message_fields x) (message_fields y)"
    using assms(2) by (simp_all add: alike_elements_def)
  have "alike_statement (fold (\<lambda>f acc. if \<not> IsDBKey x f then acc else AddQueryItemCondition lib x f acc) fs s)
      (fold (\<lambda>f acc. if \<not> IsDBKey y f then acc else AddQueryItemCondition lib y f acc) gs t)"
    if "list_all2 (alike_fields lib x y) fs gs" "alike_statement s t" for fs gs s t
    using that
  proof (induction fs gs arbitrary: s t)
    case (Cons f fs g gs)
    have "IsDBKey x f = IsDBKey y g" using n Cons(1) by (intro IsDBKey_alike) (simp_all add: alike_fields_def)
    with Cons.IH [OF AddQueryItemCondition_alike [OF Cons.prems Cons(1)]] Cons.IH [OF Cons.prems]
    show ?case by simp
  qed simp
  with f assms(1) show ?thesis by (simp add: AddQueryMessageCondition_def)
qed

lemma delete_statement_alike:
  assumes "args_alike xs ys" "alike_table lib a b f g" "\<not> IsDBCommonKeyType (cpp_type (snd f))"
  shows "rel_option (rel_option alike_statement) (delete_statement lib f q xs) (delete_statement lib g q ys)"
  using assms(2)
proof (cases rule: alike_table_cases)
  case key
  with assms(3) show ?thesis by simp
next
  case (repeated n p ms ms')
  let ?c = "\<lambda>msg. AddQueryMessageCondition lib msg ([], [])"
  have r: "list_all2 alike_statement (map ?c ms) (map ?c ms')"
    using repeated(3) AddQueryMessageCondition_alike [of "([], [])" "([], [])" lib]
    by (auto simp: list.rel_map elim!: list_all2_mono)
  then have "map fst (map ?c ms) = map fst (map ?c ms')" "list_all2 args_alike (map snd (map ?c ms)) (map snd (map ?c ms'))"
    by (auto simp: list_all2_conv_all_nth list_eq_iff_nth_eq)
  moreover have "ms = [] \<longleftrightarrow> ms' = []" using repeated(3) by auto
  moreover have "map (\<lambda>el. '' ('' @ fst el @ '')'') (map ?c ms) = map (\<lambda>x. '' ('' @ x @ '')'') (map fst (map ?c ms))" for ms
    by simp
  ultimately show ?thesis
    using repeated assms(1) by (simp add: delete_statement_def Let_def list_all2_appendI list_all2_concat del: map_map)
next
  case (singular n p x y)
  then show ?thesis
    using AddQueryMessageCondition_alike [of "([], xs)" "([], ys)", OF _ singular(3)] assms(1)
    by (simp add: delete_statement_def Let_def split_beta)
qed (simp add: delete_statement_def)

lemma delete_tables_alike:
  assumes "list_all2 (alike_table lib a b) fs gs" "args_alike xs ys"
  shows "delete_tables lib db a fs q xs m = delete_tables lib db b gs q ys m"
  using assms
proof (induction fs gs arbitrary: q xs ys m)
  case (Cons f fs g gs)
  show ?case
  proof (cases "IsDBCommonKeyType (cpp_type (snd f))")
    case True
    with Cons(1) have g: "IsDBCommonKeyType (cpp_type (snd g))" "alike_fields lib a b f g"
      by (auto elim: alike_table_cases simp: IsDBCommonKeyType_def)
    have "alike_statement (AddQueryItemCondition lib a f (q, xs)) (AddQueryItemCondition lib b g (q, ys))"
      using Cons.prems g(2) by (intro AddQueryItemCondition_alike) simp_all
    with True g(1) Cons.IH show ?thesis by (auto simp: split_beta)
  next
    case False
    with Cons(1) have "\<not> IsDBCommonKeyType (cpp_type (snd g))"
      by (auto elim!: alike_table_cases simp: IsDBCommonKeyType_def)
    with False show ?thesis
      using delete_statement_alike [OF Cons.prems Cons(1) False, of q] Cons.IH [OF Cons.prems]
      by (auto elim!: option.rel_cases simp: QueryModify_alike split: option.split)
  qed
qed simp

text \<open>
  C26: no value of a message reaches the server when it is saved or deleted: two messages that have
  the same fields, elements and types, whatever the values, execute the same statements with the
  same results. (\<open>QueryStringReplace\<close> returns its text unchanged when there are arguments.)
\<close>

theorem mysql_values_never_sent:
  assumes "alike_messages lib a b"
  shows "MessageUpdate lib db a m = MessageUpdate lib db b m \<and> MessageDelete lib db a m = MessageDelete lib db b m"
  using assms unfolding MessageUpdate_def MessageDelete_def alike_messages_def
  by (intro conjI update_tables_alike delete_tables_alike) (simp_all add: alike_keys_def)

definition saved_user :: "string \<Rightarrow> unit message list \<Rightarrow> unit message" where
  "saved_user u ms = Message ''Db.UserData'' [(''user_id'', VString u), (''user_counts'', VRepeated (sample_count 0 0 0) ms)]"

theorem mysql_values_never_sent_witness:
  "\<forall>db :: unit mysql. MessageUpdate sample_lib db (saved_user ''alice'' [sample_count 1 2 3]) () =
     MessageUpdate sample_lib db (saved_user ''bob'' [sample_count 4 5 6]) ()"
proof
  fix db :: "unit mysql"
  have "alike_messages sample_lib (saved_user ''alice'' [sample_count 1 2 3]) (saved_user ''bob'' [sample_count 4 5 6])"
    by (simp add: alike_messages_def saved_user_def alike_table_def alike_elements_def alike_fields_def sample_count_def
        IsDBCommonKeyType_def arg_short_def kArgLenMax_def size_of_def to_string_def nat_to_string.simps)
  from mysql_values_never_sent [OF this, of db "()"]
  show "MessageUpdate sample_lib db (saved_user ''alice'' [sample_count 1 2 3]) () =
     MessageUpdate sample_lib db (saved_user ''bob'' [sample_count 4 5 6]) ()" ..
qed

section \<open>Placeholders and arguments\<close>

definition braces :: "string \<Rightarrow> nat" where
  "braces s = length (filter (\<lambda>c. c = CHR ''{'') s)"

lemma braces_simps [simp]:
  "braces [] = 0" "braces (c # s) = (if c = CHR ''{'' then Suc (braces s) else braces s)"
  "braces (s @ t) = braces s + braces t"
  by (simp_all add: braces_def)

lemma braces_concat: "braces (concat xs) = sum_list (map braces xs)"
  by (induction xs) simp_all

lemma braces_placeholder [simp]: "braces (GetProtoSqlStringPlaceholder v) = 1"
  by (simp add: GetProtoSqlStringPlaceholder_def)

lemma append_all_Nil [simp]: "append_all sep [] = []"
  by (simp add: append_all_def)

lemma braces_append_all: "braces sep = 0 \<Longrightarrow> braces (append_all sep xs) = sum_list (map braces xs)"
proof -
  assume s: "braces sep = 0"
  have "braces (concat (map (\<lambda>(i, x). (if i \<noteq> 0 then sep else []) @ x) (enumerate n xs))) = sum_list (map braces xs)" for n
    using s by (induction xs arbitrary: n) simp_all
  then show ?thesis by (simp add: append_all_def)
qed

definition common_keys_of :: "'d pb_lib \<Rightarrow> 'd message \<Rightarrow> (string \<times> 'd pb_value) list \<Rightarrow> common_keys" where
  "common_keys_of lib message ks =
     \<lparr>vecFieldNameCommon = map fst ks, vecCommonKeyArgs = map (\<lambda>k. DBProtoMessageToString lib message (snd k)) ks,
      vecFieldParamCharCommon = map (\<lambda>k. GetProtoSqlStringPlaceholder (snd k)) ks\<rparr>"

lemma common_keys_of_snoc: "common_keys_of lib message (ks @ [f]) = add_common_key lib message f (common_keys_of lib message ks)"
  by (simp add: common_keys_of_def add_common_key_def)

lemma update_tables_keys:
  assumes "\<forall>k \<in> set ks. IsDBCommonKeyType (cpp_type (snd k))"
  shows "update_tables lib db message (ks @ fs) (common_keys_of lib message ks0) m =
    update_tables lib db message fs (common_keys_of lib message (ks0 @ ks)) m"
  using assms
proof (induction ks arbitrary: ks0)
  case (Cons k ks)
  then show ?case using Cons.IH [of "ks0 @ [k]"] by (simp add: common_keys_of_snoc)
qed simp

lemma braces_names: "\<forall>f \<in> set fs. braces (fst f) = 0 \<Longrightarrow> sum_list (map (\<lambda>f. braces (fst f)) fs) = 0"
  by (induction fs) simp_all

lemma sum_list_ones: "sum_list (map (\<lambda>f. Suc 0) fs) = length fs"
  by (induction fs) simp_all

lemma braces_insert_text:
  assumes "braces n = 0" "\<forall>f \<in> set ks. braces (fst f) = 0" "\<forall>f \<in> set (message_fields p). braces (fst f) = 0"
  shows "braces (insert_text message n p k (common_keys_of lib message ks)) = k * (length ks + length (message_fields p))"
proof -
  have d: "sum_list (map (\<lambda>f. 2 * braces (fst f)) (filter P (message_fields p))) = 0" for P
    using assms(3) by (induction "message_fields p" rule: list.induct) (simp_all add: sum_list_const_mult)
  show ?thesis
    using assms d braces_names [of ks] braces_names [of "message_fields p"]
    by (simp add: insert_text_def common_keys_of_def braces_append_all comp_def sum_list_replicate sum_list_ones)
qed

text \<open>
  Every element of a repeated field is saved with one argument per placeholder; a singular element
  has one placeholder without an argument for each of its keys.
\<close>

theorem mysql_update_placeholders:
  assumes "update_statement lib message (n, v) (common_keys_of lib message ks) = Some (Some (sql, args))"
    and "braces n = 0" "\<forall>f \<in> set ks. braces (fst f) = 0"
    and "v = VRepeated p ms \<or> v = VMessage p (Some (hd ms)) \<and> length ms = 1"
    and "\<forall>f \<in> set (message_fields p). braces (fst f) = 0"
    and "\<forall>msg \<in> set ms. length (message_fields msg) = length (message_fields p)"
  shows "braces sql = length args + (if is_repeated v then 0 else length (filter (IsDBKey (hd ms)) (message_fields (hd ms))))"
proof -
  have e: "length (concat (map (element_args lib (common_keys_of lib message ks)) ms)) =
      length ms * (length ks + length (message_fields p))"
    using assms(6) by (induction ms) (simp_all add: element_args_def common_keys_of_def)
  have s: "length (singular_args lib (common_keys_of lib message ks) (hd ms)) +
      length (filter (IsDBKey (hd ms)) (message_fields (hd ms))) = length ks + length (message_fields (hd ms))"
    using sum_length_filter_compl [of "IsDBKey (hd ms)" "message_fields (hd ms)"]
    by (simp add: singular_args_def common_keys_of_def)
  have p: "length (message_fields (hd ms)) = length (message_fields p)" if "length ms = 1"
    using assms(6) that by (cases ms) simp_all
  show ?thesis
    using assms(1,4) e s p braces_insert_text [OF assms(2,3,5)]
    by (auto simp: update_statement_def split: if_splits)
qed

theorem mysql_update_placeholders_witness:
  "\<exists>sql args. update_statement sample_lib (saved_user ''u'' []) (''info'', VMessage (sample_count 0 0 0) (Some (sample_count 1 2 3)))
       (common_keys_of sample_lib (saved_user ''u'' []) [(''user_id'', VString ''u'')]) = Some (Some (sql, args)) \<and>
     braces sql = length args + 2"
proof -
  obtain sql args where s: "update_statement sample_lib (saved_user ''u'' [])
      (''info'', VMessage (sample_count 0 0 0) (Some (sample_count 1 2 3)))
      (common_keys_of sample_lib (saved_user ''u'' []) [(''user_id'', VString ''u'')]) = Some (Some (sql, args))"
    by (simp add: update_statement_def)
  have k: "length (filter (IsDBKey (sample_count 1 2 3)) (message_fields (sample_count 1 2 3))) = 2"
    by (simp add: sample_count_def IsDBKey_def IsDBCommonKeyType_def DbPbFieldKey_def)
  have "braces sql = length args + length (filter (IsDBKey (hd [sample_count 1 2 3])) (message_fields (hd [sample_count 1 2 3])))"
    using mysql_update_placeholders [OF s, of "sample_count 0 0 0" "[sample_count 1 2 3]"] by (simp add: sample_count_def)
  with s k show ?thesis by auto
qed

text \<open>
  C28: a save of a repeated field is one statement for all its elements, and is refused as soon as the
  elements have a hundred arguments or more between them.
\<close>

theorem mysql_update_element_limit:
  assumes "message_fields message = ks @ [(n, VRepeated p ms)]" "\<forall>k \<in> set ks. IsDBCommonKeyType (cpp_type (snd k))"
    and "ms \<noteq> []" "\<forall>msg \<in> set ms. length (message_fields msg) = w"
    and "0 < length ks + w" "length ms * (length ks + w) < 2 ^ 64"
    and "\<forall>k \<in> set ks. arg_short (DBProtoMessageToString lib message (snd k))"
    and "\<forall>msg \<in> set ms. \<forall>f \<in> set (message_fields msg). arg_short (DBProtoMessageToString lib msg (snd f))"
  shows "MessageUpdate lib db message m = Some
    (if 100 \<le> length ms * (length ks + w) then (ss_msg_cache_length_overflow, m)
     else let r = mysql_real_query db (insert_text message n p (length ms) (common_keys_of lib message ks)) m
          in (if fst r then ss_msg_error_sql else ss_msg_success, snd r))"
proof -
  let ?c = "common_keys_of lib message ks"
  let ?args = "concat (map (element_args lib ?c) ms)"
  let ?sql = "insert_text message n p (length ms) ?c"
  have "length ?args = length ms * (length ks + w)"
    using assms(4) by (induction ms) (simp_all add: element_args_def common_keys_of_def)
  then have l: "unat (size_of ?args) = length ms * (length ks + w)"
    using assms(6) by (subst unat_size_of) simp_all
  then have k: "kArgNumMax \<le> size_of ?args \<longleftrightarrow> 100 \<le> length ms * (length ks + w)"
    unfolding word_le_nat_alt kArgNumMax_def by simp
  have ne: "?args \<noteq> []"
  proof
    assume "?args = []"
    with l assms(3,5) show False by (simp add: size_of_def)
  qed
  have sh: "\<forall>x \<in> set ?args. arg_short x"
    using assms(7,8) by (auto simp: element_args_def common_keys_of_def)
  have q: "QueryModifyInCurrentThread db ?sql ?args m =
      (if 100 \<le> length ms * (length ks + w) then Some (ss_msg_cache_length_overflow, 0, 0, m)
       else case mysql_real_query db ?sql m of
          (err, m') \<Rightarrow> if err then Some (ss_msg_error_sql, 0, 0, m')
            else Some (ss_msg_success, mysql_affected_rows db m', mysql_insert_id db m', m'))"
  proof (cases "100 \<le> length ms * (length ks + w)")
    case True
    then show ?thesis using k by (simp add: QueryModifyInCurrentThread_def MysqlQuery_def ss_msg_cache_length_overflow_def)
  next
    case False
    then have "size_of ?args < kArgNumMax" using k by simp
    with False show ?thesis
      by (simp add: QueryModifyInCurrentThread_def MysqlQuery_args [OF sh ne] ss_msg_error_sql_def ss_msg_success_def split_beta)
  qed
  have "MessageUpdate lib db message m = update_tables lib db message ([] @ [(n, VRepeated p ms)]) ?c m"
    using update_tables_keys [OF assms(2), of lib db message "[(n, VRepeated p ms)]" "[]" m]
    unfolding MessageUpdate_def assms(1) by (simp add: common_keys_of_def)
  also have "\<dots> = Some (if 100 \<le> length ms * (length ks + w) then (ss_msg_cache_length_overflow, m)
     else let r = mysql_real_query db ?sql m in (if fst r then ss_msg_error_sql else ss_msg_success, snd r))"
    using assms(3) by (simp add: update_statement_def IsDBCommonKeyType_def q Let_def split_beta ss_msg_error_sql_def
        ss_msg_success_def ss_msg_cache_length_overflow_def)
  finally show ?thesis .
qed

theorem mysql_update_element_limit_witness:
  "\<forall>db :: unit mysql. MessageUpdate sample_lib db (saved_user ''u'' (replicate 25 (sample_count 1 2 3))) () =
     Some (ss_msg_cache_length_overflow, ())"
proof
  fix db :: "unit mysql"
  show "MessageUpdate sample_lib db (saved_user ''u'' (replicate 25 (sample_count 1 2 3))) () = Some (ss_msg_cache_length_overflow, ())"
    by (subst mysql_update_element_limit [where ks = "[(''user_id'', VString ''u'')]" and n = "''user_counts''"
          and p = "sample_count 0 0 0" and ms = "replicate 25 (sample_count 1 2 3)" and w = 3])
      (simp_all add: saved_user_def sample_count_def IsDBCommonKeyType_def arg_short_def kArgLenMax_def size_of_def
        to_string_def nat_to_string.simps)
qed

section \<open>Result rows\<close>

lemma map_of_emplace:
  "map_of (emplace_column k x r) k' =
     (if k' = k then Some ((case map_of r k of None \<Rightarrow> [] | Some xs \<Rightarrow> xs) @ [x]) else map_of r k')"
  by (induction r) auto

definition cell :: "string option \<Rightarrow> string" where
  "cell x = (case x of None \<Rightarrow> [] | Some pRow \<Rightarrow> pRow)"

lemma map_of_add_row:
  assumes "distinct names" "length row = length names"
  shows "map_of (add_row names row r) k =
    (case map_of (zip names row) k of
       None \<Rightarrow> map_of r k
     | Some x \<Rightarrow> Some ((case map_of r k of None \<Rightarrow> [] | Some xs \<Rightarrow> xs) @ [cell x]))"
  using assms
proof (induction names arbitrary: row r)
  case (Cons n names)
  then obtain x row' where row: "row = x # row'" by (cases row) simp_all
  have n: "map_of (zip names row') n = None" using Cons.prems by (simp add: row map_of_zip_is_None)
  have step: "add_row (n # names) (x # row') r = add_row names row' (emplace_column n (cell x) r)"
    by (simp add: add_row_def cell_def)
  have IH: "map_of (add_row names row' (emplace_column n (cell x) r)) k =
      (case map_of (zip names row') k of
         None \<Rightarrow> map_of (emplace_column n (cell x) r) k
       | Some x' \<Rightarrow> Some ((case map_of (emplace_column n (cell x) r) k of None \<Rightarrow> [] | Some xs \<Rightarrow> xs) @ [cell x']))"
    using Cons.IH [of row' "emplace_column n (cell x) r"] Cons.prems row by simp
  show ?case
  proof (cases "k = n")
    case True
    then show ?thesis unfolding row step IH by (simp add: n map_of_emplace)
  next
    case False
    then have other: "map_of (emplace_column n (cell x) r) k = map_of r k" by (simp add: map_of_emplace)
    from False show ?thesis unfolding row step IH other by simp
  qed
qed (simp add: add_row_def)

lemma map_of_rows:
  assumes "distinct names" "\<forall>row \<in> set rows. length row = length names" "k \<in> set names"
  shows "map_of (fold (add_row names) rows r) k =
    (if rows = [] then map_of r k
     else Some ((case map_of r k of None \<Rightarrow> [] | Some xs \<Rightarrow> xs) @ map (\<lambda>row. cell (the (map_of (zip names row) k))) rows))"
  using assms(2)
proof (induction rows arbitrary: r)
  case (Cons row rows)
  have "map_of (zip names row) k \<noteq> None"
    using Cons.prems assms(3) map_of_zip_is_None [of names row k] by simp
  then obtain x where x: "map_of (zip names row) k = Some x" by auto
  have "map_of (add_row names row r) k = Some ((case map_of r k of None \<Rightarrow> [] | Some xs \<Rightarrow> xs) @ [cell x])"
    using map_of_add_row [OF assms(1), of row r k] Cons.prems x by simp
  with Cons.IH [of "add_row names row r"] Cons.prems x show ?case by simp
qed simp

lemma map_of_rows_other:
  assumes "distinct names" "\<forall>row \<in> set rows. length row = length names" "k \<notin> set names"
  shows "map_of (fold (add_row names) rows r) k = map_of r k"
  using assms(2)
proof (induction rows arbitrary: r)
  case (Cons row rows)
  have "map_of (zip names row) k = None" using Cons.prems assms(3) by (auto simp: map_of_eq_None_iff dest: set_zip_leftD)
  with Cons.IH [of "add_row names row r"] Cons.prems map_of_add_row [OF assms(1), of row r k] show ?case by simp
qed simp

text \<open>Elements a table can hold: the fields of the element type with values that survive as text.\<close>

definition storable :: "'d message \<Rightarrow> 'd message \<Rightarrow> bool" where
  "storable p msg \<longleftrightarrow> type_name msg = type_name p \<and>
     list_all2 (\<lambda>f g. fst f = fst g \<and> cpp_type (snd f) = cpp_type (snd g) \<and> value_ok (snd g) \<and>
         cpp_type (snd g) \<notin> {CPPTYPE_DOUBLE, CPPTYPE_FLOAT, CPPTYPE_MESSAGE}) (message_fields p) (message_fields msg)"

definition result_row :: "'d pb_lib \<Rightarrow> 'd message \<Rightarrow> string option list" where
  "result_row lib msg = map (\<lambda>g. Some (DBProtoMessageToString lib msg (snd g))) (message_fields msg)"

lemma length_result_row: "storable p msg \<Longrightarrow> length (result_row lib msg) = length (map fst (message_fields p))"
  by (auto simp: storable_def result_row_def dest: list_all2_lengthD)

lemma read_back:
  assumes "cpp_type v = cpp_type w" "value_ok w" "cpp_type w \<notin> {CPPTYPE_DOUBLE, CPPTYPE_FLOAT, CPPTYPE_MESSAGE}"
  shows "\<not> is_repeated v" "DBStringToProtoMessage lib v (DBProtoMessageToString lib m w) = Some w"
proof -
  show "\<not> is_repeated v" using assms(1,3) by (cases v) auto
  have "DBStringToProtoMessage lib v s = DBStringToProtoMessage lib w s" for s
    using assms(1,3) by (cases v; cases w) simp_all
  then show "DBStringToProtoMessage lib v (DBProtoMessageToString lib m w) = Some w"
    using scalar_round_trip [OF assms(2,3)] by simp
qed

lemma fill_fields_row:
  assumes "list_all2 (\<lambda>f g. fst f = fst g \<and> cpp_type (snd f) = cpp_type (snd g) \<and> value_ok (snd g) \<and>
      cpp_type (snd g) \<notin> {CPPTYPE_DOUBLE, CPPTYPE_FLOAT, CPPTYPE_MESSAGE} \<and>
      (\<exists>xs. map_of r (fst f) = Some xs \<and> i < length xs \<and> xs ! i = DBProtoMessageToString lib msg (snd g))) fs gs"
  shows "fill_fields lib r i fs = Some gs"
  using assms
proof induction
  case (Cons f fs g gs)
  obtain n v where f: "f = (n, v)" by (cases f)
  obtain w where g: "g = (n, w)" using Cons(1) f by (cases g) simp
  show ?case using Cons(1) Cons.IH read_back(1) [of v w] read_back(2) [of v w lib msg] by (auto simp: f g)
qed simp

lemma fill_message_row:
  assumes "distinct (map fst (message_fields p))" "\<forall>msg \<in> set ms. storable p msg" "i < length ms"
  shows "fill_message lib (fold (add_row (map fst (message_fields p))) (map (result_row lib) ms) []) i p = Some (ms ! i)"
proof -
  let ?names = "map fst (message_fields p)" and ?msg = "ms ! i"
  let ?r = "fold (add_row ?names) (map (result_row lib) ms) []"
  have msg: "storable p ?msg" using assms(2,3) by simp
  have rows: "\<forall>row \<in> set (map (result_row lib) ms). length row = length ?names"
    using assms(2) length_result_row by auto
  have ne: "ms \<noteq> []" using assms(3) by auto
  have "\<exists>xs. map_of ?r (?names ! j) = Some xs \<and> i < length xs \<and>
      xs ! i = DBProtoMessageToString lib ?msg (snd (message_fields ?msg ! j))"
    if j: "j < length (message_fields p)" for j
  proof -
    have l: "length (result_row lib ?msg) = length ?names" by (rule length_result_row [OF msg])
    have "(?names ! j, result_row lib ?msg ! j) \<in> set (zip ?names (result_row lib ?msg))"
      unfolding in_set_zip using j l by (intro exI [of _ j]) auto
    then have "map_of (zip ?names (result_row lib ?msg)) (?names ! j) = Some (result_row lib ?msg ! j)"
      using assms(1) l by (intro map_of_is_SomeI) simp_all
    moreover have "result_row lib ?msg ! j = Some (DBProtoMessageToString lib ?msg (snd (message_fields ?msg ! j)))"
      using j l by (simp add: result_row_def)
    moreover have "map_of ?r (?names ! j) = Some (map (\<lambda>row. cell (the (map_of (zip ?names row) (?names ! j)))) (map (result_row lib) ms))"
      using map_of_rows [OF assms(1) rows, of "?names ! j" "[]"] j ne by simp
    ultimately show ?thesis using assms(3) by (simp add: cell_def)
  qed
  then have "fill_fields lib ?r i (message_fields p) = Some (message_fields ?msg)"
    using msg by (intro fill_fields_row [where msg = ?msg]) (simp add: storable_def list_all2_conv_all_nth)
  with msg show ?thesis by (simp add: fill_message_def storable_def message.expand)
qed

lemma emplace_not_Nil: "emplace_column k x r \<noteq> []"
  by (cases r) (auto split: if_splits)

lemma add_row_not_Nil:
  assumes "zip names row \<noteq> [] \<or> r \<noteq> []"
  shows "add_row names row r \<noteq> []"
proof -
  have keep: "fold (\<lambda>(name, x). emplace_column name (cell x)) zs r \<noteq> []" if "r \<noteq> []" for zs r
    using that
  proof (induction zs arbitrary: r)
    case (Cons z zs)
    show ?case using Cons.IH [OF emplace_not_Nil] by (simp only: fold_simps split_beta comp_apply not_False_eq_True)
  qed simp
  have eq: "add_row names row r = fold (\<lambda>(name, x). emplace_column name (cell x)) (zip names row) r"
    by (simp add: add_row_def cell_def [abs_def])
  show ?thesis
  proof (cases "zip names row")
    case Nil
    show ?thesis unfolding eq Nil using assms Nil by simp
  next
    case (Cons z zs)
    then show ?thesis unfolding eq by (cases z) (simp add: keep emplace_not_Nil)
  qed
qed

lemma rows_count:
  assumes "distinct names" "\<forall>row \<in> set rows. length row = length names" "fold (add_row names) rows [] = (k, xs) # rest"
  shows "length xs = length rows"
proof (cases "k \<in> set names")
  case True
  with map_of_rows [OF assms(1,2) True, of "[]"] assms(3) show ?thesis by (auto split: if_splits)
next
  case False
  with map_of_rows_other [OF assms(1,2) False, of "[]"] assms(3) show ?thesis by simp
qed

lemma rows_not_Nil:
  assumes "names \<noteq> []" "\<forall>row \<in> set rows. length row = length names" "rows \<noteq> []"
  shows "fold (add_row names) rows [] \<noteq> []"
proof -
  have keep: "r \<noteq> [] \<Longrightarrow> fold (add_row names) rs r \<noteq> []" for rs r
    by (induction rs arbitrary: r) (auto simp: add_row_not_Nil)
  obtain row rs where rows: "rows = row # rs" using assms(3) by (cases rows) auto
  have "zip names row \<noteq> []" using assms(1,2) rows by (cases names; cases row) auto
  then show ?thesis using rows keep [OF add_row_not_Nil] by simp
qed

lemma fill_rows:
  assumes "\<And>i. i < length ms \<Longrightarrow> fill_message lib r i p = Some (ms ! i)"
  shows "n \<le> length ms \<Longrightarrow> for_each (fill_row lib r) [0..<n] (VRepeated p old) = Some (VRepeated p (old @ take n ms))"
proof (induction n)
  case (Suc n)
  have snoc: "for_each step (xs @ [x]) a = (case for_each step xs a of None \<Rightarrow> None | Some b \<Rightarrow> step x b)" for step xs x and a :: "'b pb_value"
    by (induction xs arbitrary: a) (auto split: option.splits)
  show ?case using Suc assms [of n] by (simp add: snoc take_Suc_conv_app_nth)
qed simp

lemma load_tables_keys:
  assumes "\<forall>k \<in> set ks. IsDBCommonKeyType (cpp_type (snd k))"
  shows "load_tables lib db message (ks @ fs) q args m =
    (case fold (AddQueryItemCondition lib message) ks (q, args) of
       (q, args) \<Rightarrow> map_option (\<lambda>(nError, fs, m). (nError, ks @ fs, m)) (load_tables lib db message fs q args m))"
  using assms
proof (induction ks arbitrary: q args)
  case Nil
  then show ?case by (cases "load_tables lib db message fs q args m") auto
next
  case (Cons k ks)
  obtain q1 args1 where k: "AddQueryItemCondition lib message k (q, args) = (q1, args1)" by fastforce
  show ?case using Cons.IH [of q1 args1] Cons.prems
    by (cases "fold (AddQueryItemCondition lib message) ks (q1, args1)") (simp add: k option.map_comp comp_def split_beta)
qed


definition count_db :: "string mysql" where
  "count_db = \<lparr>mysql_real_escape_string = id, mysql_real_query = (\<lambda>q m. (False, q)),
     mysql_store_result = (\<lambda>m. Some ([''count_type'', ''count_subtype'', ''count''], [[Some ''1'', Some ''2'', Some ''3'']])),
     mysql_affected_rows = (\<lambda>m. 0), mysql_insert_id = (\<lambda>m. 0)\<rparr>"

lemma digit_texts:
  "to_string 1 = ''1''" "to_string 2 = ''2''" "to_string 3 = ''3''" "to_string 4 = ''4''" "to_string 5 = ''5''"
  by code_simp+


text \<open>
  A delete of two elements joins their conditions with \<open>OR\<close> behind the condition on the common keys;
  \<open>AND\<close> binds more strongly, so the second element is deleted whoever owns it. A singular element with
  keys yields \<open>AND\<close> twice in a row.
\<close>

lemma delete_two_elements:
  "delete_statement sample_lib (''user_counts'', VRepeated (sample_count 0 0 0) [sample_count 1 2 3, sample_count 4 5 6])
     '' user_id = {}'' [''u''] =
   Some (Some (''DELETE FROM user_counts WHERE  user_id = {} AND ( count_type = {} AND  count_subtype = {}) OR ( count_type = {} AND  count_subtype = {})'',
     [''u'', ''1'', ''2'', ''4'', ''5'']))"
  by (simp add: delete_statement_def sample_count_def AddQueryMessageCondition_def AddQueryItemCondition_def IsDBKey_def
      IsDBCommonKeyType_def DbPbFieldKey_def append_all_def GetProtoSqlStringPlaceholder_def digit_texts)

lemma delete_singular_element:
  "delete_statement sample_lib (''user_count'', VMessage (sample_count 0 0 0) (Some (sample_count 1 2 3))) '' user_id = {}'' [''u''] =
   Some (Some (''DELETE FROM user_count WHERE  user_id = {} AND AND  count_type = {} AND  count_subtype = {}'', [''u'', ''1'', ''2'']))"
  by (simp add: delete_statement_def sample_count_def AddQueryMessageCondition_def AddQueryItemCondition_def IsDBKey_def
      IsDBCommonKeyType_def DbPbFieldKey_def GetProtoSqlStringPlaceholder_def digit_texts)

text \<open>The keys of a singular element stay in the condition of the tables after it, without their arguments.\<close>

lemma load_condition_leaks:
  assumes "load_query lib (n, VMessage p (Some msg)) q args = Some (sql, targs, q')"
  shows "q' = fst (AddQueryMessageCondition lib msg (q, args)) \<and> targs = snd (AddQueryMessageCondition lib msg (q, args))"
  using assms by (auto simp: load_query_def split_beta)

text \<open>A text without arguments loses its last two characters.\<close>

lemma replace_loop_plain:
  "\<forall>c \<in> set q. c \<noteq> CHR ''{'' \<Longrightarrow> k < length q \<Longrightarrow> replace_loop q [] k i 0 0 [] = Some ([], 0)"
proof (induction "k - i" arbitrary: i)
  case 0
  then show ?case by (subst replace_loop.simps) simp
next
  case (Suc d)
  then have i: "i < k" "i < length q" by simp_all
  with Suc.prems(1) have c: "char_at q i = Some (q ! i)" "q ! i \<noteq> CHR ''{''" by (simp_all add: char_at_def)
  have "replace_loop q [] k (i + 1) 0 0 [] = Some ([], 0)" using Suc.hyps(2) Suc.prems by (intro Suc.hyps(1)) simp_all
  with i c show ?case by (subst replace_loop.simps) (simp only: if_True option.case not_False_eq_True)
qed

lemma plain_text_truncated:
  assumes "\<forall>c \<in> set q. c \<noteq> CHR ''{''" "2 \<le> length q" "length q < 2 ^ 64"
  shows "QueryStringReplace q [] = Some (take (length q - 2) q)"
proof -
  have u: "unat (size_of q) = length q" using assms(3) by (rule unat_size_of)
  have u1: "unat (size_of q - 1) = length q - 1"
    using assms(2) u by (subst unat_sub) (simp_all add: word_le_nat_alt)
  have u2: "unat (size_of q - 2) = length q - 2"
    using assms(2) u by (subst unat_sub) (simp_all add: word_le_nat_alt)
  have "size_of q - 2 \<le> size_of q" unfolding word_le_nat_alt u2 u by simp
  moreover have "replace_loop q [] (length q - 1) 0 0 0 [] = Some ([], 0)"
    using assms(1,2) by (intro replace_loop_plain) simp_all
  moreover have "q \<noteq> []" using assms(2) by auto
  ultimately show ?thesis by (simp add: QueryStringReplace_def u1 u2 min_absorb1 Let_def)
qed

end
