(* ===== verification/Log_Module.thy ===== *)
theory Log_Module
  imports Cat_Prelude
begin

text \<open>
  \<open>LogModule\<close> and the logging macros (common/log/log_module.h, log_module.cpp). The glog library is not
  part of the sources: a line handed to it is recorded with its severity and the threshold
  \<open>FLAGS_minloglevel\<close> at that moment, and which of them it writes is an argument. \<open>None\<close> is a macro
  that reads the level through the null instance pointer.
\<close>

section \<open>The module\<close>

datatype log_level =
    LOG_LEVEL_TRACE | LOG_LEVEL_DEBUG | LOG_LEVEL_INFO | LOG_LEVEL_WARN | LOG_LEVEL_ERROR | LOG_LEVEL_FATAL | LOG_LEVEL_MAX

fun level_number :: "log_level \<Rightarrow> nat" where
  "level_number LOG_LEVEL_TRACE = 0"
| "level_number LOG_LEVEL_DEBUG = 1"
| "level_number LOG_LEVEL_INFO = 2"
| "level_number LOG_LEVEL_WARN = 3"
| "level_number LOG_LEVEL_ERROR = 4"
| "level_number LOG_LEVEL_FATAL = 5"
| "level_number LOG_LEVEL_MAX = 6"

datatype glog_severity = GLOG_INFO | GLOG_WARNING | GLOG_ERROR | GLOG_FATAL

fun severity_number :: "glog_severity \<Rightarrow> nat" where
  "severity_number GLOG_INFO = 0"
| "severity_number GLOG_WARNING = 1"
| "severity_number GLOG_ERROR = 2"
| "severity_number GLOG_FATAL = 3"

record log_module =
  lgInstance :: bool
  lgLogName :: string
  lgLogLevel :: log_level
  lgMinLogLevel :: nat
  lgDestinations :: "glog_severity \<rightharpoonup> string"
  lgLines :: "(glog_severity \<times> nat \<times> string) list"
  lgConsole :: "string list"

definition LogModule :: log_module where
  "LogModule = \<lparr>lgInstance = False, lgLogName = [], lgLogLevel = LOG_LEVEL_TRACE, lgMinLogLevel = 0,
     lgDestinations = Map.empty, lgLines = [], lgConsole = []\<rparr>"

definition SetLogName :: "string \<Rightarrow> log_module \<Rightarrow> log_module" where
  "SetLogName strLogName s = s\<lparr>lgLogName := strLogName\<rparr>"

definition Log_BeforeInit :: "log_module \<Rightarrow> log_module" where
  "Log_BeforeInit s =
     (let path = ''../log/'' @ lgLogName s
      in s\<lparr>lgDestinations := (lgDestinations s)(GLOG_FATAL \<mapsto> path @ ''Fatal_'', GLOG_ERROR \<mapsto> path @ ''Error_'',
             GLOG_WARNING \<mapsto> path @ ''Warning_'', GLOG_INFO \<mapsto> path @ ''Info_''),
           lgMinLogLevel := 0, lgInstance := True\<rparr>)"

fun level_threshold :: "log_level \<Rightarrow> glog_severity option" where
  "level_threshold LOG_LEVEL_TRACE = Some GLOG_INFO"
| "level_threshold LOG_LEVEL_DEBUG = Some GLOG_INFO"
| "level_threshold LOG_LEVEL_INFO = Some GLOG_INFO"
| "level_threshold LOG_LEVEL_WARN = Some GLOG_WARNING"
| "level_threshold LOG_LEVEL_ERROR = Some GLOG_ERROR"
| "level_threshold LOG_LEVEL_FATAL = Some GLOG_FATAL"
| "level_threshold LOG_LEVEL_MAX = None"

definition SetLogLevel :: "log_level \<Rightarrow> log_module \<Rightarrow> log_module" where
  "SetLogLevel eLogLevel s =
     (let s = s\<lparr>lgLogLevel := eLogLevel\<rparr>
      in case level_threshold eLogLevel of None \<Rightarrow> s | Some sev \<Rightarrow> s\<lparr>lgMinLogLevel := severity_number sev\<rparr>)"

definition GetLogLevel :: "log_module \<Rightarrow> log_level option" where
  "GetLogLevel s = (if lgInstance s then Some (lgLogLevel s) else None)"

section \<open>The macros\<close>

definition glog :: "glog_severity \<Rightarrow> string \<Rightarrow> log_module \<Rightarrow> log_module" where
  "glog sev text s = s\<lparr>lgLines := lgLines s @ [(sev, lgMinLogLevel s, text)]\<rparr>"

definition LOG_TRACE :: "string \<Rightarrow> log_module \<Rightarrow> log_module option" where
  "LOG_TRACE text s =
     (case GetLogLevel s of
        None \<Rightarrow> None
      | Some level \<Rightarrow> Some (if level_number level \<le> level_number LOG_LEVEL_TRACE
          then (glog GLOG_INFO (''TRACE: '' @ text) s)\<lparr>lgConsole := lgConsole s @ [''TRACE: '' @ text]\<rparr> else s))"

definition LOG_DEBUG :: "string \<Rightarrow> log_module \<Rightarrow> log_module option" where
  "LOG_DEBUG text s =
     (case GetLogLevel s of
        None \<Rightarrow> None
      | Some level \<Rightarrow> Some (if level_number level \<le> level_number LOG_LEVEL_DEBUG then glog GLOG_INFO (''DEBUG: '' @ text) s else s))"

definition LOG_INFO :: "string \<Rightarrow> log_module \<Rightarrow> log_module" where
  "LOG_INFO text = glog GLOG_INFO (''INFO: '' @ text)"

definition LOG_WARN :: "string \<Rightarrow> log_module \<Rightarrow> log_module" where
  "LOG_WARN text = glog GLOG_WARNING (''WARN: '' @ text)"

definition LOG_ERROR :: "string \<Rightarrow> log_module \<Rightarrow> log_module" where
  "LOG_ERROR text = glog GLOG_ERROR (''ERROR: '' @ text)"

definition LOG_FATAL :: "string \<Rightarrow> log_module \<Rightarrow> log_module" where
  "LOG_FATAL text = glog GLOG_FATAL (''FATAL: '' @ text)"

definition Log_AfterStop :: "log_module \<Rightarrow> log_module" where
  "Log_AfterStop s = LOG_INFO ''log finish'' s"

text \<open>The macro of a level.\<close>

fun LOG :: "log_level \<Rightarrow> string \<Rightarrow> log_module \<Rightarrow> log_module option" where
  "LOG LOG_LEVEL_TRACE text s = LOG_TRACE text s"
| "LOG LOG_LEVEL_DEBUG text s = LOG_DEBUG text s"
| "LOG LOG_LEVEL_INFO text s = Some (LOG_INFO text s)"
| "LOG LOG_LEVEL_WARN text s = Some (LOG_WARN text s)"
| "LOG LOG_LEVEL_ERROR text s = Some (LOG_ERROR text s)"
| "LOG LOG_LEVEL_FATAL text s = Some (LOG_FATAL text s)"
| "LOG LOG_LEVEL_MAX text s = Some s"

section \<open>Properties\<close>

definition written :: "(glog_severity \<Rightarrow> nat \<Rightarrow> bool) \<Rightarrow> log_module \<Rightarrow> string list" where
  "written writes s = map (snd \<circ> snd) (filter (\<lambda>(sev, low, _). writes sev low) (lgLines s))"

fun level_tag :: "log_level \<Rightarrow> string" where
  "level_tag LOG_LEVEL_TRACE = ''TRACE: ''"
| "level_tag LOG_LEVEL_DEBUG = ''DEBUG: ''"
| "level_tag LOG_LEVEL_INFO = ''INFO: ''"
| "level_tag LOG_LEVEL_WARN = ''WARN: ''"
| "level_tag LOG_LEVEL_ERROR = ''ERROR: ''"
| "level_tag _ = ''FATAL: ''"

lemmas log_macros = LOG_TRACE_def LOG_DEBUG_def LOG_INFO_def LOG_WARN_def LOG_ERROR_def LOG_FATAL_def glog_def GetLogLevel_def

text \<open>
  The level is a threshold. After \<open>BeforeInit\<close> and then \<open>SetLogLevel\<close>, a message is
  written exactly when its own level is at least the one set, with its tag, provided glog writes what is
  not below \<open>FLAGS_minloglevel\<close>. \<open>BeforeInit\<close> resets the threshold of glog only: a level set
  before it still hides traces and debug messages and no others.
\<close>

theorem log_threshold:
  assumes glog: "\<And>sev low. writes sev low \<longleftrightarrow> low \<le> severity_number sev"
    and levels: "l \<noteq> LOG_LEVEL_MAX" "m \<noteq> LOG_LEVEL_MAX"
  shows "map_option (written writes) (LOG m text (SetLogLevel l (Log_BeforeInit s))) =
      Some (written writes s @ (if level_number l \<le> level_number m then [level_tag m @ text] else [])) \<and>
    map_option (written writes) (LOG m text (Log_BeforeInit (SetLogLevel l s))) =
      Some (written writes s @ (if level_number l \<le> level_number m \<or> 2 \<le> level_number m then [level_tag m @ text] else []))"
  using levels
  by (cases l; cases m) (simp_all add: glog log_macros SetLogLevel_def Log_BeforeInit_def written_def Let_def)

theorem log_threshold_witness:
  "map_option (written (\<lambda>sev low. low \<le> severity_number sev)) (LOG LOG_LEVEL_INFO ''up'' (SetLogLevel LOG_LEVEL_WARN (Log_BeforeInit LogModule))) = Some [] \<and>
   map_option (written (\<lambda>sev low. low \<le> severity_number sev)) (LOG LOG_LEVEL_INFO ''up'' (Log_BeforeInit (SetLogLevel LOG_LEVEL_WARN LogModule))) = Some [''INFO: up'']"
  using log_threshold [of "\<lambda>sev low. low \<le> severity_number sev" LOG_LEVEL_WARN LOG_LEVEL_INFO "''up''" LogModule]
  by (simp add: LogModule_def written_def)

text \<open>Before \<open>BeforeInit\<close> the macros with a level read it through a null pointer.\<close>

lemma log_before_init: "LOG_TRACE text LogModule = None" "LOG_DEBUG text LogModule = None"
  by (simp_all add: log_macros LogModule_def)

end
