(* ===== verification/Server_App.thy ===== *)
theory Server_App
  imports Module_Manager Loop_Pool Rocksdb_Module Game_Net Net_Module Log_Module
begin

text \<open>
  The four programs (src/app/game: main.cpp, *_app.cpp): each registers its modules and starts them in
  the order of the module manager. The hooks \<open>BeforeInit\<close> and \<open>OnInit\<close> of the modules are composed here
  from the models of the modules: the pointers found by name, the configuration tables, the server's
  identity, the pools of loops, the listening sockets and the database. \<open>None\<close> is a start that dies: a
  null pointer is used, the socket library throws because it cannot listen on an address, a pool is
  resized beyond the address space, or the database cannot be opened. The files, the order in which
  the table of servers is iterated, and what the operating system and the database library can open are
  the arguments of the start.
\<close>

section \<open>State\<close>

datatype server_app = GateServerApp | LogicServerApp | DBServerApp | ClientTestApp

record app_env =
  envServerList :: xml_document
  envDataBase :: xml_document
  envIterate :: "(int64 \<rightharpoonup> server_list_config_data) \<Rightarrow> server_list_config_data list"
  envFiles :: "string \<rightharpoonup> rocks_db"
  envCanOpen :: "string \<Rightarrow> bool"
  envCanListen :: "string \<Rightarrow> u16 \<Rightarrow> bool"

text \<open>
  A module is its name. \<open>apPointers\<close> are the member pointers by their module and the name looked up;
  \<open>apPools\<close> are the members \<open>m_workLoop\<close>.
\<close>

record app_world =
  apManager :: "string module_manager"
  apPointers :: "string \<times> string \<rightharpoonup> string option"
  apCurrentLoop :: bool
  apLog :: log_module
  apXml :: xml_config_module
  apGov :: gov
  apRocks :: rocks_module
  apPools :: "string \<rightharpoonup> nat pool"
  apListenLoop :: "nat loop option"
  apAcceptors :: "(string \<times> string \<times> u16) list"
  apTestClient :: bool

definition app_initial :: "app_env \<Rightarrow> app_world" where
  "app_initial env = \<lparr>apManager = ModuleManager, apPointers = Map.empty, apCurrentLoop = False, apLog = LogModule,
     apXml = \<lparr>mapServerListConfigData = Map.empty, mapDataBaseConfigData = Map.empty\<rparr>, apGov = ServiceGovernmentModule,
     apRocks = RocksDBModule (envFiles env), apPools = Map.empty, apListenLoop = None, apAcceptors = [], apTestClient = False\<rparr>"

section \<open>Finding modules\<close>

definition FIND_MODULE :: "string \<Rightarrow> string \<Rightarrow> app_world \<Rightarrow> app_world" where
  "FIND_MODULE owner name w = w\<lparr>apPointers := (apPointers w)((owner, name) \<mapsto> FindModule name (apManager w))\<rparr>"

definition app_pointer :: "string \<Rightarrow> string \<Rightarrow> app_world \<Rightarrow> string option" where
  "app_pointer owner name w = (case apPointers w (owner, name) of None \<Rightarrow> None | Some p \<Rightarrow> p)"

definition deref :: "string \<Rightarrow> string \<Rightarrow> app_world \<Rightarrow> app_world option" where
  "deref owner name w = (if app_pointer owner name w = None then None else Some w)"

section \<open>Listening\<close>

definition GetDefaultListenLoop :: "app_world \<Rightarrow> app_world" where
  "GetDefaultListenLoop w = (if apListenLoop w = None then w\<lparr>apListenLoop := Some (Loop_Start Loop)\<rparr> else w)"

text \<open>
  \<open>Acceptor::Init\<close> throws when it cannot listen. \<open>NetModule::Listen\<close> posts the function that accepts
  for the acceptor of that number. \<open>App_Listen\<close> is \<open>Listen\<close> of the two protocol modules.
\<close>

definition Acceptor_Init :: "app_env \<Rightarrow> string \<Rightarrow> string \<Rightarrow> u16 \<Rightarrow> (string \<times> string \<times> u16) option" where
  "Acceptor_Init env owner Ip port = (if envCanListen env Ip port then Some (owner, Ip, port) else None)"

definition Net_Listen :: "string \<times> string \<times> u16 \<Rightarrow> app_world \<Rightarrow> app_world" where
  "Net_Listen pAcceptor w =
     w\<lparr>apListenLoop := map_option (Loop_Exec (length (apAcceptors w))) (apListenLoop w), apAcceptors := apAcceptors w @ [pAcceptor]\<rparr>"

definition App_Listen :: "app_env \<Rightarrow> string \<Rightarrow> string \<Rightarrow> int32 \<Rightarrow> app_world \<Rightarrow> app_world option" where
  "App_Listen env owner strAddress nPort w =
     Option.bind (deref owner ''NetModule'' w) (\<lambda>w.
       let w = GetDefaultListenLoop w
       in map_option (\<lambda>pAcceptor. Net_Listen pAcceptor w) (Acceptor_Init env owner strAddress (word_of_int nPort)))"

text \<open>
  \<open>Connect\<close> of the protocol modules: a static counter picks the loop of the session; \<open>None\<close>
  dereferences the null loop of an empty pool. A sequence of connects, each with or without the two
  callbacks.
\<close>

definition App_Connect :: "nat pool \<Rightarrow> bool \<Rightarrow> bool \<Rightarrow> size_t \<times> net_module \<Rightarrow> (size_t \<times> net_module) option" where
  "App_Connect loops hasConnectCb hasCloseCb s =
     (case s of (cnt, net) \<Rightarrow>
        (case GetLoop cnt loops of None \<Rightarrow> None | Some l \<Rightarrow> Some (cnt + 1, Connect l hasConnectCb hasCloseCb net)))"

fun pool_connects :: "nat pool \<Rightarrow> (bool \<times> bool) list \<Rightarrow> size_t \<times> net_module \<Rightarrow> (size_t \<times> net_module) option" where
  "pool_connects loops [] s = Some s"
| "pool_connects loops ((hasConnectCb, hasCloseCb) # cs) s = Option.bind (App_Connect loops hasConnectCb hasCloseCb s) (pool_connects loops cs)"

text \<open>The sessions are dealt to the loops of a pool in turn, until the counter wraps.\<close>

lemma connects_in_turn:
  assumes "pool_connects loops cs (cnt, net) = Some (cnt', net')" "unat cnt + length cs < 2 ^ 64" "i < length cs"
  shows "nsLoop (nmSession net' (nmObjects net + i)) = (unat cnt + i) mod length loops"
proof -
  have old: "nmObjects net \<le> nmObjects net' \<and> (\<forall>p < nmObjects net. nmSession net' p = nmSession net p)"
    if "pool_connects loops cs (cnt, net) = Some (cnt', net')" for cs cnt net
    using that
  proof (induction cs arbitrary: cnt net)
    case (Cons c cs)
    obtain a b where c: "c = (a, b)" by (cases c)
    obtain l where "GetLoop cnt loops = Some l" "pool_connects loops cs (cnt + 1, Connect l a b net) = Some (cnt', net')"
      using Cons.prems by (auto simp: c App_Connect_def split: option.splits)
    with Cons.IH show ?case by (force simp: Connect_def new_session_def set_session_def post_main_def)
  qed simp
  show ?thesis
    using assms
  proof (induction cs arbitrary: cnt net i)
    case (Cons c cs)
    obtain a b where c: "c = (a, b)" by (cases c)
    obtain l where l: "GetLoop cnt loops = Some l" "pool_connects loops cs (cnt + 1, Connect l a b net) = Some (cnt', net')"
      using Cons.prems(1) by (auto simp: c App_Connect_def split: option.splits)
    have objects: "nmObjects (Connect l a b net) = nmObjects net + 1" "nsLoop (nmSession (Connect l a b net) (nmObjects net)) = l"
      by (simp_all add: Connect_def new_session_def set_session_def post_main_def)
    have cnt: "unat (cnt + 1) = unat cnt + 1" if "cs \<noteq> [] \<or> True" using Cons.prems(2) by (simp add: unat_plus_simple [THEN iffD1] no_olen_add_nat unat_word_ariths)
    show ?case
    proof (cases i)
      case 0
      with l(1) old [OF l(2)] objects show ?thesis by (simp add: GetLoop_def split: if_splits)
    next
      case (Suc j)
      with Cons.IH [OF l(2), of j] Cons.prems(2,3) cnt objects(1) show ?thesis by simp
    qed
  qed simp
qed

section \<open>Hooks of the modules\<close>

definition App_Log_BeforeInit :: "app_world \<Rightarrow> app_world option" where
  "App_Log_BeforeInit w = Some (w\<lparr>apLog := Log_BeforeInit (apLog w)\<rparr>)"

definition App_Xml_BeforeInit :: "app_env \<Rightarrow> app_world \<Rightarrow> app_world option" where
  "App_Xml_BeforeInit env w = Some (w\<lparr>apXml := XmlConfig_BeforeInit (envServerList env) (envDataBase env) (apXml w)\<rparr>)"

definition App_Net_OnInit :: "app_world \<Rightarrow> app_world option" where
  "App_Net_OnInit w = Some (w\<lparr>apListenLoop := map_option Loop_Start (apListenLoop w)\<rparr>)"

text \<open>\<open>NetPbModule\<close>, and \<open>ClientPbModule\<close> that inherits from it.\<close>

definition App_NetPb_BeforeInit :: "string \<Rightarrow> app_world \<Rightarrow> app_world option" where
  "App_NetPb_BeforeInit owner w =
     (let w = FIND_MODULE owner ''XmlConfigModule'' (FIND_MODULE owner ''ServiceGovernmentModule'' (FIND_MODULE owner ''NetModule'' w))
      in Some (w\<lparr>apPools := (apPools w)(owner \<mapsto> [])\<rparr>))"

definition my_row :: "app_world \<Rightarrow> server_list_config_data option" where
  "my_row w = GetServerListConfigDataById (siServerConfigId (gvMineServerInfo (apGov w))) (apXml w)"

definition start_pool :: "string \<Rightarrow> nat \<Rightarrow> app_world \<Rightarrow> app_world option" where
  "start_pool owner n w =
     (case apPools w owner of None \<Rightarrow> None | Some loops \<Rightarrow> Some (w\<lparr>apPools := (apPools w)(owner \<mapsto> Pool_Start id n loops)\<rparr>))"

definition App_NetPb_OnInit :: "string \<Rightarrow> app_world \<Rightarrow> app_world option" where
  "App_NetPb_OnInit owner w =
     Option.bind (deref owner ''ServiceGovernmentModule'' w) (\<lambda>w.
     Option.bind (deref owner ''XmlConfigModule'' w) (\<lambda>w.
       start_pool owner (case my_row w of Some d \<Rightarrow> nat (max (slNetThreadsNum d) 1) | None \<Rightarrow> 1) w))"

text \<open>
  The thread number is converted to \<open>std::size_t\<close>: a negative one is beyond what a vector can hold.
  The port is not initialised where the address has none; the address is then empty.
\<close>

definition App_NetHttp_OnInit :: "app_env \<Rightarrow> app_world \<Rightarrow> app_world option" where
  "App_NetHttp_OnInit env w =
     Option.bind (deref ''NetHttpModule'' ''ServiceGovernmentModule'' w) (\<lambda>w.
     Option.bind (deref ''NetHttpModule'' ''XmlConfigModule'' w) (\<lambda>w.
       case my_row w of
         None \<Rightarrow> Some w
       | Some d \<Rightarrow>
           if slHttpThreadsNum d < 0 then None
           else Option.bind (start_pool ''NetHttpModule'' (nat (slHttpThreadsNum d)) w) (\<lambda>w.
             case AddressToIpPort (slHttpIp d) [] 0 of (_, strIp, nPort) \<Rightarrow> App_Listen env ''NetHttpModule'' strIp nPort w)))"

definition App_Db_BeforeInit :: "app_env \<Rightarrow> app_world \<Rightarrow> app_world option" where
  "App_Db_BeforeInit env w =
     (let w = FIND_MODULE ''DBModule'' ''ServiceGovernmentModule'' (FIND_MODULE ''DBModule'' ''XmlConfigModule'' w)
      in Option.bind (deref ''DBModule'' ''XmlConfigModule'' w) (\<lambda>w.
         Option.bind (deref ''DBModule'' ''ServiceGovernmentModule'' w) (\<lambda>w.
           map_option (\<lambda>r. w\<lparr>apRocks := r\<rparr>) (Rocks_BeforeInit (envCanOpen env) (apXml w) (apGov w) (apRocks w)))))"

definition App_Gov_BeforeInit :: "app_env \<Rightarrow> app_world \<Rightarrow> app_world option" where
  "App_Gov_BeforeInit env w =
     (let me = ''ServiceGovernmentModule'';
          w = FIND_MODULE me ''XmlConfigModule'' (FIND_MODULE me ''RpcModule'' (FIND_MODULE me ''NetPbModule'' (FIND_MODULE me ''NetModule'' w)))
      in Option.bind (deref me ''NetPbModule'' w) (\<lambda>w.
         Option.bind (deref me ''XmlConfigModule'' w) (\<lambda>w.
           Some (w\<lparr>apGov := InitConfig (envIterate env (mapServerListConfigData (apXml w))) (apGov w)\<rparr>))))"

text \<open>\<open>Connect\<close> dereferences the loop \<open>GetLoop\<close> returns, which is null for an empty pool.\<close>

definition App_Gov_OnInit :: "app_env \<Rightarrow> app_world \<Rightarrow> app_world option" where
  "App_Gov_OnInit env w =
     (let me = ''ServiceGovernmentModule''; mine = gvMineServerInfo (apGov w);
          connects = (\<exists>(_, m) \<in> set (gvConnectServerList (apGov w)). m \<noteq> [])
      in Option.bind (if siServerIp mine = [] \<or> siPort mine = 0 then Some w
                      else Option.bind (deref me ''NetPbModule'' w) (App_Listen env ''NetPbModule'' (siServerIp mine) (siPort mine))) (\<lambda>w.
         Option.bind (if connects then Option.bind (deref me ''NetPbModule'' w) (deref ''NetPbModule'' ''NetModule'') else Some w) (\<lambda>w.
           if connects \<and> (apPools w ''NetPbModule'' = None \<or> apPools w ''NetPbModule'' = Some []) then None
           else Some (w\<lparr>apGov := Gov_OnInit (apGov w)\<rparr>))))"

definition App_Rpc_BeforeInit :: "app_world \<Rightarrow> app_world option" where
  "App_Rpc_BeforeInit w = Some (FIND_MODULE ''RpcModule'' ''NetPbModule'' w)"

definition App_ClientPb_BeforeInit :: "app_world \<Rightarrow> app_world option" where
  "App_ClientPb_BeforeInit w = map_option (FIND_MODULE ''ClientPbModule'' ''RpcModule'') (App_NetPb_BeforeInit ''ClientPbModule'' w)"

definition App_ClientPb_OnInit :: "app_env \<Rightarrow> app_world \<Rightarrow> app_world option" where
  "App_ClientPb_OnInit env w =
     Option.bind (App_NetPb_OnInit ''ClientPbModule'' w) (\<lambda>w.
     Option.bind (deref ''ClientPbModule'' ''ServiceGovernmentModule'' w) (\<lambda>w.
       App_Listen env ''ClientPbModule'' (gvPublicIp (apGov w)) (gvPublicPort (apGov w)) w))"

definition App_Player_BeforeInit :: "app_world \<Rightarrow> app_world option" where
  "App_Player_BeforeInit w =
     (let me = ''PlayerManagerModule'' in
      deref me ''NetPbModule'' (FIND_MODULE me ''ServiceGovernmentModule'' (FIND_MODULE me ''NetPbModule'' (FIND_MODULE me ''RpcModule'' w))))"

definition App_DbExec_BeforeInit :: "app_world \<Rightarrow> app_world option" where
  "App_DbExec_BeforeInit w =
     (let me = ''DBExecModule'' in deref me ''NetPbModule'' (FIND_MODULE me ''DBModule'' (FIND_MODULE me ''NetPbModule'' w)))"

definition App_ClientManager_BeforeInit :: "app_world \<Rightarrow> app_world option" where
  "App_ClientManager_BeforeInit w =
     (let me = ''ClientManagerModule'' in
      Some (FIND_MODULE me ''ServiceGovernmentModule'' (FIND_MODULE me ''NetPbModule'' (FIND_MODULE me ''NetModule'' (FIND_MODULE me ''RpcModule'' w)))))"

text \<open>The coroutine starts with a timer on the loop of the current thread.\<close>

definition App_ClientManager_OnInit :: "app_world \<Rightarrow> app_world option" where
  "App_ClientManager_OnInit w = (if apCurrentLoop w then Some (w\<lparr>apTestClient := True\<rparr>) else None)"

fun app_hook :: "app_env \<Rightarrow> hook \<Rightarrow> string \<Rightarrow> app_world \<Rightarrow> app_world option" where
  "app_hook env BeforeInit m w =
     (if m = ''LogModule'' then App_Log_BeforeInit w
      else if m = ''XmlConfigModule'' then App_Xml_BeforeInit env w
      else if m = ''NetPbModule'' \<or> m = ''NetHttpModule'' then App_NetPb_BeforeInit m w
      else if m = ''DBModule'' then App_Db_BeforeInit env w
      else if m = ''ServiceGovernmentModule'' then App_Gov_BeforeInit env w
      else if m = ''RpcModule'' then App_Rpc_BeforeInit w
      else if m = ''ClientPbModule'' then App_ClientPb_BeforeInit w
      else if m = ''PlayerManagerModule'' then App_Player_BeforeInit w
      else if m = ''DBExecModule'' then App_DbExec_BeforeInit w
      else if m = ''ClientManagerModule'' then App_ClientManager_BeforeInit w
      else Some w)"
| "app_hook env OnInit m w =
     (if m = ''NetModule'' then App_Net_OnInit w
      else if m = ''NetPbModule'' then App_NetPb_OnInit m w
      else if m = ''NetHttpModule'' then App_NetHttp_OnInit env w
      else if m = ''ServiceGovernmentModule'' then App_Gov_OnInit env w
      else if m = ''ClientPbModule'' then App_ClientPb_OnInit env w
      else if m = ''ClientManagerModule'' then App_ClientManager_OnInit w
      else Some w)"
| "app_hook env _ m w = Some w"

section \<open>The programs\<close>

definition main_index :: "string list \<Rightarrow> int32" where
  "main_index argv = (if length argv > 1 then atoi (argv ! 1) else 1)"

text \<open>The name and type a server gives itself; the test client gives none.\<close>

fun app_server :: "server_app \<Rightarrow> (string \<times> int32) option" where
  "app_server GateServerApp = Some (''GateServer'', GateServer)"
| "app_server LogicServerApp = Some (''LogicServer'', LogicServer)"
| "app_server DBServerApp = Some (''DBServer'', DBServer)"
| "app_server ClientTestApp = None"

text \<open>The modules each program registers, in order.\<close>

definition gate_modules :: "string list" where [simp]:
  "gate_modules =
     [''LogModule'', ''XmlConfigModule'', ''NetModule'', ''NetPbModule'', ''NetHttpModule'', ''ServiceGovernmentModule'',
      ''RpcModule'', ''ClientPbModule'']"

definition logic_modules :: "string list" where [simp]:
  "logic_modules =
     [''LogModule'', ''XmlConfigModule'', ''NetModule'', ''NetPbModule'', ''ServiceGovernmentModule'',
      ''RpcModule'', ''PlayerManagerModule'']"

definition db_modules :: "string list" where [simp]:
  "db_modules =
     [''LogModule'', ''XmlConfigModule'', ''NetModule'', ''NetPbModule'', ''DBModule'', ''ServiceGovernmentModule'',
      ''RpcModule'', ''DBExecModule'']"

definition client_modules :: "string list" where [simp]:
  "client_modules =
     [''LogModule'', ''XmlConfigModule'', ''NetModule'', ''NetPbModule'', ''ServiceGovernmentModule'',
      ''RpcModule'', ''ClientManagerModule'']"

fun app_modules :: "server_app \<Rightarrow> string list" where
  "app_modules GateServerApp = gate_modules"
| "app_modules LogicServerApp = logic_modules"
| "app_modules DBServerApp = db_modules"
| "app_modules ClientTestApp = client_modules"

definition App_RegisterModule :: "server_app \<Rightarrow> app_world \<Rightarrow> app_world" where
  "App_RegisterModule app w = w\<lparr>apManager := register_all (map (\<lambda>m. (m, m)) (app_modules app)) (apManager w)\<rparr>"

definition App_Init :: "app_env \<Rightarrow> app_world \<Rightarrow> app_world option" where
  "App_Init env w = Init (\<lambda>h m w. Option.bind w (app_hook env h m)) (apManager w) (Some (w\<lparr>apCurrentLoop := True\<rparr>))"

definition InitModule :: "app_env \<Rightarrow> server_app \<Rightarrow> int32 \<Rightarrow> app_world \<Rightarrow> app_world option" where
  "InitModule env app nServerIndex w =
     Option.bind
       (case app_server app of
          None \<Rightarrow> Some (w, ''TestClient'')
        | Some (name, nType) \<Rightarrow>
            if FindModule ''ServiceGovernmentModule'' (apManager w) = None then None
            else Some (w\<lparr>apGov := SetServerInstance name nType (word_of_int nServerIndex) (apGov w)\<rparr>, name))
       (\<lambda>(w, name).
          if FindModule ''LogModule'' (apManager w) = None then None
          else App_Init env (w\<lparr>apLog := SetLogName (name @ to_string nServerIndex) (apLog w)\<rparr>))"

definition App_Run :: "app_world \<Rightarrow> app_world" where
  "App_Run w = w\<lparr>apManager := Run (apManager w)\<rparr>"

text \<open>\<open>Start\<close> up to the run of the main loop, which ends with the signal handler's \<open>Stop\<close>.\<close>

definition App_Start :: "app_env \<Rightarrow> server_app \<Rightarrow> int32 \<Rightarrow> app_world option" where
  "App_Start env app nServerIndex =
     map_option App_Run (InitModule env app nServerIndex (App_RegisterModule app (app_initial env)))"

definition SignalHandle :: "int \<Rightarrow> app_world \<Rightarrow> app_world" where
  "SignalHandle sig w = w\<lparr>apManager := Stop (apManager w)\<rparr>"

section \<open>Starting\<close>

definition app_xml :: "app_env \<Rightarrow> xml_config_module" where
  "app_xml env = XmlConfig_BeforeInit (envServerList env) (envDataBase env)
     \<lparr>mapServerListConfigData = Map.empty, mapDataBaseConfigData = Map.empty\<rparr>"

definition app_identity :: "server_app \<Rightarrow> int32 \<Rightarrow> gov" where
  "app_identity app i =
     (case app_server app of None \<Rightarrow> ServiceGovernmentModule
      | Some (name, nType) \<Rightarrow> SetServerInstance name nType (word_of_int i) ServiceGovernmentModule)"

definition app_gov :: "app_env \<Rightarrow> server_app \<Rightarrow> int32 \<Rightarrow> gov" where
  "app_gov env app i = InitConfig (envIterate env (mapServerListConfigData (app_xml env))) (app_identity app i)"

definition app_row :: "app_env \<Rightarrow> server_app \<Rightarrow> int32 \<Rightarrow> server_list_config_data option" where
  "app_row env app i = GetServerListConfigDataById (siServerConfigId (gvMineServerInfo (app_gov env app i))) (app_xml env)"

lemma register_app:
  "vecModules (apManager (App_RegisterModule app (app_initial env))) = map (\<lambda>m. (m, m)) (app_modules app)"
  by (cases app) (simp_all add: App_RegisterModule_def app_initial_def ModuleManager_def register_all_def RegisterModule_def)

lemma find_app:
  assumes "vecModules m = map (\<lambda>m. (m, m)) (app_modules app)"
  shows "FindModule n m = (if n \<in> set (app_modules app) then Some n else None)"
  unfolding FindModule_def assms by (cases app) simp_all

text \<open>The look-ups of the modules of a program, in the order they run.\<close>

definition pb_lookups :: "string \<Rightarrow> (string \<times> string) list" where
  "pb_lookups m = [(m, ''NetModule''), (m, ''ServiceGovernmentModule''), (m, ''XmlConfigModule'')]"

definition gov_lookups :: "(string \<times> string) list" where
  "gov_lookups = map (Pair ''ServiceGovernmentModule'') [''NetModule'', ''NetPbModule'', ''RpcModule'', ''XmlConfigModule''] @
     [(''RpcModule'', ''NetPbModule'')]"

fun app_lookups :: "server_app \<Rightarrow> (string \<times> string) list" where
  "app_lookups GateServerApp = pb_lookups ''NetPbModule'' @ pb_lookups ''NetHttpModule'' @ gov_lookups @
     pb_lookups ''ClientPbModule'' @ [(''ClientPbModule'', ''RpcModule'')]"
| "app_lookups LogicServerApp = pb_lookups ''NetPbModule'' @ gov_lookups @
     map (Pair ''PlayerManagerModule'') [''RpcModule'', ''NetPbModule'', ''ServiceGovernmentModule'']"
| "app_lookups DBServerApp = pb_lookups ''NetPbModule'' @ map (Pair ''DBModule'') [''XmlConfigModule'', ''ServiceGovernmentModule''] @
     gov_lookups @ map (Pair ''DBExecModule'') [''NetPbModule'', ''DBModule'']"
| "app_lookups ClientTestApp = pb_lookups ''NetPbModule'' @ gov_lookups @
     map (Pair ''ClientManagerModule'') [''RpcModule'', ''NetModule'', ''NetPbModule'', ''ServiceGovernmentModule'']"

definition found_all :: "(string \<times> string) list \<Rightarrow> string \<times> string \<rightharpoonup> string option" where
  "found_all ps = fold (\<lambda>p f. f(p \<mapsto> Some (snd p))) ps Map.empty"

lemma found_all_eq: "found_all ps p = (if p \<in> set ps then Some (Some (snd p)) else None)"
proof -
  have "fold (\<lambda>p f. f(p \<mapsto> Some (snd p))) ps f p = (if p \<in> set ps then Some (Some (snd p)) else f p)" for f
    by (induction ps arbitrary: f) auto
  then show ?thesis by (simp add: found_all_def)
qed

definition app_rocks :: "app_env \<Rightarrow> server_app \<Rightarrow> int32 \<Rightarrow> rocks_module option" where
  "app_rocks env app i =
     (if app = DBServerApp then Rocks_BeforeInit (envCanOpen env) (app_xml env) (app_identity app i) (RocksDBModule (envFiles env))
      else Some (RocksDBModule (envFiles env)))"

fun app_pools :: "server_app \<Rightarrow> string \<rightharpoonup> nat pool" where
  "app_pools GateServerApp = [''NetPbModule'' \<mapsto> [], ''NetHttpModule'' \<mapsto> [], ''ClientPbModule'' \<mapsto> []]"
| "app_pools _ = [''NetPbModule'' \<mapsto> []]"

definition app_log_name :: "server_app \<Rightarrow> int32 \<Rightarrow> string" where
  "app_log_name app i = (case app_server app of None \<Rightarrow> ''TestClient'' | Some (name, _) \<Rightarrow> name) @ to_string i"

definition app_named :: "app_env \<Rightarrow> server_app \<Rightarrow> int32 \<Rightarrow> app_world" where
  "app_named env app i = (App_RegisterModule app (app_initial env))
     \<lparr>apGov := app_identity app i, apLog := SetLogName (app_log_name app i) LogModule, apCurrentLoop := True\<rparr>"

definition app_ready :: "app_env \<Rightarrow> server_app \<Rightarrow> int32 \<Rightarrow> rocks_module \<Rightarrow> app_world" where
  "app_ready env app i r = (app_named env app i)
     \<lparr>apLog := Log_BeforeInit (SetLogName (app_log_name app i) LogModule), apXml := app_xml env, apGov := app_gov env app i,
      apPools := app_pools app, apPointers := found_all (app_lookups app), apRocks := r\<rparr>"

definition app_phase :: "app_env \<Rightarrow> server_app \<Rightarrow> hook \<Rightarrow> app_world option \<Rightarrow> app_world option" where
  "app_phase env app h = for_modules (\<lambda>h m w. Option.bind w (app_hook env h m)) h (map (\<lambda>m. (m, m)) (app_modules app))"

lemma App_Start_phases:
  "App_Start env app i =
     map_option App_Run (app_phase env app AfterInit (app_phase env app OnInit (app_phase env app BeforeInit (Some (app_named env app i)))))"
proof -
  have *: "FindModule ''ServiceGovernmentModule'' (apManager (App_RegisterModule app (app_initial env))) = Some ''ServiceGovernmentModule''"
    "FindModule ''LogModule'' (apManager (App_RegisterModule app (app_initial env))) = Some ''LogModule''"
    by (cases app; simp add: find_app [OF register_app])+
  have **: "apGov (App_RegisterModule app (app_initial env)) = ServiceGovernmentModule"
    "apLog (App_RegisterModule app (app_initial env)) = LogModule"
    by (simp_all add: App_RegisterModule_def app_initial_def)
  from this(1) have eq: "(App_RegisterModule app (app_initial env))\<lparr>apGov := ServiceGovernmentModule\<rparr> = App_RegisterModule app (app_initial env)"
    by (intro app_world.equality) simp_all
  have "InitModule env app i (App_RegisterModule app (app_initial env)) =
      App_Init env ((App_RegisterModule app (app_initial env))\<lparr>apGov := app_identity app i, apLog := SetLogName (app_log_name app i) LogModule\<rparr>)"
  proof (cases "app_server app")
    case None
    then have "app_identity app i = ServiceGovernmentModule" by (simp add: app_identity_def)
    then show ?thesis
      unfolding \<open>app_identity app i = _\<close> eq using None * **
      by (simp add: InitModule_def app_log_name_def)
  next
    case (Some p)
    then show ?thesis by (cases p) (simp add: InitModule_def app_identity_def app_log_name_def * **)
  qed
  then show ?thesis
    using register_app [of app env] by (simp add: App_Start_def App_Init_def Init_def app_phase_def app_named_def)
qed

lemmas before_hooks = App_Log_BeforeInit_def App_Xml_BeforeInit_def App_NetPb_BeforeInit_def App_Gov_BeforeInit_def App_Rpc_BeforeInit_def
  App_Db_BeforeInit_def App_DbExec_BeforeInit_def App_ClientManager_BeforeInit_def App_ClientPb_BeforeInit_def
  App_Player_BeforeInit_def FIND_MODULE_def deref_def app_pointer_def

lemma named_simps:
  "FindModule n (apManager (app_named env app i)) = (if n \<in> set (app_modules app) then Some n else None)"
  "apPointers (app_named env app i) = Map.empty" "apPools (app_named env app i) = Map.empty"
  "apLog (app_named env app i) = SetLogName (app_log_name app i) LogModule" "apGov (app_named env app i) = app_identity app i"
  "apXml (app_named env app i) = \<lparr>mapServerListConfigData = Map.empty, mapDataBaseConfigData = Map.empty\<rparr>"
  "apRocks (app_named env app i) = RocksDBModule (envFiles env)"
  using find_app [OF register_app] by (simp_all add: app_named_def App_RegisterModule_def app_initial_def)

lemma before_phase:
  "app_phase env app BeforeInit (Some (app_named env app i)) = map_option (app_ready env app i) (app_rocks env app i)"
proof (cases app)
  case GateServerApp
  show ?thesis
    unfolding app_phase_def for_modules_def GateServerApp app_ready_def
    by (simp add: named_simps before_hooks Let_def app_rocks_def found_all_def pb_lookups_def gov_lookups_def
        flip: app_xml_def app_gov_def)
next
  case LogicServerApp
  show ?thesis
    unfolding app_phase_def for_modules_def LogicServerApp app_ready_def
    by (simp add: named_simps before_hooks Let_def app_rocks_def found_all_def pb_lookups_def gov_lookups_def
        flip: app_xml_def app_gov_def)
next
  case DBServerApp
  show ?thesis
    unfolding app_phase_def for_modules_def DBServerApp app_ready_def
    by (cases "Rocks_BeforeInit (envCanOpen env) (app_xml env) (app_identity DBServerApp i) (RocksDBModule (envFiles env))")
      (simp_all add: named_simps before_hooks Let_def app_rocks_def found_all_def pb_lookups_def gov_lookups_def
        flip: app_xml_def app_gov_def)
next
  case ClientTestApp
  show ?thesis
    unfolding app_phase_def for_modules_def ClientTestApp app_ready_def
    by (simp add: named_simps before_hooks Let_def app_rocks_def found_all_def pb_lookups_def gov_lookups_def
        flip: app_xml_def app_gov_def)
qed

text \<open>A listening socket more.\<close>

definition add_acceptor :: "string \<Rightarrow> string \<Rightarrow> int32 \<Rightarrow> app_world \<Rightarrow> app_world" where
  "add_acceptor owner ip port w = Net_Listen (owner, ip, word_of_int port) (GetDefaultListenLoop w)"

lemma add_acceptor_simps [simp]:
  "apManager (add_acceptor owner ip port w) = apManager w" "apPointers (add_acceptor owner ip port w) = apPointers w"
  "apCurrentLoop (add_acceptor owner ip port w) = apCurrentLoop w" "apLog (add_acceptor owner ip port w) = apLog w"
  "apXml (add_acceptor owner ip port w) = apXml w" "apGov (add_acceptor owner ip port w) = apGov w"
  "apRocks (add_acceptor owner ip port w) = apRocks w" "apPools (add_acceptor owner ip port w) = apPools w"
  "apAcceptors (add_acceptor owner ip port w) = apAcceptors w @ [(owner, ip, word_of_int port)]"
  "apTestClient (add_acceptor owner ip port w) = apTestClient w"
  by (simp_all add: add_acceptor_def GetDefaultListenLoop_def Net_Listen_def)

lemma App_Listen_eq:
  "app_pointer owner ''NetModule'' w \<noteq> None \<Longrightarrow> App_Listen env owner ip port w =
     (if envCanListen env ip (word_of_int port) then Some (add_acceptor owner ip port w) else None)"
  by (auto simp: App_Listen_def Acceptor_Init_def deref_def add_acceptor_def Let_def)

lemma ready_pointer: "apPointers w = found_all ps \<Longrightarrow> app_pointer owner name w = (if (owner, name) \<in> set ps then Some name else None)"
  by (simp add: app_pointer_def found_all_eq)

text \<open>What a server listens on, and whether it starts.\<close>

definition http_listen :: "app_env \<Rightarrow> server_app \<Rightarrow> int32 \<Rightarrow> (string \<times> string \<times> int32) list" where
  "http_listen env app i =
     (if app \<noteq> GateServerApp then []
      else case app_row env app i of None \<Rightarrow> []
      | Some d \<Rightarrow> [(''NetHttpModule'', snd (AddressToIpPort (slHttpIp d) [] 0))])"

definition server_listen :: "app_env \<Rightarrow> server_app \<Rightarrow> int32 \<Rightarrow> (string \<times> string \<times> int32) list" where
  "server_listen env app i =
     (let mine = gvMineServerInfo (app_gov env app i)
      in if siServerIp mine = [] \<or> siPort mine = 0 then [] else [(''NetPbModule'', siServerIp mine, siPort mine)])"

definition public_listen :: "app_env \<Rightarrow> server_app \<Rightarrow> int32 \<Rightarrow> (string \<times> string \<times> int32) list" where
  "public_listen env app i =
     (if app \<noteq> GateServerApp then [] else [(''ClientPbModule'', gvPublicIp (app_gov env app i), gvPublicPort (app_gov env app i))])"

definition app_listen :: "app_env \<Rightarrow> server_app \<Rightarrow> int32 \<Rightarrow> (string \<times> string \<times> int32) list" where
  "app_listen env app i = http_listen env app i @ server_listen env app i @ public_listen env app i"

definition app_can_start :: "app_env \<Rightarrow> server_app \<Rightarrow> int32 \<Rightarrow> bool" where
  "app_can_start env app i \<longleftrightarrow>
     app_rocks env app i \<noteq> None \<and>
     list_all (\<lambda>(_, ip, port). envCanListen env ip (word_of_int port)) (app_listen env app i) \<and>
     (case app_row env app i of None \<Rightarrow> True | Some d \<Rightarrow> app \<noteq> GateServerApp \<or> 0 \<le> slHttpThreadsNum d)"

lemma ready_simps:
  "apPointers (app_ready env app i r) = found_all (app_lookups app)" "apPools (app_ready env app i r) = app_pools app"
  "apGov (app_ready env app i r) = app_gov env app i" "apXml (app_ready env app i r) = app_xml env"
  "apRocks (app_ready env app i r) = r" "apListenLoop (app_ready env app i r) = None" "apAcceptors (app_ready env app i r) = []"
  "apCurrentLoop (app_ready env app i r)" "apLog (app_ready env app i r) = Log_BeforeInit (SetLogName (app_log_name app i) LogModule)"
  by (simp_all add: app_ready_def app_named_def App_RegisterModule_def app_initial_def)

lemma net_on_init: "apListenLoop w = None \<Longrightarrow> App_Net_OnInit w = Some w"
  by (simp add: App_Net_OnInit_def)

lemma lookups:
  "(''NetPbModule'', ''ServiceGovernmentModule'') \<in> set (app_lookups app)" "(''NetPbModule'', ''XmlConfigModule'') \<in> set (app_lookups app)"
  "(''NetPbModule'', ''NetModule'') \<in> set (app_lookups app)" "(''ServiceGovernmentModule'', ''NetPbModule'') \<in> set (app_lookups app)"
  by (cases app; simp add: pb_lookups_def gov_lookups_def)+

definition row_threads :: "app_env \<Rightarrow> server_app \<Rightarrow> int32 \<Rightarrow> nat" where
  "row_threads env app i = (case app_row env app i of Some d \<Rightarrow> nat (max (slNetThreadsNum d) 1) | None \<Rightarrow> 1)"

lemma pb_on_init:
  assumes "apPointers w = found_all (app_lookups app)" "apGov w = app_gov env app i" "apXml w = app_xml env"
    "(owner, ''ServiceGovernmentModule'') \<in> set (app_lookups app)" "(owner, ''XmlConfigModule'') \<in> set (app_lookups app)" "apPools w owner = Some []"
  shows "App_NetPb_OnInit owner w = Some (w\<lparr>apPools := (apPools w)(owner \<mapsto> Pool_Start id (row_threads env app i) [])\<rparr>)"
  using assms by (simp add: App_NetPb_OnInit_def deref_def ready_pointer [OF assms(1)] start_pool_def my_row_def row_threads_def app_row_def)

lemma gov_on_init:
  assumes "apPointers w = found_all (app_lookups app)" "apGov w = app_gov env app i" "apPools w ''NetPbModule'' = Some loops" "loops \<noteq> []"
  shows "App_Gov_OnInit env w =
    (case server_listen env app i of
       [] \<Rightarrow> Some (w\<lparr>apGov := Gov_OnInit (app_gov env app i)\<rparr>)
     | (owner, ip, port) # _ \<Rightarrow>
         if envCanListen env ip (word_of_int port) then Some ((add_acceptor owner ip port w)\<lparr>apGov := Gov_OnInit (app_gov env app i)\<rparr>)
         else None)"
  using assms(2-4)
  by (simp add: App_Gov_OnInit_def server_listen_def App_Listen_eq ready_pointer [OF assms(1)] deref_def lookups Let_def)
    (simp add: app_pointer_def assms(1) found_all_eq lookups)

lemma http_on_init:
  assumes "apPointers w = found_all (app_lookups GateServerApp)" "apGov w = app_gov env GateServerApp i" "apXml w = app_xml env"
    "apPools w ''NetHttpModule'' = Some []"
  shows "App_NetHttp_OnInit env w =
    (case app_row env GateServerApp i of
       None \<Rightarrow> Some w
     | Some d \<Rightarrow>
         (case AddressToIpPort (slHttpIp d) [] 0 of (_, ip, port) \<Rightarrow>
            if 0 \<le> slHttpThreadsNum d \<and> envCanListen env ip (word_of_int port)
            then Some (add_acceptor ''NetHttpModule'' ip port
              (w\<lparr>apPools := (apPools w)(''NetHttpModule'' \<mapsto> Pool_Start id (nat (slHttpThreadsNum d)) [])\<rparr>))
            else None))"
proof -
  have ptr: "app_pointer ''NetHttpModule'' ''NetModule'' w' \<noteq> None" if "apPointers w' = apPointers w" for w'
    using assms(1) that by (simp add: app_pointer_def found_all_eq pb_lookups_def)
  have "app_pointer ''NetHttpModule'' ''ServiceGovernmentModule'' w \<noteq> None" "app_pointer ''NetHttpModule'' ''XmlConfigModule'' w \<noteq> None"
    using assms(1) by (simp_all add: app_pointer_def found_all_eq pb_lookups_def)
  moreover have "my_row w = app_row env GateServerApp i" using assms(2,3) by (simp add: my_row_def app_row_def)
  ultimately show ?thesis
    using assms(4)
    by (auto simp: App_NetHttp_OnInit_def deref_def start_pool_def App_Listen_eq [OF ptr] split: option.split prod.split)
qed

lemma on_init_static:
  "gvMineServerInfo (Gov_OnInit g) = gvMineServerInfo g" "gvPublicIp (Gov_OnInit g) = gvPublicIp g" "gvPublicPort (Gov_OnInit g) = gvPublicPort g"
  by (simp_all add: Gov_OnInit_def InitConnect_eq InitListen_def)

lemma clientpb_on_init:
  assumes "apPointers w = found_all (app_lookups GateServerApp)" "apGov w = Gov_OnInit (app_gov env GateServerApp i)" "apXml w = app_xml env"
    "apPools w ''ClientPbModule'' = Some []"
  shows "App_ClientPb_OnInit env w =
    (if envCanListen env (gvPublicIp (app_gov env GateServerApp i)) (word_of_int (gvPublicPort (app_gov env GateServerApp i)))
     then Some (add_acceptor ''ClientPbModule'' (gvPublicIp (app_gov env GateServerApp i)) (gvPublicPort (app_gov env GateServerApp i))
       (w\<lparr>apPools := (apPools w)(''ClientPbModule'' \<mapsto> Pool_Start id (row_threads env GateServerApp i) [])\<rparr>))
     else None)"
proof -
  have pb: "App_NetPb_OnInit ''ClientPbModule'' w =
      Some (w\<lparr>apPools := (apPools w)(''ClientPbModule'' \<mapsto> Pool_Start id (row_threads env GateServerApp i) [])\<rparr>)"
    using assms
    by (simp add: App_NetPb_OnInit_def deref_def ready_pointer [OF assms(1)] pb_lookups_def start_pool_def my_row_def row_threads_def app_row_def
        on_init_static)
  have ptr: "app_pointer ''ClientPbModule'' ''NetModule'' w' = Some ''NetModule''"
    "app_pointer ''ClientPbModule'' ''ServiceGovernmentModule'' w' = Some ''ServiceGovernmentModule''"
    if "apPointers w' = apPointers w" for w'
    using assms(1) that by (simp_all add: app_pointer_def found_all_eq pb_lookups_def)
  show ?thesis
    using ptr assms(2) by (simp add: App_ClientPb_OnInit_def pb deref_def App_Listen_eq on_init_static)
qed

definition app_running :: "app_env \<Rightarrow> server_app \<Rightarrow> int32 \<Rightarrow> rocks_module \<Rightarrow> app_world \<Rightarrow> bool" where
  "app_running env app i r w \<longleftrightarrow>
     apPointers w = found_all (app_lookups app) \<and> apGov w = Gov_OnInit (app_gov env app i) \<and> apXml w = app_xml env \<and> apRocks w = r \<and>
     apAcceptors w = map (\<lambda>(owner, ip, port). (owner, ip, word_of_int port)) (app_listen env app i) \<and>
     apLog w = Log_BeforeInit (SetLogName (app_log_name app i) LogModule) \<and>
     apPools w ''NetPbModule'' = Some (Pool_Start id (row_threads env app i) [])"

lemma threads_pos: "0 < row_threads env app i"
  by (simp add: row_threads_def max_def split: option.split)

lemma Pool_Start_ok: "0 < n \<Longrightarrow> pool_ok n (Pool_Start id n [])"
  by (auto simp: pool_ok_def Pool_Start_def Let_def Loop_StartWith_def Loop_Start_def Loop_Exec_def Loop_def)

lemma pool_nonempty: "Pool_Start id (row_threads env app i) [] \<noteq> []"
  using Pool_Start_ok [OF threads_pos, of env app i] by (auto simp: pool_ok_def)

lemma server_listen_cases:
  obtains "server_listen env app i = []" | ip port where "server_listen env app i = [(''NetPbModule'', ip, port)]"
proof (cases "siServerIp (gvMineServerInfo (app_gov env app i)) = [] \<or> siPort (gvMineServerInfo (app_gov env app i)) = 0")
  case True
  then show thesis by (intro that(1)) (auto simp: server_listen_def Let_def)
next
  case False
  then show thesis by (intro that(2)) (auto simp: server_listen_def Let_def)
qed

lemma no_rows: "app \<noteq> GateServerApp \<Longrightarrow> http_listen env app i = [] \<and> public_listen env app i = []"
  by (simp add: http_listen_def public_listen_def)

lemma plain_phase:
  assumes "app \<noteq> GateServerApp" "apListenLoop w = None"
  shows "app_phase env app OnInit (Some w) =
    Option.bind (App_NetPb_OnInit ''NetPbModule'' w) (\<lambda>w. Option.bind (App_Gov_OnInit env w) (\<lambda>w.
      if app = ClientTestApp then App_ClientManager_OnInit w else Some w))"
  using assms by (cases app) (simp_all add: app_phase_def for_modules_def net_on_init)

lemma gate_phase:
  assumes "apListenLoop w = None"
  shows "app_phase env GateServerApp OnInit (Some w) =
    Option.bind (App_NetPb_OnInit ''NetPbModule'' w) (\<lambda>w. Option.bind (App_NetHttp_OnInit env w) (\<lambda>w.
      Option.bind (App_Gov_OnInit env w) (App_ClientPb_OnInit env)))"
  using assms by (simp add: app_phase_def for_modules_def net_on_init)

text \<open>The two servers with one port, and the client.\<close>

lemma on_init_plain:
  assumes "app \<noteq> GateServerApp"
  shows "case app_phase env app OnInit (Some (app_ready env app i r)) of
      None \<Rightarrow> \<not> list_all (\<lambda>(_, ip, port). envCanListen env ip (word_of_int port)) (app_listen env app i)
    | Some w \<Rightarrow> list_all (\<lambda>(_, ip, port). envCanListen env ip (word_of_int port)) (app_listen env app i) \<and> app_running env app i r w"
proof -
  define w where "w = app_ready env app i r"
  have w: "apPointers w = found_all (app_lookups app)" "apGov w = app_gov env app i" "apXml w = app_xml env" "apRocks w = r"
    "apListenLoop w = None" "apAcceptors w = []" "apCurrentLoop w" "apLog w = Log_BeforeInit (SetLogName (app_log_name app i) LogModule)"
    by (simp_all add: w_def ready_simps)
  have pool: "apPools w ''NetPbModule'' = Some []" using assms by (cases app) (simp_all add: w_def ready_simps)
  define w1 where "w1 = w\<lparr>apPools := (apPools w)(''NetPbModule'' \<mapsto> Pool_Start id (row_threads env app i) [])\<rparr>"
  have pb: "App_NetPb_OnInit ''NetPbModule'' w = Some w1"
    unfolding w1_def by (rule pb_on_init [OF w(1-3) lookups(1,2) pool])
  have w1: "apPointers w1 = found_all (app_lookups app)" "apGov w1 = app_gov env app i" "apXml w1 = app_xml env" "apRocks w1 = r"
    "apAcceptors w1 = []" "apCurrentLoop w1" "apLog w1 = Log_BeforeInit (SetLogName (app_log_name app i) LogModule)"
    "apPools w1 ''NetPbModule'' = Some (Pool_Start id (row_threads env app i) [])"
    by (simp_all add: w1_def w)
  note gov = gov_on_init [OF w1(1,2,8) pool_nonempty]
  show ?thesis
    using no_rows [OF assms] w1
    by (cases rule: server_listen_cases [of env app i])
      (auto simp: plain_phase [OF assms w(5)] pb gov app_listen_def app_running_def App_ClientManager_OnInit_def simp flip: w_def)
qed

text \<open>The gate has three.\<close>

lemma on_init_gate:
  "case app_phase env GateServerApp OnInit (Some (app_ready env GateServerApp i r)) of
      None \<Rightarrow> \<not> (list_all (\<lambda>(_, ip, port). envCanListen env ip (word_of_int port)) (app_listen env GateServerApp i) \<and>
        (case app_row env GateServerApp i of None \<Rightarrow> True | Some d \<Rightarrow> 0 \<le> slHttpThreadsNum d))
    | Some w \<Rightarrow> list_all (\<lambda>(_, ip, port). envCanListen env ip (word_of_int port)) (app_listen env GateServerApp i) \<and>
        (case app_row env GateServerApp i of None \<Rightarrow> True | Some d \<Rightarrow> 0 \<le> slHttpThreadsNum d) \<and> app_running env GateServerApp i r w"
proof -
  let ?app = GateServerApp
  define w where "w = app_ready env ?app i r"
  have w: "apPointers w = found_all (app_lookups ?app)" "apGov w = app_gov env ?app i" "apXml w = app_xml env" "apRocks w = r"
    "apListenLoop w = None" "apAcceptors w = []" "apCurrentLoop w" "apLog w = Log_BeforeInit (SetLogName (app_log_name ?app i) LogModule)"
    "apPools w = app_pools ?app"
    by (simp_all only: w_def ready_simps)
  define w1 where "w1 = w\<lparr>apPools := (apPools w)(''NetPbModule'' \<mapsto> Pool_Start id (row_threads env ?app i) [])\<rparr>"
  have pb: "App_NetPb_OnInit ''NetPbModule'' w = Some w1"
    unfolding w1_def by (rule pb_on_init [OF w(1-3) lookups(1,2)]) (simp add: w(9))
  have w1: "apPointers w1 = found_all (app_lookups ?app)" "apGov w1 = app_gov env ?app i" "apXml w1 = app_xml env"
    by (simp_all add: w1_def w(1-3) del: app_lookups.simps)
  have pools: "apPools w1 ''NetHttpModule'' = Some []" "apPools w1 ''ClientPbModule'' = Some []"
    "apPools w1 ''NetPbModule'' = Some (Pool_Start id (row_threads env ?app i) [])"
    by (simp_all add: w1_def w(9))
  have rest: "apRocks w1 = r" "apAcceptors w1 = []" "apLog w1 = Log_BeforeInit (SetLogName (app_log_name ?app i) LogModule)"
    by (simp_all add: w1_def w(4,6,8))
  note http = http_on_init [OF w1 pools(1)]
  have tail: "case Option.bind (App_Gov_OnInit env w2) (App_ClientPb_OnInit env) of
      None \<Rightarrow> \<not> list_all (\<lambda>(_, ip, port). envCanListen env ip (word_of_int port)) (server_listen env ?app i @ public_listen env ?app i)
    | Some w' \<Rightarrow> list_all (\<lambda>(_, ip, port). envCanListen env ip (word_of_int port)) (server_listen env ?app i @ public_listen env ?app i) \<and>
        apAcceptors w' = apAcceptors w2 @ map (\<lambda>(owner, ip, port). (owner, ip, word_of_int port)) (server_listen env ?app i @ public_listen env ?app i) \<and>
        apGov w' = Gov_OnInit (app_gov env ?app i) \<and> apPointers w' = apPointers w2 \<and> apXml w' = apXml w2 \<and> apRocks w' = apRocks w2 \<and>
        apLog w' = apLog w2 \<and> apPools w' ''NetPbModule'' = apPools w2 ''NetPbModule''"
    if w2: "apPointers w2 = apPointers w1" "apGov w2 = apGov w1" "apXml w2 = apXml w1"
      "apPools w2 ''NetPbModule'' = apPools w1 ''NetPbModule''" "apPools w2 ''ClientPbModule'' = Some []" for w2
  proof -
    note gov = gov_on_init [OF trans [OF w2(1) w1(1)] trans [OF w2(2) w1(2)] trans [OF w2(4) pools(3)] pool_nonempty]
    have cl: "App_ClientPb_OnInit env w3 =
      (if envCanListen env (gvPublicIp (app_gov env ?app i)) (word_of_int (gvPublicPort (app_gov env ?app i)))
       then Some (add_acceptor ''ClientPbModule'' (gvPublicIp (app_gov env ?app i)) (gvPublicPort (app_gov env ?app i))
         (w3\<lparr>apPools := (apPools w3)(''ClientPbModule'' \<mapsto> Pool_Start id (row_threads env ?app i) [])\<rparr>))
       else None)"
      if "apPointers w3 = apPointers w2" "apGov w3 = Gov_OnInit (app_gov env ?app i)" "apXml w3 = apXml w2" "apPools w3 = apPools w2" for w3
      by (rule clientpb_on_init) (simp_all only: that w2 w1)
    show ?thesis
      by (cases rule: server_listen_cases [of env ?app i]) (simp_all add: gov cl public_listen_def)
  qed
  have phase: "app_phase env ?app OnInit (Some w) =
      Option.bind (App_NetHttp_OnInit env w1) (\<lambda>w2. Option.bind (App_Gov_OnInit env w2) (App_ClientPb_OnInit env))"
    by (simp add: gate_phase w(5) pb)
  show ?thesis
  proof (cases "app_row env ?app i")
    case None
    with tail [of w1] pools(2) rest w1 show ?thesis
      unfolding w_def [symmetric] phase http
      by (simp add: app_listen_def http_listen_def app_running_def pools(3) del: app_lookups.simps split: option.splits)
  next
    case (Some d)
    obtain ok ip port where addr: "AddressToIpPort (slHttpIp d) [] 0 = (ok, ip, port)" by (cases "AddressToIpPort (slHttpIp d) [] 0")
    define w2 where "w2 = add_acceptor ''NetHttpModule'' ip port
      (w1\<lparr>apPools := (apPools w1)(''NetHttpModule'' \<mapsto> Pool_Start id (nat (slHttpThreadsNum d)) [])\<rparr>)"
    have w2: "apPointers w2 = apPointers w1" "apGov w2 = apGov w1" "apXml w2 = apXml w1"
      "apPools w2 ''NetPbModule'' = apPools w1 ''NetPbModule''" "apPools w2 ''ClientPbModule'' = Some []"
      "apAcceptors w2 = [(''NetHttpModule'', ip, word_of_int port)]" "apLog w2 = apLog w1" "apRocks w2 = apRocks w1"
      by (simp_all add: w2_def pools(2) rest(2))
    show ?thesis
    proof (cases "0 \<le> slHttpThreadsNum d \<and> envCanListen env ip (word_of_int port)")
      case True
      then have "App_NetHttp_OnInit env w1 = Some w2" by (simp add: http Some addr w2_def)
      with tail [OF w2(1-5)] True Some rest w1 w2(6-8) show ?thesis
        unfolding w_def [symmetric] phase
        by (simp add: app_listen_def http_listen_def addr app_running_def w2(1-4) pools(3) del: app_lookups.simps split: option.splits)
    next
      case False
      then have "App_NetHttp_OnInit env w1 = None" by (simp add: http Some addr)
      with False Some show ?thesis
        unfolding w_def [symmetric] phase by (auto simp: app_listen_def http_listen_def addr)
    qed
  qed
qed

lemma after_phase: "app_phase env app AfterInit w = w"
proof -
  have "for_modules (\<lambda>h m w. Option.bind w (app_hook env h m)) AfterInit ms w = w" for ms :: "(string \<times> string) list"
    unfolding for_modules_def by (induction ms) simp_all
  then show ?thesis by (simp add: app_phase_def)
qed

lemma none_phase: "app_phase env app h None = None"
proof -
  have "for_modules (\<lambda>h m w. Option.bind w (app_hook env h m)) h ms None = None" for ms :: "(string \<times> string) list"
    unfolding for_modules_def by (induction ms) simp_all
  then show ?thesis by (simp add: app_phase_def)
qed

lemma running_run: "app_running env app i r (App_Run w) = app_running env app i r w"
  by (simp add: app_running_def App_Run_def)


text \<open>A logic server without any table: it has no address to listen on, and starts.\<close>

definition sample_env :: app_env where
  "sample_env = \<lparr>envServerList = \<lparr>doc_loaded = False, doc_root = None\<rparr>, envDataBase = \<lparr>doc_loaded = False, doc_root = None\<rparr>,
     envIterate = (\<lambda>_. []), envFiles = Map.empty, envCanOpen = (\<lambda>_. True), envCanListen = (\<lambda>ip _. ip \<noteq> [])\<rparr>"

lemma sample_gov: "gvMineServerInfo (app_gov sample_env app i) = ServerInstanceInfo" "gvPublicIp (app_gov sample_env app i) = []"
  "app_row sample_env app i = None"
proof -
  have xml: "app_xml sample_env = \<lparr>mapServerListConfigData = Map.empty, mapDataBaseConfigData = Map.empty\<rparr>"
    by (simp add: app_xml_def sample_env_def XmlConfig_BeforeInit_def LoadServerListConfigData_def LoadXmlFile_def)
  show "gvMineServerInfo (app_gov sample_env app i) = ServerInstanceInfo" "gvPublicIp (app_gov sample_env app i) = []"
    by (simp_all add: app_gov_def sample_env_def InitConfig_def app_identity_def SetServerInstance_def ServiceGovernmentModule_def split: option.split)
  show "app_row sample_env app i = None" by (simp add: app_row_def xml GetServerListConfigDataById_def)
qed


end
