(* ===== verification/Loop_Coroutine.thy ===== *)
theory Loop_Coroutine
  imports Cat_Prelude
begin

text \<open>
  Coroutines on loops (common/loop/loop_coroutine.h) and the awaitables of the modules
  (\<open>RpcModule::AwaitableRpcFetchHelper\<close>, \<open>AwaitableRpcRequest\<close>, \<open>AwaitableConnect\<close>). The body of a
  coroutine is a tree: plain code on the shared state, \<open>co_await\<close> of another coroutine or of an
  awaitable, and \<open>co_return\<close>. The frames live in a table, a handle is its index, and a frame says
  where it is suspended; a frame suspended on an awaitable is held by exactly one callback, whose
  run is the step \<open>co_resume\<close>. Loops run in parallel, one coroutine each at a time. Exceptions are
  not modelled (the sources throw none). The result of an awaitable that has none is \<open>void\<close>.
\<close>

section \<open>Bodies and awaitables\<close>

datatype 'o awaitable =
    AwaitableLoopSwitch nat
  | AwaitableExecAfter u32
  | AwaitableExecAfterOnLoop nat u32
  | AwaitableRequest 'o

fun await_ready :: "'o awaitable \<Rightarrow> bool" where
  "await_ready (AwaitableExecAfter millSeconds) = (millSeconds = 0)"
| "await_ready (AwaitableExecAfterOnLoop loop millSeconds) = (millSeconds = 0)"
| "await_ready _ = False"

text \<open>
  The loop a callback runs on: the loop given, the current one for a timer, and the main loop, number
  0, for the answers of remote calls and connects.
\<close>

fun resume_loop :: "nat \<Rightarrow> 'o awaitable \<Rightarrow> nat" where
  "resume_loop current (AwaitableLoopSwitch loop) = loop"
| "resume_loop current (AwaitableExecAfter millSeconds) = current"
| "resume_loop current (AwaitableExecAfterOnLoop loop millSeconds) = loop"
| "resume_loop current (AwaitableRequest request) = 0"

datatype ('s, 'o, 'v) coroutine =
    CoReturn 'v
  | CoDo "'s \<Rightarrow> 's \<times> ('s, 'o, 'v) coroutine"
  | CoCall "('s, 'o, 'v) coroutine" "'v \<Rightarrow> ('s, 'o, 'v) coroutine"
  | CoAwait "'o awaitable" "'v \<Rightarrow> ('s, 'o, 'v) coroutine"

section \<open>Frames\<close>

datatype ('s, 'o, 'v) co_status =
    Active nat "('s, 'o, 'v) coroutine"
  | Pending "'o awaitable" nat "'v \<Rightarrow> ('s, 'o, 'v) coroutine"
  | Reading nat "'v \<Rightarrow> ('s, 'o, 'v) coroutine"
  | Finished

record ('s, 'o, 'v) co_frame =
  frStatus :: "('s, 'o, 'v) co_status"
  frPrevious :: "nat option"
  frResult :: 'v
  frTask :: bool

record ('s, 'o, 'v) co_state =
  coFrames :: "nat \<rightharpoonup> ('s, 'o, 'v) co_frame"
  coNext :: nat
  coShared :: 's

definition co_status_of :: "('s, 'o, 'v) co_state \<Rightarrow> nat \<Rightarrow> ('s, 'o, 'v) co_status option" where
  "co_status_of c h = map_option frStatus (coFrames c h)"

definition set_status :: "nat \<Rightarrow> ('s, 'o, 'v) co_status \<Rightarrow> ('s, 'o, 'v) co_state \<Rightarrow> ('s, 'o, 'v) co_state" where
  "set_status h st c =
     c\<lparr>coFrames := (coFrames c)(h := map_option (\<lambda>f. f\<lparr>frStatus := st\<rparr>) (coFrames c h))\<rparr>"

text \<open>
  Calling a \<open>CoroutineTask\<close> runs it at once (\<open>initial_suspend\<close> never suspends); \<open>operator()\<close> of a
  \<open>CoroutineAsyncTask\<close> does so too, with a frame that outlives it.
\<close>

definition co_start :: "'v \<Rightarrow> bool \<Rightarrow> nat \<Rightarrow> ('s, 'o, 'v) coroutine \<Rightarrow> ('s, 'o, 'v) co_state \<Rightarrow> ('s, 'o, 'v) co_state" where
  "co_start void task loop body c =
     c\<lparr>coFrames := (coFrames c)(coNext c \<mapsto>
          \<lparr>frStatus = Active loop body, frPrevious = None, frResult = void, frTask = task\<rparr>),
       coNext := coNext c + 1\<rparr>"

text \<open>
  \<open>co_await f(...)\<close>: the new frame starts suspended, the awaiter stores the awaiting handle in it and
  transfers to it; \<open>await_resume\<close> will read its result.
\<close>

definition co_call ::
    "'v \<Rightarrow> nat \<Rightarrow> nat \<Rightarrow> ('s, 'o, 'v) coroutine \<Rightarrow> ('v \<Rightarrow> ('s, 'o, 'v) coroutine) \<Rightarrow> ('s, 'o, 'v) co_state \<Rightarrow> ('s, 'o, 'v) co_state" where
  "co_call void h loop body k c =
     (let coro = coNext c; c = set_status h (Reading coro k) c
      in c\<lparr>coFrames := (coFrames c)(coro \<mapsto>
             \<lparr>frStatus = Active loop body, frPrevious = Some h, frResult = void, frTask = False\<rparr>),
           coNext := coro + 1\<rparr>)"

definition co_await ::
    "'v \<Rightarrow> nat \<Rightarrow> nat \<Rightarrow> 'o awaitable \<Rightarrow> ('v \<Rightarrow> ('s, 'o, 'v) coroutine) \<Rightarrow> ('s, 'o, 'v) co_state \<Rightarrow> ('s, 'o, 'v) co_state" where
  "co_await void h loop op k c =
     set_status h (if await_ready op then Active loop (k void) else Pending op (resume_loop loop op) k) c"

definition co_do :: "nat \<Rightarrow> nat \<Rightarrow> ('s \<Rightarrow> 's \<times> ('s, 'o, 'v) coroutine) \<Rightarrow> ('s, 'o, 'v) co_state \<Rightarrow> ('s, 'o, 'v) co_state" where
  "co_do h loop f c = (case f (coShared c) of (s, body) \<Rightarrow> (set_status h (Active loop body) c)\<lparr>coShared := s\<rparr>)"

text \<open>
  \<open>co_return\<close>: the frame of a \<open>CoroutineTask\<close> is destroyed (\<open>final_suspend\<close> never suspends); a
  \<open>CoroutineAsyncTask\<close> stores its result, stays suspended and transfers to the coroutine that awaits
  it, if any.
\<close>

definition co_transfer :: "nat \<Rightarrow> nat \<Rightarrow> ('s, 'o, 'v) co_state \<Rightarrow> ('s, 'o, 'v) co_state" where
  "co_transfer h loop c =
     (case co_status_of c h of
        Some (Reading coro k) \<Rightarrow>
          (case coFrames c coro of None \<Rightarrow> c | Some f \<Rightarrow> set_status h (Active loop (k (frResult f))) c)
      | _ \<Rightarrow> c)"

definition co_return :: "nat \<Rightarrow> nat \<Rightarrow> 'v \<Rightarrow> ('s, 'o, 'v) co_state \<Rightarrow> ('s, 'o, 'v) co_state" where
  "co_return h loop v c =
     (case coFrames c h of
        None \<Rightarrow> c
      | Some f \<Rightarrow>
          if frTask f then c\<lparr>coFrames := (coFrames c)(h := None)\<rparr>
          else let c = c\<lparr>coFrames := (coFrames c)(h \<mapsto> f\<lparr>frStatus := Finished, frResult := v\<rparr>)\<rparr>
               in case frPrevious f of None \<Rightarrow> c | Some previous \<Rightarrow> co_transfer previous loop c)"

text \<open>A callback resumes the handle it holds, with the value of the answer.\<close>

definition co_resume :: "nat \<Rightarrow> nat \<Rightarrow> ('v \<Rightarrow> ('s, 'o, 'v) coroutine) \<Rightarrow> 'v \<Rightarrow> ('s, 'o, 'v) co_state \<Rightarrow> ('s, 'o, 'v) co_state" where
  "co_resume h loop k v c = set_status h (Active loop (k v)) c"

definition loop_idle :: "nat \<Rightarrow> ('s, 'o, 'v) co_state \<Rightarrow> bool" where
  "loop_idle loop c \<longleftrightarrow> (\<forall>h body. co_status_of c h \<noteq> Some (Active loop body))"

text \<open>
  Plain code starts coroutines with the given bodies; \<open>answers\<close> says which values a request can be
  answered with.
\<close>

inductive co_step ::
    "'v \<Rightarrow> ('s, 'o, 'v) coroutine set \<Rightarrow> ('o awaitable \<Rightarrow> 'v \<Rightarrow> bool) \<Rightarrow> ('s, 'o, 'v) co_state \<Rightarrow> ('s, 'o, 'v) co_state \<Rightarrow> bool"
    for void bodies answers where
  Start: "body \<in> bodies \<Longrightarrow> loop_idle loop c \<Longrightarrow> co_step void bodies answers c (co_start void task loop body c)"
| Do: "co_status_of c h = Some (Active loop (CoDo f)) \<Longrightarrow> co_step void bodies answers c (co_do h loop f c)"
| Call: "co_status_of c h = Some (Active loop (CoCall body k)) \<Longrightarrow> co_step void bodies answers c (co_call void h loop body k c)"
| Await: "co_status_of c h = Some (Active loop (CoAwait op k)) \<Longrightarrow> co_step void bodies answers c (co_await void h loop op k c)"
| Resume: "co_status_of c h = Some (Pending op loop k) \<Longrightarrow> loop_idle loop c \<Longrightarrow> answers op v \<Longrightarrow>
    co_step void bodies answers c (co_resume h loop k v c)"
| Return: "co_status_of c h = Some (Active loop (CoReturn v)) \<Longrightarrow> co_step void bodies answers c (co_return h loop v c)"

definition co_initial :: "'s \<Rightarrow> ('s, 'o, 'v) co_state" where
  "co_initial s = \<lparr>coFrames = Map.empty, coNext = 0, coShared = s\<rparr>"

section \<open>Sequential threads\<close>

text \<open>
  What a coroutine is meant to be: a sequential program. Calls are inlined, a thread runs on a loop or
  waits for an answer, and that is all its state.
\<close>

primrec co_bind :: "('s, 'o, 'v) coroutine \<Rightarrow> ('v \<Rightarrow> ('s, 'o, 'v) coroutine) \<Rightarrow> ('s, 'o, 'v) coroutine" where
  "co_bind (CoReturn v) k = k v"
| "co_bind (CoDo f) k = CoDo (\<lambda>s. map_prod id (\<lambda>p. co_bind p k) (f s))"
| "co_bind (CoCall p q) k = CoCall p (\<lambda>v. co_bind (q v) k)"
| "co_bind (CoAwait op q) k = CoAwait op (\<lambda>v. co_bind (q v) k)"

primrec inlined :: "('s, 'o, 'v) coroutine \<Rightarrow> ('s, 'o, 'v) coroutine" where
  "inlined (CoReturn v) = CoReturn v"
| "inlined (CoDo f) = CoDo (\<lambda>s. map_prod id inlined (f s))"
| "inlined (CoCall p k) = co_bind (inlined p) (\<lambda>v. inlined (k v))"
| "inlined (CoAwait op k) = CoAwait op (\<lambda>v. inlined (k v))"

datatype ('s, 'o, 'v) thread =
    Run nat "('s, 'o, 'v) coroutine"
  | Wait "'o awaitable" nat "'v \<Rightarrow> ('s, 'o, 'v) coroutine"

record ('s, 'o, 'v) seq_state =
  seThreads :: "nat \<rightharpoonup> ('s, 'o, 'v) thread"
  seShared :: 's

inductive seq_step ::
    "'v \<Rightarrow> ('s, 'o, 'v) coroutine set \<Rightarrow> ('o awaitable \<Rightarrow> 'v \<Rightarrow> bool) \<Rightarrow> ('s, 'o, 'v) seq_state \<Rightarrow> ('s, 'o, 'v) seq_state \<Rightarrow> bool"
    for void programs answers where
  SeqStart: "seThreads a r = None \<Longrightarrow> p \<in> programs \<Longrightarrow> (\<And>q. Run loop q \<notin> ran (seThreads a)) \<Longrightarrow>
    seq_step void programs answers a (a\<lparr>seThreads := (seThreads a)(r \<mapsto> Run loop p)\<rparr>)"
| SeqDo: "seThreads a r = Some (Run loop (CoDo f)) \<Longrightarrow> f (seShared a) = (s, p) \<Longrightarrow>
    seq_step void programs answers a (a\<lparr>seThreads := (seThreads a)(r \<mapsto> Run loop p), seShared := s\<rparr>)"
| SeqAwait: "seThreads a r = Some (Run loop (CoAwait op k)) \<Longrightarrow>
    seq_step void programs answers a (a\<lparr>seThreads := (seThreads a)(r \<mapsto>
      (if await_ready op then Run loop (k void) else Wait op (resume_loop loop op) k))\<rparr>)"
| SeqResume: "seThreads a r = Some (Wait op loop k) \<Longrightarrow> (\<And>q. Run loop q \<notin> ran (seThreads a)) \<Longrightarrow> answers op v \<Longrightarrow>
    seq_step void programs answers a (a\<lparr>seThreads := (seThreads a)(r \<mapsto> Run loop (k v))\<rparr>)"
| SeqReturn: "seThreads a r = Some (Run loop (CoReturn v)) \<Longrightarrow>
    seq_step void programs answers a (a\<lparr>seThreads := (seThreads a)(r := None)\<rparr>)"

definition seq_initial :: "'s \<Rightarrow> ('s, 'o, 'v) seq_state" where
  "seq_initial s = \<lparr>seThreads = Map.empty, seShared = s\<rparr>"

section \<open>Simulations\<close>

text \<open>Every step of the concrete system is a run of the abstract one, so every run is.\<close>

locale simulation =
  fixes abstract :: "'a \<Rightarrow> 'a \<Rightarrow> bool"
    and concrete :: "'c \<Rightarrow> 'c \<Rightarrow> bool"
    and related :: "'a \<Rightarrow> 'c \<Rightarrow> bool"
  assumes step_simulated: "related a c \<Longrightarrow> concrete c c' \<Longrightarrow> \<exists>a'. abstract\<^sup>*\<^sup>* a a' \<and> related a' c'"
begin

lemma run_simulated:
  assumes "concrete\<^sup>*\<^sup>* c c'" "related a c"
  shows "\<exists>a'. abstract\<^sup>*\<^sup>* a a' \<and> related a' c'"
  using assms(1)
proof (induction rule: rtranclp_induct)
  case base
  with assms(2) show ?case by blast
next
  case (step c1 c2)
  then obtain a1 where a1: "abstract\<^sup>*\<^sup>* a a1" "related a1 c1" by blast
  from step_simulated [OF a1(2) step(2)] obtain a2 where "abstract\<^sup>*\<^sup>* a1 a2" "related a2 c2" by blast
  with a1(1) show ?case by (blast intro: rtranclp_trans)
qed

end

section \<open>Chains of awaiting coroutines\<close>

lemma co_bind_CoReturn [simp]: "co_bind p CoReturn = p"
proof (induction p)
  case (CoDo f)
  have "map_prod id (\<lambda>p. co_bind p CoReturn) (f s) = f s" for s
    using CoDo [of "f s" "snd (f s)"] rangeI [of f s] by (cases "f s") (simp add: snds.simps)
  then show ?case by simp
qed simp_all

lemma co_bind_assoc: "co_bind (co_bind p k) k' = co_bind p (\<lambda>v. co_bind (k v) k')"
proof (induction p)
  case (CoDo f)
  have "map_prod id (\<lambda>p. co_bind p k') (map_prod id (\<lambda>p. co_bind p k) (f s)) =
      map_prod id (\<lambda>p. co_bind p (\<lambda>v. co_bind (k v) k')) (f s)" for s
    using CoDo [of "f s" "snd (f s)"] rangeI [of f s] by (cases "f s") (simp add: snds.simps)
  then show ?case by simp
qed simp_all

lemma status_iff: "co_status_of c h = Some st \<longleftrightarrow> (\<exists>f. coFrames c h = Some f \<and> frStatus f = st)"
  by (auto simp: co_status_of_def)

lemma set_status_simps [simp]:
  "coNext (set_status h st c) = coNext c" "coShared (set_status h st c) = coShared c"
  "co_status_of (set_status h st c) g = (if g = h \<and> coFrames c h \<noteq> None then Some st else co_status_of c g)"
  by (auto simp: set_status_def co_status_of_def)

text \<open>
  The awaiting coroutines above a frame, up to the root, as the continuation of its result.
\<close>

inductive chain :: "('s, 'o, 'v) co_state \<Rightarrow> nat \<Rightarrow> nat \<Rightarrow> ('v \<Rightarrow> ('s, 'o, 'v) coroutine) \<Rightarrow> bool" for c r where
  chain_root: "coFrames c r = Some f \<Longrightarrow> frPrevious f = None \<Longrightarrow> chain c r r CoReturn"
| chain_link: "chain c r g K \<Longrightarrow> co_status_of c g = Some (Reading t k) \<Longrightarrow> chain c r t (\<lambda>v. co_bind (inlined (k v)) K)"

definition co_inv :: "('s, 'o, 'v) co_state \<Rightarrow> bool" where
  "co_inv c \<longleftrightarrow>
     (\<forall>h f. coFrames c h = Some f \<longrightarrow> h < coNext c \<and> (frTask f \<longrightarrow> frPrevious f = None)) \<and>
     (\<forall>g t k. co_status_of c g = Some (Reading t k) \<longrightarrow>
        (\<exists>f. coFrames c t = Some f \<and> frPrevious f = Some g \<and> frStatus f \<noteq> Finished)) \<and>
     (\<forall>t f g. coFrames c t = Some f \<longrightarrow> frPrevious f = Some g \<longrightarrow> frStatus f \<noteq> Finished \<longrightarrow>
        g < t \<and> (\<exists>k. co_status_of c g = Some (Reading t k)))"

lemma co_invD:
  assumes "co_inv c"
  shows "coFrames c h = Some f \<Longrightarrow> h < coNext c"
    and "coFrames c h = Some f \<Longrightarrow> frTask f \<Longrightarrow> frPrevious f = None"
    and "co_status_of c g = Some (Reading t k) \<Longrightarrow> \<exists>f. coFrames c t = Some f \<and> frPrevious f = Some g \<and> frStatus f \<noteq> Finished"
    and "coFrames c t = Some f \<Longrightarrow> frPrevious f = Some g \<Longrightarrow> frStatus f \<noteq> Finished \<Longrightarrow>
      g < t \<and> (\<exists>k. co_status_of c g = Some (Reading t k))"
  using assms by (simp_all add: co_inv_def)

lemma chain_frame: "co_inv c \<Longrightarrow> chain c r h K \<Longrightarrow> coFrames c h \<noteq> None"
  by (erule chain.cases) (auto dest: co_invD(3))

lemma chain_unique:
  assumes "co_inv c" "chain c r h K" "chain c r' h K'"
  shows "r' = r \<and> K' = K"
  using assms(2,3)
proof (induction arbitrary: r' K')
  case (chain_root f)
  from chain_root(3) show ?case
  proof cases
    case (chain_link g K0 k)
    with co_invD(3) [OF assms(1)] chain_root(1,2) show ?thesis by fastforce
  qed simp
next
  case (chain_link g K t k)
  obtain f where f: "coFrames c t = Some f" "frPrevious f = Some g" using co_invD(3) [OF assms(1) chain_link(2)] by blast
  from chain_link(4) show ?case
  proof cases
    case (chain_root f')
    with f show ?thesis by simp
  next
    case (chain_link g' K0 k')
    moreover have "g' = g" using co_invD(3) [OF assms(1) chain_link(3)] f by auto
    ultimately show ?thesis using chain_link.IH \<open>co_status_of c g = Some (Reading t k)\<close> by auto
  qed
qed

lemma chain_exists:
  assumes "co_inv c"
  shows "coFrames c h = Some f \<Longrightarrow> frStatus f \<noteq> Finished \<Longrightarrow> \<exists>r K. chain c r h K"
proof (induction h arbitrary: f rule: less_induct)
  case (less h)
  show ?case
  proof (cases "frPrevious f")
    case None
    with less.prems show ?thesis by (blast intro: chain_root)
  next
    case (Some g)
    with co_invD(4) [OF assms less.prems(1) _ less.prems(2)] obtain k where g: "g < h" "co_status_of c g = Some (Reading h k)" by blast
    from g(2) obtain f' where "coFrames c g = Some f'" "frStatus f' \<noteq> Finished" by (auto simp: status_iff)
    with less.IH [OF g(1)] obtain r K where "chain c r g K" by blast
    from chain_link [OF this g(2)] show ?thesis by blast
  qed
qed

text \<open>A chain follows the frames from the root; the frame at its end is the only one not reading.\<close>

definition below :: "('s, 'o, 'v) co_state \<Rightarrow> nat \<Rightarrow> nat \<Rightarrow> bool" where
  "below c = (\<lambda>g t. \<exists>k. co_status_of c g = Some (Reading t k))\<^sup>*\<^sup>*"

lemma chain_below: "chain c r h K \<Longrightarrow> below c r h"
  unfolding below_def by (induction rule: chain.induct) (auto intro: rtranclp.rtrancl_into_rtrancl)

definition reading :: "('s, 'o, 'v) co_state \<Rightarrow> nat \<Rightarrow> bool" where
  "reading c h \<longleftrightarrow> (\<exists>t k. co_status_of c h = Some (Reading t k))"

lemma chain_end_unique:
  assumes "co_inv c" "chain c r h K" "chain c r h' K'" "\<not> reading c h" "\<not> reading c h'"
  shows "h' = h"
proof -
  have "below c h' h" using assms(3)
  proof induction
    case (chain_root f)
    show ?case by (rule chain_below [OF assms(2)])
  next
    case (chain_link g K t k)
    have "(\<lambda>g t. \<exists>k. co_status_of c g = Some (Reading t k))\<^sup>*\<^sup>* g h"
      using chain_link(3) by (simp add: below_def)
    then show ?case
    proof (cases rule: converse_rtranclpE)
      case base
      with chain_link(2) assms(4) show ?thesis by (auto simp: reading_def)
    next
      case (step t')
      with chain_link(2) have "t' = t" by auto
      with step(2) show ?thesis by (simp add: below_def)
    qed
  qed
  then show ?thesis unfolding below_def
    by (cases rule: converse_rtranclpE) (use assms(5) in \<open>auto simp: reading_def\<close>)
qed

lemma chain_continues:
  assumes "co_inv c" "chain c r h K"
  shows "\<exists>h' K'. chain c r h' K' \<and> \<not> reading c h' \<and> (h' = h \<or> h < h')"
  using assms(2)
proof (induction "coNext c - h" arbitrary: h K rule: less_induct)
  case less
  show ?case
  proof (cases "reading c h")
    case True
    then obtain t k where t: "co_status_of c h = Some (Reading t k)" by (auto simp: reading_def)
    from co_invD(3) [OF assms(1) t] obtain f where f: "coFrames c t = Some f" "frPrevious f = Some h" "frStatus f \<noteq> Finished" by blast
    have "h < t" "t < coNext c" using co_invD(4) [OF assms(1) f] co_invD(1) [OF assms(1) f(1)] by simp_all
    with less.hyps [OF _ chain_link [OF less.prems t]] show ?thesis by fastforce
  next
    case False
    with less.prems show ?thesis by blast
  qed
qed

section \<open>Threads of a machine state\<close>

text \<open>What a root coroutine amounts to as a sequential thread.\<close>

definition thread_at :: "('s, 'o, 'v) co_status \<Rightarrow> ('v \<Rightarrow> ('s, 'o, 'v) coroutine) \<Rightarrow> ('s, 'o, 'v) thread option" where
  "thread_at st K =
     (case st of
        Active loop p \<Rightarrow> Some (Run loop (co_bind (inlined p) K))
      | Pending op loop k \<Rightarrow> Some (Wait op loop (\<lambda>v. co_bind (inlined (k v)) K))
      | _ \<Rightarrow> None)"

definition represents :: "('s, 'o, 'v) co_state \<Rightarrow> nat \<Rightarrow> ('s, 'o, 'v) thread \<Rightarrow> bool" where
  "represents c r T \<longleftrightarrow> (\<exists>h K st. chain c r h K \<and> co_status_of c h = Some st \<and> thread_at st K = Some T)"

lemma representsI: "chain c r h K \<Longrightarrow> co_status_of c h = Some st \<Longrightarrow> thread_at st K = Some T \<Longrightarrow> represents c r T"
  by (auto simp: represents_def)

lemma thread_at_reading: "thread_at st K = Some T \<Longrightarrow> co_status_of c h = Some st \<Longrightarrow> \<not> reading c h"
  by (auto simp: thread_at_def reading_def)

lemma represents_eq:
  assumes "co_inv c" "chain c r h K" "co_status_of c h = Some st" "thread_at st K \<noteq> None"
  shows "represents c r T \<longleftrightarrow> thread_at st K = Some T"
proof
  assume "represents c r T"
  then obtain h' K' st' where h': "chain c r h' K'" "co_status_of c h' = Some st'" "thread_at st' K' = Some T"
    by (auto simp: represents_def)
  have "\<not> reading c h" "\<not> reading c h'" using assms(3,4) h'(2,3) by (auto simp: thread_at_reading)
  then have "h' = h" using chain_end_unique [OF assms(1,2) h'(1)] by simp
  moreover from this have "K' = K" using chain_unique [OF assms(1,2)] h'(1) by blast
  ultimately show "thread_at st K = Some T" using h' assms(3) by simp
next
  assume "thread_at st K = Some T"
  with assms(2,3) show "represents c r T" by (rule representsI)
qed

text \<open>Other roots do not see a change of frames that belong to one root in both states.\<close>

definition owned :: "('s, 'o, 'v) co_state \<Rightarrow> nat set \<Rightarrow> nat \<Rightarrow> bool" where
  "owned c M r \<longleftrightarrow> (\<forall>h \<in> M. \<forall>r' K. chain c r' h K \<longrightarrow> r' = r)"

lemma chain_transfer:
  assumes "chain c r' h K" "owned c M r" "r' \<noteq> r" "\<And>x. x \<notin> M \<Longrightarrow> coFrames c' x = coFrames c x"
  shows "chain c' r' h K"
  using assms(1)
proof induction
  case (chain_root f)
  then have "r' \<notin> M" using assms(2,3) chain.chain_root [OF chain_root] by (auto simp: owned_def)
  with chain_root show ?case by (metis assms(4) chain.chain_root)
next
  case (chain_link g K t k)
  then have "g \<notin> M" using assms(2,3) by (auto simp: owned_def)
  then have "co_status_of c' g = Some (Reading t k)" using chain_link(2) assms(4) by (simp add: co_status_of_def)
  with chain_link.IH show ?case by (rule chain.chain_link)
qed

lemma represents_transfer:
  assumes "represents c r' T" "owned c M r" "r' \<noteq> r" "\<And>x. x \<notin> M \<Longrightarrow> coFrames c' x = coFrames c x"
  shows "represents c' r' T"
proof -
  obtain h K st where h: "chain c r' h K" "co_status_of c h = Some st" "thread_at st K = Some T"
    using assms(1) by (auto simp: represents_def)
  then have "h \<notin> M" using assms(2,3) by (auto simp: owned_def)
  then have "co_status_of c' h = Some st" using h(2) assms(4) by (simp add: co_status_of_def)
  with chain_transfer [OF h(1) assms(2-4)] h(3) show ?thesis by (blast intro: representsI)
qed

lemma represents_other:
  assumes "owned c M r" "owned c' M r" "r' \<noteq> r" "\<And>x. x \<notin> M \<Longrightarrow> coFrames c' x = coFrames c x"
  shows "represents c' r' T \<longleftrightarrow> represents c r' T"
  using represents_transfer [of c r' T M r c'] represents_transfer [of c' r' T M r c] assms by auto

definition unfinished_root :: "('s, 'o, 'v) co_state \<Rightarrow> nat \<Rightarrow> bool" where
  "unfinished_root c r \<longleftrightarrow> (\<exists>f. coFrames c r = Some f \<and> frPrevious f = None \<and> frStatus f \<noteq> Finished)"

text \<open>Every root coroutine that has not finished is one thread, running or waiting.\<close>

lemma represents_root:
  assumes "co_inv c"
  shows "(\<exists>T. represents c r T) \<longleftrightarrow> unfinished_root c r"
proof
  assume "\<exists>T. represents c r T"
  then obtain T h K st where h: "chain c r h K" "co_status_of c h = Some st" "thread_at st K = Some T"
    by (auto simp: represents_def)
  have "\<exists>f. coFrames c r = Some f \<and> frPrevious f = None"
    using h(1) by induction auto
  moreover have "r = h \<or> reading c r" using h(1) by induction (auto simp: reading_def)
  ultimately show "unfinished_root c r"
    using h(2,3) by (auto simp: unfinished_root_def reading_def status_iff thread_at_def)
next
  assume "unfinished_root c r"
  then obtain f where f: "coFrames c r = Some f" "frPrevious f = None" "frStatus f \<noteq> Finished"
    by (auto simp: unfinished_root_def)
  obtain h K where h: "chain c r h K" "\<not> reading c h" "h = r \<or> r < h"
    using chain_continues [OF assms chain_root [OF f(1,2)]] by blast
  have "\<exists>f'. coFrames c h = Some f' \<and> frStatus f' \<noteq> Finished"
    using h(1)
  proof cases
    case chain_root
    with f show ?thesis by blast
  next
    case (chain_link g K0 k)
    with co_invD(3) [OF assms] show ?thesis by blast
  qed
  then obtain f' where "coFrames c h = Some f'" "frStatus f' \<noteq> Finished" by blast
  moreover from this have "thread_at (frStatus f') K \<noteq> None"
    using h(2) by (cases "frStatus f'") (auto simp: thread_at_def reading_def status_iff)
  ultimately obtain T where "co_status_of c h = Some (frStatus f')" "thread_at (frStatus f') K = Some T"
    by (auto simp: status_iff)
  with h(1) show "\<exists>T. represents c r T" by (blast intro: representsI)
qed

section \<open>Steps\<close>

lemma status_shared [simp]: "co_status_of (c\<lparr>coShared := s\<rparr>) = co_status_of c"
  by (simp add: co_status_of_def fun_eq_iff)

lemma co_inv_shared [simp]: "co_inv (c\<lparr>coShared := s\<rparr>) = co_inv c"
  by (simp add: co_inv_def)

lemma represents_frames: "coFrames c1 = coFrames c2 \<Longrightarrow> represents c1 r T \<Longrightarrow> represents c2 r T"
  by (rule represents_transfer [of c1 r T "{}" "Suc r" c2]) (simp_all add: owned_def)

lemma represents_shared [simp]: "represents (c\<lparr>coShared := s\<rparr>) r T = represents c r T"
  by (auto intro: represents_frames [rotated])

definition alive :: "('s, 'o, 'v) co_status \<Rightarrow> bool" where
  "alive st \<longleftrightarrow> (\<forall>t k. st \<noteq> Reading t k) \<and> st \<noteq> Finished"

lemma thread_at_alive: "alive st \<longleftrightarrow> (\<exists>T. thread_at st K = Some T)"
  by (cases st) (auto simp: alive_def thread_at_def)

text \<open>A frame at the end of its chain changes its status.\<close>

lemma set_status_frames: "x \<noteq> h \<Longrightarrow> coFrames (set_status h st c) x = coFrames c x"
  by (simp add: set_status_def)

lemma co_inv_set_status:
  assumes "co_inv c" "co_status_of c h = Some st0" "alive st0" "alive st"
  shows "co_inv (set_status h st c)"
  unfolding co_inv_def
proof (intro conjI allI impI)
  let ?c = "set_status h st c"
  have fr: "coFrames ?c x = (if x = h then map_option (\<lambda>f. f\<lparr>frStatus := st\<rparr>) (coFrames c h) else coFrames c x)" for x
    by (simp add: set_status_def)
  obtain f0 where f0: "coFrames c h = Some f0" "frStatus f0 = st0" using assms(2) by (auto simp: status_iff)
  have st: "co_status_of ?c x = Some (Reading t k) \<longleftrightarrow> co_status_of c x = Some (Reading t k)" for x t k
    using assms f0 by (auto simp: alive_def)
  show "x < coNext ?c" if "coFrames ?c x = Some f" for x f
    using co_invD(1) [OF assms(1)] f0 that unfolding fr by (auto split: if_splits)
  show "frPrevious f = None" if "coFrames ?c x = Some f" "frTask f" for x f
    using co_invD(2) [OF assms(1)] f0 that unfolding fr by (auto split: if_splits)
  show "\<exists>f. coFrames ?c t = Some f \<and> frPrevious f = Some g \<and> frStatus f \<noteq> Finished"
    if "co_status_of ?c g = Some (Reading t k)" for g t k
    using co_invD(3) [OF assms(1), of g t k] that assms(4) unfolding st fr by (auto simp: alive_def)
  show "g < t" "\<exists>k. co_status_of ?c g = Some (Reading t k)"
    if "coFrames ?c t = Some f" "frPrevious f = Some g" "frStatus f \<noteq> Finished" for t f g
  proof -
    have "\<exists>f1. coFrames c t = Some f1 \<and> frPrevious f1 = Some g \<and> frStatus f1 \<noteq> Finished"
    proof (cases "t = h")
      case True
      with that f0 assms(3) have "frPrevious f0 = Some g" "frStatus f0 \<noteq> Finished" by (auto simp: fr alive_def)
      with True f0 show ?thesis by blast
    next
      case False
      with that show ?thesis by (simp add: fr)
    qed
    then obtain f1 where "coFrames c t = Some f1" "frPrevious f1 = Some g" "frStatus f1 \<noteq> Finished" by blast
    from co_invD(4) [OF assms(1) this] show "g < t" "\<exists>k. co_status_of ?c g = Some (Reading t k)"
      unfolding st by blast+
  qed
qed

lemma owned_chain: "co_inv c \<Longrightarrow> chain c r h K \<Longrightarrow> owned c {h} r"
  by (auto simp: owned_def dest: chain_unique)

lemma chain_set_status:
  assumes "chain c r x K" "co_status_of c h = Some st0" "alive st0"
  shows "chain (set_status h st c) r x K"
  using assms(1)
proof induction
  case (chain_root f)
  then have "coFrames (set_status h st c) r = Some (if r = h then f\<lparr>frStatus := st\<rparr> else f)"
    "frPrevious (if r = h then f\<lparr>frStatus := st\<rparr> else f) = None"
    by (auto simp: set_status_def)
  then show ?case by (rule chain.chain_root)
next
  case (chain_link g K t k)
  with assms(2,3) have "g \<noteq> h" by (auto simp: alive_def)
  then have "co_status_of (set_status h st c) g = Some (Reading t k)" using chain_link(2) by simp
  with chain_link(3) show ?case by (rule chain.chain_link)
qed

lemma represents_set_status:
  assumes "co_inv c" "chain c r h K" "co_status_of c h = Some st0" "alive st0" "alive st"
  shows "represents (set_status h st c) r' T \<longleftrightarrow> (if r' = r then thread_at st K = Some T else represents c r' T)"
proof -
  let ?c = "set_status h st c"
  have inv: "co_inv ?c" by (rule co_inv_set_status [OF assms(1,3-5)])
  have ch: "chain ?c r h K" by (rule chain_set_status [OF assms(2-4)])
  have st: "co_status_of ?c h = Some st" using assms(3) by (auto simp: status_iff)
  show ?thesis
  proof (cases "r' = r")
    case True
    then show ?thesis using represents_eq [OF inv ch st] thread_at_alive [of st K] assms(5) by auto
  next
    case False
    then show ?thesis
      using represents_other [OF owned_chain [OF assms(1,2)] owned_chain [OF inv ch] False set_status_frames] by auto
  qed
qed

definition related :: "('s, 'o, 'v) seq_state \<Rightarrow> ('s, 'o, 'v) co_state \<Rightarrow> bool" where
  "related a c \<longleftrightarrow> co_inv c \<and> seShared a = coShared c \<and> (\<forall>r T. seThreads a r = Some T \<longleftrightarrow> represents c r T)"

lemma relatedD: "related a c \<Longrightarrow> represents c r T \<longleftrightarrow> seThreads a r = Some T"
  by (simp add: related_def)

lemma related_status:
  assumes "related a c" "co_status_of c h = Some st" "alive st"
  obtains r K T where "chain c r h K" "thread_at st K = Some T" "seThreads a r = Some T"
proof -
  obtain f where "coFrames c h = Some f" "frStatus f = st" using assms(2) by (auto simp: status_iff)
  moreover have inv: "co_inv c" using assms(1) by (simp add: related_def)
  ultimately obtain r K where ch: "chain c r h K" using chain_exists [of c h f] assms(3) by (auto simp: alive_def)
  obtain T where T: "thread_at st K = Some T" using thread_at_alive [of st K] assms(3) by blast
  with assms(1) representsI [OF ch assms(2)] have "seThreads a r = Some T" by (simp add: related_def)
  with ch T show thesis by (rule that)
qed

lemma related_set_status:
  assumes "related a c" "chain c r h K" "co_status_of c h = Some st0" "alive st0" "alive st" "thread_at st K = Some T"
  shows "related (a\<lparr>seThreads := (seThreads a)(r \<mapsto> T), seShared := s\<rparr>) ((set_status h st c)\<lparr>coShared := s\<rparr>)"
proof -
  have inv: "co_inv c" using assms(1) by (simp add: related_def)
  show ?thesis
    using assms(1,6) co_inv_set_status [OF inv assms(3-5)] represents_set_status [OF inv assms(2-5)]
    by (auto simp: related_def)
qed

lemma related_idle: "related a c \<Longrightarrow> loop_idle loop c \<Longrightarrow> Run loop p \<notin> ran (seThreads a)"
  by (auto simp: related_def ran_def represents_def loop_idle_def thread_at_def split: co_status.splits)

lemma related_unchanged: "related a c \<Longrightarrow> a\<lparr>seShared := coShared c\<rparr> = a"
  by (simp add: related_def)

text \<open>A new root.\<close>

lemma co_start_frames:
  "coFrames (co_start void task loop body c) = (coFrames c)(coNext c \<mapsto>
     \<lparr>frStatus = Active loop body, frPrevious = None, frResult = void, frTask = task\<rparr>)"
  "coNext (co_start void task loop body c) = coNext c + 1" "coShared (co_start void task loop body c) = coShared c"
  by (simp_all add: co_start_def)

lemma fresh_frame: "co_inv c \<Longrightarrow> coFrames c (coNext c) = None"
  using co_invD(1) by (metis less_irrefl not_None_eq)

lemma co_inv_co_start:
  assumes "co_inv c"
  shows "co_inv (co_start void task loop body c)"
  unfolding co_inv_def
proof (intro conjI allI impI)
  let ?c = "co_start void task loop body c"
  have st: "co_status_of ?c g = Some (Reading t k) \<longleftrightarrow> co_status_of c g = Some (Reading t k)" for g t k
    using fresh_frame [OF assms] by (auto simp: co_status_of_def co_start_frames)
  show "x < coNext ?c" if "coFrames ?c x = Some f" for x f
    using co_invD(1) [OF assms, of x f] that by (simp add: co_start_frames less_Suc_eq split: if_splits)
  show "frPrevious f = None" if "coFrames ?c x = Some f" "frTask f" for x f
    using co_invD(2) [OF assms, of x f] that by (auto simp: co_start_frames split: if_splits)
  show "\<exists>f. coFrames ?c t = Some f \<and> frPrevious f = Some g \<and> frStatus f \<noteq> Finished"
    if "co_status_of ?c g = Some (Reading t k)" for g t k
    using co_invD(3) [OF assms that [unfolded st]] fresh_frame [OF assms] by (auto simp: co_start_frames)
  show "g < t" "\<exists>k. co_status_of ?c g = Some (Reading t k)"
    if "coFrames ?c t = Some f" "frPrevious f = Some g" "frStatus f \<noteq> Finished" for t f g
  proof -
    have "coFrames c t = Some f" using that(1,2) by (auto simp: co_start_frames split: if_splits)
    from co_invD(4) [OF assms this that(2,3)] show "g < t" "\<exists>k. co_status_of ?c g = Some (Reading t k)"
      unfolding st by blast+
  qed
qed

lemma absent_owned: "co_inv c \<Longrightarrow> coFrames c h = None \<Longrightarrow> owned c {h} r"
  by (auto simp: owned_def dest: chain_frame)

lemma related_co_start:
  assumes "related a c"
  shows "related (a\<lparr>seThreads := (seThreads a)(coNext c \<mapsto> Run loop (inlined body))\<rparr>) (co_start void task loop body c)"
proof -
  let ?c = "co_start void task loop body c" and ?n = "coNext c"
  have inv: "co_inv c" using assms by (simp add: related_def)
  have inv': "co_inv ?c" by (rule co_inv_co_start [OF inv])
  have "coFrames ?c ?n = Some \<lparr>frStatus = Active loop body, frPrevious = None, frResult = void, frTask = task\<rparr>"
    by (simp add: co_start_frames)
  then have ch: "chain ?c ?n ?n CoReturn" by (rule chain_root) simp
  have st: "co_status_of ?c ?n = Some (Active loop body)" by (simp add: co_status_of_def co_start_frames)
  have new: "represents ?c ?n T \<longleftrightarrow> T = Run loop (inlined body)" for T
    using represents_eq [OF inv' ch st] by (auto simp: thread_at_def)
  have other: "represents ?c r T \<longleftrightarrow> represents c r T" if "r \<noteq> ?n" for r T
    using represents_other [OF absent_owned [OF inv fresh_frame [OF inv]] owned_chain [OF inv' ch] that]
    by (simp add: co_start_frames)
  show ?thesis
    unfolding related_def using inv' assms new other by (auto simp: related_def co_start_frames)
qed

text \<open>A coroutine awaits a new one.\<close>

lemma co_call_frames:
  assumes "co_inv c" "coFrames c h = Some f0"
  shows "coFrames (co_call void h loop body k c) = (coFrames c)(h \<mapsto> f0\<lparr>frStatus := Reading (coNext c) k\<rparr>, coNext c \<mapsto>
     \<lparr>frStatus = Active loop body, frPrevious = Some h, frResult = void, frTask = False\<rparr>)"
  "coNext (co_call void h loop body k c) = coNext c + 1" "coShared (co_call void h loop body k c) = coShared c"
  using assms(2) by (simp_all add: co_call_def set_status_def Let_def)

lemma co_inv_co_call:
  assumes "co_inv c" "co_status_of c h = Some st0" "alive st0"
  shows "co_inv (co_call void h loop body k c)"
  unfolding co_inv_def
proof (intro conjI allI impI)
  let ?c = "co_call void h loop body k c" and ?n = "coNext c"
  obtain f0 where f0: "coFrames c h = Some f0" "frStatus f0 = st0" using assms(2) by (auto simp: status_iff)
  note fr = co_call_frames [OF assms(1) f0(1), of void loop body k]
  have hn: "h < ?n" using co_invD(1) [OF assms(1) f0(1)] .
  have fn: "coFrames c ?n = None" by (rule fresh_frame [OF assms(1)])
  have st: "co_status_of ?c g = Some (Reading t k') \<longleftrightarrow> co_status_of c g = Some (Reading t k') \<or> g = h \<and> t = ?n \<and> k' = k"
    for g t k'
    using f0 fn hn assms(3) by (auto simp: co_status_of_def fr(1) alive_def)
  show "x < coNext ?c" if "coFrames ?c x = Some f" for x f
    using co_invD(1) [OF assms(1)] that hn f0(1) unfolding fr by (fastforce split: if_splits)
  show "frPrevious f = None" if "coFrames ?c x = Some f" "frTask f" for x f
    using co_invD(2) [OF assms(1)] that f0(1) unfolding fr by (auto split: if_splits)
  show "\<exists>f. coFrames ?c t = Some f \<and> frPrevious f = Some g \<and> frStatus f \<noteq> Finished"
    if "co_status_of ?c g = Some (Reading t k')" for g t k'
  proof (cases "co_status_of c g = Some (Reading t k')")
    case True
    from co_invD(3) [OF assms(1) this] obtain f where f: "coFrames c t = Some f" "frPrevious f = Some g" "frStatus f \<noteq> Finished" by blast
    with fn have "t \<noteq> ?n" by auto
    with f f0(1) show ?thesis unfolding fr by (cases "t = h") auto
  next
    case False
    with that show ?thesis unfolding st fr by auto
  qed
  show "g < t" "\<exists>k'. co_status_of ?c g = Some (Reading t k')"
    if "coFrames ?c t = Some f" "frPrevious f = Some g" "frStatus f \<noteq> Finished" for t f g
  proof -
    have "g < t \<and> (\<exists>k'. co_status_of ?c g = Some (Reading t k'))"
    proof (cases "t = ?n")
      case True
      with that hn have "g = h" by (auto simp: fr(1))
      with True hn show ?thesis unfolding st by blast
    next
      case False
      have "\<exists>f'. coFrames c t = Some f' \<and> frPrevious f' = Some g \<and> frStatus f' \<noteq> Finished"
        using False that f0 assms(3) by (cases "t = h") (auto simp: fr(1) alive_def)
      with co_invD(4) [OF assms(1)] show ?thesis unfolding st by blast
    qed
    then show "g < t" "\<exists>k'. co_status_of ?c g = Some (Reading t k')" by blast+
  qed
qed

lemma chain_co_call:
  assumes "co_inv c" "chain c r x K" "co_status_of c h = Some st0" "alive st0"
  shows "chain (co_call void h loop body k c) r x K"
  using assms(2)
proof induction
  obtain f0 where f0: "coFrames c h = Some f0" "frStatus f0 = st0" using assms(3) by (auto simp: status_iff)
  note fr = co_call_frames [OF assms(1) f0(1), of void loop body k]
  have fn: "coFrames c (coNext c) = None" by (rule fresh_frame [OF assms(1)])
  {
    case (chain_root f)
    then have "r \<noteq> coNext c" using fn by auto
    with chain_root f0(1) have "\<exists>f'. coFrames (co_call void h loop body k c) r = Some f' \<and> frPrevious f' = None"
      by (cases "r = h") (auto simp: fr(1))
    then show ?case by (blast intro: chain.chain_root)
  next
    case (chain_link g K t k')
    have "g \<noteq> h" using chain_link(2) assms(3,4) by (auto simp: alive_def)
    moreover have "g \<noteq> coNext c" using chain_link(2) fn by (auto simp: co_status_of_def)
    ultimately have "co_status_of (co_call void h loop body k c) g = Some (Reading t k')"
      using chain_link(2) by (simp add: co_status_of_def fr(1))
    with chain_link(3) show ?case by (rule chain.chain_link)
  }
qed

lemma related_co_call:
  assumes "related a c" "co_status_of c h = Some (Active loop (CoCall body k))"
  shows "related a (co_call void h loop body k c)"
proof -
  let ?c = "co_call void h loop body k c" and ?n = "coNext c"
  have inv: "co_inv c" using assms(1) by (simp add: related_def)
  have al: "alive (Active loop (CoCall body k))" by (simp add: alive_def)
  obtain f0 where f0: "coFrames c h = Some f0" "frStatus f0 = Active loop (CoCall body k)" using assms(2) by (auto simp: status_iff)
  note fr = co_call_frames [OF inv f0(1), of void loop body k]
  have fn: "coFrames c ?n = None" by (rule fresh_frame [OF inv])
  then have hn: "h \<noteq> ?n" using f0(1) by auto
  have inv': "co_inv ?c" by (rule co_inv_co_call [OF inv assms(2) al])
  obtain r K T where r: "chain c r h K" "thread_at (Active loop (CoCall body k)) K = Some T" "seThreads a r = Some T"
    by (rule related_status [OF assms(1,2) al])
  have ch: "chain ?c r h K" by (rule chain_co_call [OF inv r(1) assms(2) al])
  have "co_status_of ?c h = Some (Reading ?n k)" using hn by (simp add: co_status_of_def fr(1))
  from chain_link [OF ch this] have ch': "chain ?c r ?n (\<lambda>v. co_bind (inlined (k v)) K)" .
  have st: "co_status_of ?c ?n = Some (Active loop body)" by (simp add: co_status_of_def fr(1))
  have same: "represents ?c r T' \<longleftrightarrow> T' = T" for T'
    using represents_eq [OF inv' ch' st] r(2) by (auto simp: thread_at_def co_bind_assoc)
  have "owned c {h, ?n} r" using owned_chain [OF inv r(1)] absent_owned [OF inv fn, of r] by (simp add: owned_def)
  moreover have "owned ?c {h, ?n} r" using owned_chain [OF inv' ch] owned_chain [OF inv' ch'] by (simp add: owned_def)
  ultimately have other: "represents ?c r' T' \<longleftrightarrow> represents c r' T'" if "r' \<noteq> r" for r' T'
    by (rule represents_other) (use that in \<open>simp_all add: fr(1)\<close>)
  show ?thesis
    unfolding related_def
  proof (intro conjI allI)
    show "co_inv ?c" by (rule inv')
    show "seShared a = coShared ?c" using assms(1) by (simp add: related_def fr(3))
    show "seThreads a r' = Some T' \<longleftrightarrow> represents ?c r' T'" for r' T'
      using r(3) same other relatedD [OF assms(1)] by (cases "r' = r") auto
  qed
qed

text \<open>A root returns: its frame is gone or finished.\<close>

lemma related_root_return:
  assumes rel: "related a c" and h: "coFrames c h = Some f" "frPrevious f = None" "frStatus f = Active loop (CoReturn v)"
    and c': "coFrames c' = (coFrames c)(h := X)" "coNext c' = coNext c" "coShared c' = coShared c"
    and X: "X = None \<or> (\<exists>f'. X = Some f' \<and> frPrevious f' = None \<and> frStatus f' = Finished)"
  shows "related (a\<lparr>seThreads := (seThreads a)(h := None)\<rparr>) c' \<and> seThreads a h = Some (Run loop (CoReturn v))"
proof -
  have inv: "co_inv c" using rel by (simp add: related_def)
  have st: "co_status_of c h = Some (Active loop (CoReturn v))" using h by (simp add: status_iff)
  have ch: "chain c h h CoReturn" using h(1,2) by (rule chain_root)
  have T: "seThreads a h = Some (Run loop (CoReturn v))"
    using relatedD [OF rel, of h] representsI [OF ch st] by (simp add: thread_at_def)
  have st': "co_status_of c' g = Some (Reading t k) \<longleftrightarrow> co_status_of c g = Some (Reading t k)" for g t k
    using X h(1,3) by (auto simp: co_status_of_def c'(1))
  have noh: "co_status_of c g \<noteq> Some (Reading h k)" for g k
    using co_invD(3) [OF inv] h(1,2) by fastforce
  have inv': "co_inv c'"
    unfolding co_inv_def st'
  proof (intro conjI allI impI)
    show "x < coNext c'" if "coFrames c' x = Some f" for x f
      using co_invD(1) [OF inv] that h(1) c' by (auto split: if_splits)
    show "frPrevious f = None" if "coFrames c' x = Some f" "frTask f" for x f
      using co_invD(2) [OF inv] that X c'(1) by (auto split: if_splits)
    show "\<exists>f. coFrames c' t = Some f \<and> frPrevious f = Some g \<and> frStatus f \<noteq> Finished"
      if "co_status_of c g = Some (Reading t k)" for g t k
      using co_invD(3) [OF inv that] noh that by (cases "t = h") (auto simp: c'(1))
    show "g < t" "\<exists>k. co_status_of c g = Some (Reading t k)"
      if "coFrames c' t = Some f" "frPrevious f = Some g" "frStatus f \<noteq> Finished" for t f g
    proof -
      have "t \<noteq> h" using that X c'(1) by auto
      then have "coFrames c t = Some f" using that c'(1) by simp
      from co_invD(4) [OF inv this that(2,3)] show "g < t" "\<exists>k. co_status_of c g = Some (Reading t k)" by blast+
    qed
  qed
  have "owned c' {h} h"
    unfolding owned_def
  proof (intro ballI allI impI)
    fix x r' K assume x: "x \<in> {h}" and "chain c' r' x K"
    from this(2) show "r' = h"
    proof cases
      case (chain_link g K0 k)
      with x noh show ?thesis unfolding st' by blast
    qed (use x in simp)
  qed
  then have other: "represents c' r T' \<longleftrightarrow> represents c r T'" if "r \<noteq> h" for r T'
    using represents_other [OF owned_chain [OF inv ch] _ that, of c'] c'(1) by simp
  have "\<not> unfinished_root c' h" using X by (auto simp: unfinished_root_def c'(1))
  then have none: "\<not> represents c' h T'" for T' using represents_root [OF inv', of h] by blast
  have "related (a\<lparr>seThreads := (seThreads a)(h := None)\<rparr>) c'"
    unfolding related_def
  proof (intro conjI allI)
    show "co_inv c'" by (rule inv')
    show "seShared (a\<lparr>seThreads := (seThreads a)(h := None)\<rparr>) = coShared c'" using rel c'(3) by (simp add: related_def)
    show "seThreads (a\<lparr>seThreads := (seThreads a)(h := None)\<rparr>) r = Some T' \<longleftrightarrow> represents c' r T'" for r T'
      using none other relatedD [OF rel] by (cases "r = h") auto
  qed
  from this T show ?thesis by (rule conjI)
qed

text \<open>An awaited coroutine returns to the one that awaits it.\<close>

lemma related_await_return:
  assumes rel: "related a c" and h: "coFrames c h = Some f" "frPrevious f = Some g" "frStatus f = Active loop (CoReturn v)"
    and fg: "coFrames c g = Some fg" "frStatus fg = Reading h k"
    and c': "coFrames c' = (coFrames c)(h \<mapsto> f\<lparr>frStatus := Finished, frResult := v\<rparr>, g \<mapsto> fg\<lparr>frStatus := Active loop (k v)\<rparr>)"
      "coNext c' = coNext c" "coShared c' = coShared c"
  shows "related a c'"
proof -
  have inv: "co_inv c" using rel by (simp add: related_def)
  have st: "co_status_of c h = Some (Active loop (CoReturn v))" "co_status_of c g = Some (Reading h k)"
    using h fg by (simp_all add: status_iff)
  have gh: "g < h" using co_invD(4) [OF inv h(1,2)] h(3) by simp
  have "alive (Active loop (CoReturn v))" by (simp add: alive_def)
  then obtain r K T where r: "chain c r h K" "thread_at (Active loop (CoReturn v)) K = Some T" "seThreads a r = Some T"
    by (rule related_status [OF rel st(1)])
  from r(1) obtain K0 where K0: "chain c r g K0" "K = (\<lambda>v. co_bind (inlined (k v)) K0)"
  proof cases
    case chain_root
    with h(1,2) show thesis by simp
  next
    case (chain_link g' K0 k')
    from co_invD(3) [OF inv chain_link(3)] h(1,2) have "g' = g" by auto
    with chain_link st(2) show thesis by (auto intro: that)
  qed
  have st': "co_status_of c' x = Some (Reading t k') \<longleftrightarrow> x \<noteq> g \<and> co_status_of c x = Some (Reading t k')" for x t k'
    using h(1,3) by (auto simp: co_status_of_def c'(1))
  have only: "x = g" if "co_status_of c x = Some (Reading h k')" for x k'
    using co_invD(3) [OF inv that] h(1,2) by auto
  have inv': "co_inv c'"
    unfolding co_inv_def st'
  proof (intro conjI allI impI)
    show "x < coNext c'" if "coFrames c' x = Some f'" for x f'
      using co_invD(1) [OF inv] that h(1) fg(1) c'(1,2) by (auto split: if_splits)
    show "frPrevious f' = None" if "coFrames c' x = Some f'" "frTask f'" for x f'
      using co_invD(2) [OF inv] that h(1) fg(1) c'(1) by (auto split: if_splits)
    show "\<exists>f'. coFrames c' t = Some f' \<and> frPrevious f' = Some x \<and> frStatus f' \<noteq> Finished"
      if "x \<noteq> g \<and> co_status_of c x = Some (Reading t k')" for x t k'
    proof -
      have "t \<noteq> h" using only that by blast
      with co_invD(3) [OF inv, of x t k'] that fg(1) show ?thesis unfolding c'(1) by (cases "t = g") auto
    qed
    show "x < t" "\<exists>k'. x \<noteq> g \<and> co_status_of c x = Some (Reading t k')"
      if t: "coFrames c' t = Some f'" "frPrevious f' = Some x" "frStatus f' \<noteq> Finished" for t f' x
    proof -
      have "t \<noteq> h" using t gh unfolding c'(1) by auto
      then obtain f1 where f1: "coFrames c t = Some f1" "frPrevious f1 = Some x" "frStatus f1 \<noteq> Finished"
        using t fg unfolding c'(1) by (cases "t = g") auto
      from co_invD(4) [OF inv this] obtain k' where "x < t" "co_status_of c x = Some (Reading t k')" by blast
      moreover from this have "x \<noteq> g" using st(2) \<open>t \<noteq> h\<close> by auto
      ultimately show "x < t" "\<exists>k'. x \<noteq> g \<and> co_status_of c x = Some (Reading t k')" by auto
    qed
  qed
  have ch: "chain c' r g K0"
  proof -
    have "chain c' r x K1" if "chain c r x K1" "x \<le> g" for x K1
      using that
    proof induction
      case (chain_root f1)
      then have "\<exists>f2. coFrames c' r = Some f2 \<and> frPrevious f2 = None"
        using gh fg by (cases "r = g") (auto simp: c'(1))
      then show ?case by (blast intro: chain.chain_root)
    next
      case (chain_link x K1 t k')
      obtain f1 where f1: "coFrames c t = Some f1" "frPrevious f1 = Some x" "frStatus f1 \<noteq> Finished"
        using co_invD(3) [OF inv chain_link(2)] by blast
      have "x < t" using co_invD(4) [OF inv f1] by simp
      with chain_link have "chain c' r x K1" "co_status_of c' x = Some (Reading t k')" unfolding st' by auto
      then show ?case by (rule chain.chain_link)
    qed
    with K0(1) show ?thesis by blast
  qed
  have stg: "co_status_of c' g = Some (Active loop (k v))" by (simp add: co_status_of_def c'(1))
  have same: "represents c' r T' \<longleftrightarrow> T' = T" for T'
    using represents_eq [OF inv' ch stg] r(2) K0(2) by (auto simp: thread_at_def)
  have "owned c {h, g} r" using owned_chain [OF inv r(1)] owned_chain [OF inv K0(1)] by (simp add: owned_def)
  moreover have "owned c' {h, g} r"
  proof -
    have "\<not> chain c' r' h K'" for r' K'
    proof
      assume "chain c' r' h K'"
      then show False
      proof cases
        case chain_root
        with h(2) gh show False by (auto simp: c'(1))
      next
        case (chain_link x K1 k')
        with only show False unfolding st' by blast
      qed
    qed
    with owned_chain [OF inv' ch] show ?thesis unfolding owned_def by blast
  qed
  ultimately have other: "represents c' r' T' \<longleftrightarrow> represents c r' T'" if "r' \<noteq> r" for r' T'
    by (rule represents_other) (use that in \<open>simp_all add: c'(1)\<close>)
  show ?thesis
    unfolding related_def
  proof (intro conjI allI)
    show "co_inv c'" by (rule inv')
    show "seShared a = coShared c'" using rel c'(3) by (simp add: related_def)
    show "seThreads a r' = Some T' \<longleftrightarrow> represents c' r' T'" for r' T'
      using r(3) same other relatedD [OF rel] by (cases "r' = r") auto
  qed
qed

inductive_cases co_stepE: "co_step void bodies answers c c'"

lemma thread_simps:
  "thread_at (Active loop (CoDo g)) K = Some (Run loop (CoDo (\<lambda>s. map_prod id (\<lambda>p. co_bind (inlined p) K) (g s))))"
  "thread_at (Active loop (CoAwait op k)) K = Some (Run loop (CoAwait op (\<lambda>v. co_bind (inlined (k v)) K)))"
  "thread_at (Active loop p) K = Some (Run loop (co_bind (inlined p) K))"
  "thread_at (Pending op loop k) K = Some (Wait op loop (\<lambda>v. co_bind (inlined (k v)) K))"
  by (simp_all add: thread_at_def prod.map_comp comp_def id_def)

lemma alive_simps: "alive (Active loop p)" "alive (Pending op loop k)"
  by (simp_all add: alive_def)

lemma related_step:
  assumes rel: "related a c" and step: "co_step void bodies answers c c'"
  shows "\<exists>a'. (seq_step void (inlined ` bodies) answers)\<^sup>*\<^sup>* a a' \<and> related a' c'"
  using step
proof cases
  case (Start body loop task)
  have "seThreads a (coNext c) = None"
  proof (rule ccontr)
    assume "seThreads a (coNext c) \<noteq> None"
    then have "unfinished_root c (coNext c)"
      using relatedD [OF rel] represents_root [of c] rel by (auto simp: related_def)
    then show False using fresh_frame [of c] rel by (auto simp: unfinished_root_def related_def)
  qed
  then have "seq_step void (inlined ` bodies) answers a (a\<lparr>seThreads := (seThreads a)(coNext c \<mapsto> Run loop (inlined body))\<rparr>)"
    by (rule SeqStart) (use Start(2) related_idle [OF rel Start(3)] in simp_all)
  with related_co_start [OF rel] Start(1) show ?thesis by blast
next
  case (Do h loop f)
  obtain r K T where r: "chain c r h K" "thread_at (Active loop (CoDo f)) K = Some T" "seThreads a r = Some T"
    by (rule related_status [OF rel Do(2) alive_simps(1)])
  obtain s p where f: "f (coShared c) = (s, p)" by fastforce
  have sh: "seShared a = coShared c" using rel by (simp add: related_def)
  have run: "seThreads a r = Some (Run loop (CoDo (\<lambda>s. map_prod id (\<lambda>p. co_bind (inlined p) K) (f s))))"
    using r(2,3) unfolding thread_simps(1) by simp
  have "seq_step void (inlined ` bodies) answers a (a\<lparr>seThreads := (seThreads a)(r \<mapsto> Run loop (co_bind (inlined p) K)), seShared := s\<rparr>)"
    by (rule SeqDo [OF run]) (simp add: f sh)
  moreover have "related (a\<lparr>seThreads := (seThreads a)(r \<mapsto> Run loop (co_bind (inlined p) K)), seShared := s\<rparr>) c'"
    using related_set_status [OF rel r(1) Do(2) alive_simps(1,1) thread_simps(3), of s] unfolding Do(1) co_do_def f by simp
  ultimately show ?thesis by blast
next
  case (Call h loop body k)
  with related_co_call [OF rel Call(2)] show ?thesis by blast
next
  case (Await h loop op k)
  obtain r K T where r: "chain c r h K" "thread_at (Active loop (CoAwait op k)) K = Some T" "seThreads a r = Some T"
    by (rule related_status [OF rel Await(2) alive_simps(1)])
  let ?k = "\<lambda>v. co_bind (inlined (k v)) K"
  let ?st = "if await_ready op then Active loop (k void) else Pending op (resume_loop loop op) k"
  let ?T = "if await_ready op then Run loop (?k void) else Wait op (resume_loop loop op) ?k"
  have "seq_step void (inlined ` bodies) answers a (a\<lparr>seThreads := (seThreads a)(r \<mapsto> ?T)\<rparr>)"
    using r(2,3) by (intro SeqAwait) (simp add: thread_simps)
  moreover have "alive ?st" "thread_at ?st K = Some ?T" by (simp_all add: alive_simps thread_simps)
  from related_set_status [OF rel r(1) Await(2) alive_simps(1) this, of "coShared c"]
  have "related (a\<lparr>seThreads := (seThreads a)(r \<mapsto> ?T)\<rparr>) c'"
    using rel unfolding Await(1) co_await_def by (simp add: related_def)
  ultimately show ?thesis by blast
next
  case (Resume h op loop k v)
  obtain r K T where r: "chain c r h K" "thread_at (Pending op loop k) K = Some T" "seThreads a r = Some T"
    by (rule related_status [OF rel Resume(2) alive_simps(2)])
  have "seThreads a r = Some (Wait op loop (\<lambda>v. co_bind (inlined (k v)) K))" using r(2,3) by (simp add: thread_simps)
  from SeqResume [where answers = answers and op = op and v = v, OF this related_idle [OF rel Resume(3)] Resume(4)]
  have "seq_step void (inlined ` bodies) answers a (a\<lparr>seThreads := (seThreads a)(r \<mapsto> Run loop (co_bind (inlined (k v)) K))\<rparr>)" .
  moreover have "related (a\<lparr>seThreads := (seThreads a)(r \<mapsto> Run loop (co_bind (inlined (k v)) K))\<rparr>) c'"
    using related_set_status [OF rel r(1) Resume(2) alive_simps(2,1) thread_simps(3), of "coShared c"] rel
    unfolding Resume(1) co_resume_def by (simp add: related_def)
  ultimately show ?thesis by blast
next
  case (Return h loop v)
  obtain f where f: "coFrames c h = Some f" "frStatus f = Active loop (CoReturn v)" using Return(2) by (auto simp: status_iff)
  have inv: "co_inv c" using rel by (simp add: related_def)
  show ?thesis
  proof (cases "frPrevious f")
    case None
    define X where "X = (if frTask f then None else Some (f\<lparr>frStatus := Finished, frResult := v\<rparr>))"
    have c': "coFrames c' = (coFrames c)(h := X)" "coNext c' = coNext c" "coShared c' = coShared c"
      using None f by (simp_all add: Return(1) co_return_def X_def)
    have X: "X = None \<or> (\<exists>f'. X = Some f' \<and> frPrevious f' = None \<and> frStatus f' = Finished)"
      using None by (simp add: X_def)
    from related_root_return [OF rel f(1) None f(2) c' X]
    have "related (a\<lparr>seThreads := (seThreads a)(h := None)\<rparr>) c'" "seThreads a h = Some (Run loop (CoReturn v))" by simp_all
    with SeqReturn [of a h loop v] show ?thesis by blast
  next
    case (Some g)
    with f co_invD(4) [OF inv f(1) Some] obtain k where g: "g < h" "co_status_of c g = Some (Reading h k)" by auto
    then obtain fg where fg: "coFrames c g = Some fg" "frStatus fg = Reading h k" by (auto simp: status_iff)
    have nt: "\<not> frTask f" using co_invD(2) [OF inv f(1)] Some by auto
    have "coFrames c' = (coFrames c)(h \<mapsto> f\<lparr>frStatus := Finished, frResult := v\<rparr>, g \<mapsto> fg\<lparr>frStatus := Active loop (k v)\<rparr>)"
      "coNext c' = coNext c" "coShared c' = coShared c"
      using f(1) Some nt g fg by (simp_all add: Return(1) co_return_def co_transfer_def co_status_of_def set_status_def)
    from related_await_return [OF rel f(1) Some f(2) fg this] show ?thesis by blast
  qed
qed

interpretation co: simulation "seq_step void (inlined ` bodies) answers" "co_step void bodies answers" related
    for void bodies answers
  by unfold_locales (rule related_step)

lemma related_initial: "related (seq_initial s) (co_initial s :: ('s, 'o, 'v) co_state)"
proof -
  have "\<not> chain (co_initial s :: ('s, 'o, 'v) co_state) r h K" for r h :: nat and K
  proof
    assume "chain (co_initial s :: ('s, 'o, 'v) co_state) r h K"
    then show False by induction (simp_all add: co_initial_def)
  qed
  then show ?thesis
    by (auto simp: related_def co_inv_def represents_def seq_initial_def co_initial_def co_status_of_def)
qed

lemma coroutine_simulation:
  assumes "(co_step void bodies answers)\<^sup>*\<^sup>* (co_initial s) c"
  shows "\<exists>a. (seq_step void (inlined ` bodies) answers)\<^sup>*\<^sup>* (seq_initial s) a \<and> seShared a = coShared c \<and>
    (\<forall>r T. seThreads a r = Some T \<longleftrightarrow> represents c r T) \<and> dom (seThreads a) = {r. unfinished_root c r}"
proof -
  obtain a where a: "(seq_step void (inlined ` bodies) answers)\<^sup>*\<^sup>* (seq_initial s) a" "related a c"
    using co.run_simulated [OF assms related_initial] by blast
  have "dom (seThreads a) = {r. unfinished_root c r}"
    using represents_root [of c] relatedD [OF a(2)] a(2) by (auto simp: related_def dom_def)
  with a show ?thesis by (auto simp: related_def)
qed

section \<open>Properties\<close>

text \<open>
  C12: coroutines are sequential programs. Whatever the loops interleave, a run of the coroutine
  machinery (calls by \<open>co_await\<close>, transfers, results, switches of the loop, timers, answers) is a run of
  threads that execute the bodies with the calls inlined: the same effects in the same order on the
  same shared state. Every root coroutine that has not finished is exactly one thread, so none is
  ever lost or resumed twice, and every call returns its own result to its caller.
\<close>

theorem coroutines_are_threads:
  assumes "(co_step void bodies answers)\<^sup>*\<^sup>* (co_initial s) c"
  shows "\<exists>a. (seq_step void (inlined ` bodies) answers)\<^sup>*\<^sup>* (seq_initial s) a \<and> seShared a = coShared c \<and>
    (\<forall>r T. seThreads a r = Some T \<longleftrightarrow> represents c r T) \<and> dom (seThreads a) = {r. unfinished_root c r}"
  using assms by (rule coroutine_simulation)

text \<open>
  The frames of asynchronous coroutines are never destroyed: each call leaves its finished frame behind.
\<close>

lemma async_frame_kept_step:
  assumes "co_step void bodies answers c c'" "coFrames c t = Some f" "\<not> frTask f" "t < coNext c"
  shows "\<exists>f'. coFrames c' t = Some f' \<and> \<not> frTask f' \<and> t < coNext c'"
  using assms
  by cases (auto simp: co_start_def co_do_def co_call_def co_await_def co_resume_def co_return_def co_transfer_def set_status_def
      co_status_of_def Let_def split: prod.splits option.splits co_status.splits)

lemma async_frame_kept:
  assumes "(co_step void bodies answers)\<^sup>*\<^sup>* c c'" "coFrames c t = Some f" "\<not> frTask f" "t < coNext c"
  shows "\<exists>f'. coFrames c' t = Some f' \<and> \<not> frTask f' \<and> t < coNext c'"
  using assms by (induction rule: rtranclp_induct) (auto dest: async_frame_kept_step)

text \<open>\<open>operator()\<close> reads the result when the coroutine first suspends, which may be before it has one.\<close>

lemma operator_call_too_early:
  "frResult (the (coFrames (co_await void (coNext c) loop (AwaitableLoopSwitch l) k
      (co_start void False loop (CoAwait (AwaitableLoopSwitch l) k) c)) (coNext c))) = void"
  by (simp add: co_await_def co_start_def set_status_def)

text \<open>A caller and a callee that switches to loop 1 and returns 7 there.\<close>

definition callee :: "(nat list, unit, nat) coroutine" where
  "callee = CoAwait (AwaitableLoopSwitch 1) (\<lambda>_. CoDo (\<lambda>s. (s @ [2], CoReturn 7)))"

definition caller :: "(nat list, unit, nat) coroutine" where
  "caller = CoDo (\<lambda>s. (s @ [1], CoCall callee (\<lambda>v. CoDo (\<lambda>s. (s @ [v], CoReturn 0)))))"

lemma caller_run:
  "\<exists>c. (co_step 0 {caller} (\<lambda>_ _. True))\<^sup>*\<^sup>* (co_initial []) c \<and> coShared c = [1, 2, 7] \<and> coFrames c 0 = None"
proof -
  let ?step = "co_step 0 {caller} (\<lambda>_ _. True)"
  note eval = co_start_def co_do_def co_call_def co_await_def co_resume_def co_return_def co_transfer_def set_status_def
    co_status_of_def co_initial_def Let_def loop_idle_def
  let ?k = "\<lambda>v. CoDo (\<lambda>s. (s @ [v], CoReturn 0))" and ?g = "\<lambda>s. (s @ [2], CoReturn 7)"
  let ?c0 = "co_initial [] :: (nat list, unit, nat) co_state"
  let ?c1 = "co_start 0 True 0 caller ?c0"
  let ?c2 = "co_do 0 0 (\<lambda>s. (s @ [1], CoCall callee ?k)) ?c1"
  let ?c3 = "co_call 0 0 0 callee ?k ?c2"
  let ?c4 = "co_await 0 1 0 (AwaitableLoopSwitch 1) (\<lambda>_. CoDo ?g) ?c3"
  let ?c5 = "co_resume 1 1 (\<lambda>_. CoDo ?g) 0 ?c4"
  let ?c6 = "co_do 1 1 ?g ?c5"
  let ?c7 = "co_return 1 1 7 ?c6"
  let ?c8 = "co_do 0 1 (\<lambda>s. (s @ [7], CoReturn 0)) ?c7"
  let ?c9 = "co_return 0 1 0 ?c8"
  have "?step ?c0 ?c1" by (rule Start) (simp_all add: eval)
  moreover have "?step ?c1 ?c2" by (rule Do) (simp add: eval caller_def)
  moreover have "?step ?c2 ?c3" by (rule Call) (simp add: eval)
  moreover have "?step ?c3 ?c4" by (rule Await) (simp add: eval callee_def)
  moreover have "?step ?c4 ?c5" by (rule Resume [where op = "AwaitableLoopSwitch 1"]) (simp_all add: eval)
  moreover have "?step ?c5 ?c6" by (rule Do) (simp add: eval)
  moreover have "?step ?c6 ?c7" by (rule Return) (simp add: eval)
  moreover have "?step ?c7 ?c8" by (rule Do) (simp add: eval)
  moreover have "?step ?c8 ?c9" by (rule Return) (simp add: eval)
  ultimately have "?step\<^sup>*\<^sup>* ?c0 ?c9" by (meson converse_rtranclp_into_rtranclp rtranclp.rtrancl_refl)
  moreover have "coShared ?c9 = [1, 2, 7]" "coFrames ?c9 0 = None" by (simp_all add: eval)
  ultimately show ?thesis by blast
qed

theorem coroutines_are_threads_witness:
  "\<exists>a. (seq_step 0 (inlined ` {caller}) (\<lambda>_ _. True))\<^sup>*\<^sup>* (seq_initial []) a \<and> seShared a = [1, 2, 7] \<and> 0 \<notin> dom (seThreads a)"
proof -
  obtain c where c: "(co_step 0 {caller} (\<lambda>_ _. True))\<^sup>*\<^sup>* (co_initial []) c" "coShared c = [1, 2, 7]" "coFrames c 0 = None"
    using caller_run by blast
  from coroutines_are_threads [OF c(1)] obtain a where a:
    "(seq_step 0 (inlined ` {caller}) (\<lambda>_ _. True))\<^sup>*\<^sup>* (seq_initial []) a" "seShared a = coShared c"
    "dom (seThreads a) = {r. unfinished_root c r}"
    by blast
  have "0 \<notin> dom (seThreads a)" unfolding a(3) by (simp add: c(3) unfinished_root_def)
  with a(1,2) c(2) show ?thesis by metis
qed

end
