(* ===== verification/Test_Client.thy ===== *)
theory Test_Client
  imports Loop_Coroutine Gate_Server
begin

text \<open>
  The load test client (src/app/game/client/client_manager_module.h, client_manager_module.cpp): a
  coroutine that starts one login after the other, each a coroutine of its own that connects to the
  gate, asks to log in, and closes its session when the answer or the time-out arrives. Connecting
  and the remote call are requests with typed answers. The static counter is an integer that stays
  in the range of \<open>int32_t\<close> (the loop makes a million clients).
\<close>

section \<open>State and requests\<close>

datatype client_request = ConnectGate string int32 | LoginFetch session_id_t string

datatype client_value = VNothing | VError int32 | VSession session_id_t | VLogin session_id_t int32

record client_state =
  s_nCLientNum :: int
  m_mapClient :: "string \<rightharpoonup> session_id_t"
  clClosed :: "session_id_t list"
  clGov :: gov

definition ClientManagerModule :: "gov \<Rightarrow> client_state" where
  "ClientManagerModule g = \<lparr>s_nCLientNum = 0, m_mapClient = Map.empty, clClosed = [], clGov = g\<rparr>"

definition Client_GetPlayerData :: "string \<Rightarrow> client_state \<Rightarrow> session_id_t option" where
  "Client_GetPlayerData user_id s = m_mapClient s user_id"

type_synonym client_program = "(client_state, client_request, client_value) coroutine"

text \<open>
  \<open>await_resume\<close> of \<open>AwaitableConnect\<close>: the session of the callback when it reports success, and the 0 of
  the constructor otherwise. That of \<open>AwaitableRpcFetch\<close> is what the callback stored; a call that
  timed out has an error code in its head.
\<close>

definition connect_result :: "session_id_t \<Rightarrow> bool \<Rightarrow> client_value" where
  "connect_result sid bSuccess = VSession (if bSuccess then sid else 0)"

definition fetch_result :: "session_id_t \<Rightarrow> int32 \<Rightarrow> client_value" where
  "fetch_result sid error_code = VLogin sid error_code"

fun client_answers :: "client_request awaitable \<Rightarrow> client_value \<Rightarrow> bool" where
  "client_answers (AwaitableRequest (ConnectGate ip port)) v = (\<exists>sid ok. v = connect_result sid ok)"
| "client_answers (AwaitableRequest (LoginFetch sid account)) v = (\<exists>rsp code. v = fetch_result rsp code)"
| "client_answers _ v = (v = VNothing)"

section \<open>The coroutines\<close>

definition client_account :: "int \<Rightarrow> string" where
  "client_account nCurClient = ''test'' @ to_string nCurClient"

text \<open>The part of \<open>CreateNewClient\<close> after the remote call, after the connect, and all of it.\<close>

fun client_answered :: "session_id_t \<Rightarrow> client_value \<Rightarrow> client_program" where
  "client_answered sessionId (VLogin nSessionIdRsp error_code) =
     CoDo (\<lambda>s. (s\<lparr>clClosed := clClosed s @ [sessionId]\<rparr>,
       if error_code \<noteq> 0 then CoReturn (VError error_code) else CoReturn (VError 0)))"
| "client_answered sessionId _ = CoReturn (VError 1)"

fun client_connected :: "int \<Rightarrow> client_value \<Rightarrow> client_program" where
  "client_connected nCurClient (VSession sessionId) =
     (if sessionId = 0 then CoReturn (VError 1)
      else let strAccount = client_account nCurClient
           in CoDo (\<lambda>s. (s\<lparr>m_mapClient := map_emplace strAccount sessionId (m_mapClient s)\<rparr>,
                CoAwait (AwaitableRequest (LoginFetch sessionId strAccount)) (client_answered sessionId))))"
| "client_connected nCurClient _ = CoReturn (VError 1)"

definition CreateNewClient :: client_program where
  "CreateNewClient =
     CoDo (\<lambda>s. let nCurClient = s_nCLientNum s + 1
        in (s\<lparr>s_nCLientNum := nCurClient\<rparr>,
            case GetServerInstanceInfo GateServer 1 (clGov s) of
              None \<Rightarrow> CoReturn (VError 1)
            | Some p \<Rightarrow> CoAwait (AwaitableRequest (ConnectGate (siPublicIp p) (siPublicPort p))) (client_connected nCurClient)))"

fun client_loop :: "nat \<Rightarrow> client_program" where
  "client_loop 0 = CoReturn VNothing"
| "client_loop (Suc n) = CoAwait (AwaitableExecAfter 1000) (\<lambda>_. CoCall CreateNewClient (\<lambda>nResult. client_loop n))"

definition StartTestClient :: client_program where
  "StartTestClient = CoAwait (AwaitableExecAfter 20000) (\<lambda>_. client_loop 1000000)"

text \<open>\<open>OnInit\<close> starts the coroutine on the main loop.\<close>

definition Client_OnInit ::
    "(client_state, client_request, client_value) co_state \<Rightarrow> (client_state, client_request, client_value) co_state" where
  "Client_OnInit c = co_start VNothing True 0 StartTestClient c"

section \<open>The programs of its threads\<close>

text \<open>
  The programs a thread of the client can be in, after \<open>k\<close>, with the session it has in its hands.
\<close>

abbreviation (input) and_then :: "client_program \<Rightarrow> client_program \<Rightarrow> client_program" where
  "and_then p q \<equiv> co_bind p (\<lambda>_. q)"

inductive client_prog :: "session_id_t option \<Rightarrow> client_program \<Rightarrow> bool" where
  cp_loop: "client_prog None (inlined (client_loop n))"
| cp_create: "client_prog None (and_then (inlined CreateNewClient) (inlined (client_loop n)))"
| cp_connect: "client_prog None (CoAwait (AwaitableRequest (ConnectGate ip port))
    (\<lambda>v. and_then (inlined (client_connected i v)) (inlined (client_loop n))))"
| cp_connected: "client_prog None (and_then (inlined (client_connected i (VSession sid))) (inlined (client_loop n)))"
| cp_login: "client_prog (Some sid) (CoAwait (AwaitableRequest (LoginFetch sid account))
    (\<lambda>v. and_then (inlined (client_answered sid v)) (inlined (client_loop n))))"
| cp_answered: "client_prog (Some sid) (and_then (inlined (client_answered sid (VLogin rsp code))) (inlined (client_loop n)))"
| cp_start: "client_prog None (inlined StartTestClient)"

text \<open>A thread waits or runs, with a program of the client.\<close>

fun client_thread :: "session_id_t option \<Rightarrow> (client_state, client_request, client_value) thread \<Rightarrow> bool" where
  "client_thread h (Run loop p) = client_prog h p"
| "client_thread h (Wait op loop k) = client_prog h (CoAwait op k)"

lemma loop_cases:
  "inlined (client_loop 0) = CoReturn VNothing"
  "inlined (client_loop (Suc n)) =
     CoAwait (AwaitableExecAfter 1000) (\<lambda>v. and_then (inlined CreateNewClient) (inlined (client_loop n)))"
  by simp_all

lemma create_inlined:
  "and_then (inlined CreateNewClient) q =
   CoDo (\<lambda>s. (s\<lparr>s_nCLientNum := s_nCLientNum s + 1\<rparr>,
     case GetServerInstanceInfo GateServer 1 (clGov s) of
       None \<Rightarrow> q
     | Some p \<Rightarrow> CoAwait (AwaitableRequest (ConnectGate (siPublicIp p) (siPublicPort p)))
         (\<lambda>v. and_then (inlined (client_connected (s_nCLientNum s + 1) v)) q)))"
  by (auto simp: CreateNewClient_def Let_def fun_eq_iff split: option.split)

lemma connected_inlined:
  "and_then (inlined (client_connected i (VSession sid))) q =
   (if sid = 0 then q
    else CoDo (\<lambda>s. (s\<lparr>m_mapClient := map_emplace (client_account i) sid (m_mapClient s)\<rparr>,
      CoAwait (AwaitableRequest (LoginFetch sid (client_account i))) (\<lambda>v. and_then (inlined (client_answered sid v)) q))))"
  by (simp add: Let_def)

lemma answered_inlined:
  "and_then (inlined (client_answered sid (VLogin rsp code))) q = CoDo (\<lambda>s. (s\<lparr>clClosed := clClosed s @ [sid]\<rparr>, q))"
  by (simp add: fun_eq_iff)

lemma start_inlined: "inlined StartTestClient = CoAwait (AwaitableExecAfter 20000) (\<lambda>v. inlined (client_loop 1000000))"
  by (simp add: StartTestClient_def)

lemmas program_forms = create_inlined connected_inlined answered_inlined start_inlined

lemma loop_not_CoDo: "inlined (client_loop n) \<noteq> CoDo f"
  by (cases n) simp_all

lemma client_do:
  assumes "client_prog h (CoDo f)" "f s = (s', p)"
  shows "\<exists>h'. client_prog h' p" "set (clClosed s) \<subseteq> set (clClosed s')"
    "\<And>sid. h = Some sid \<Longrightarrow> sid \<in> set (clClosed s')"
    "\<And>account sid. m_mapClient s' account = Some sid \<Longrightarrow> m_mapClient s account = Some sid \<or> client_prog (Some sid) p"
proof -
  have "(\<exists>h'. client_prog h' p) \<and> set (clClosed s) \<subseteq> set (clClosed s') \<and> (\<forall>sid. h = Some sid \<longrightarrow> sid \<in> set (clClosed s')) \<and>
      (\<forall>account sid. m_mapClient s' account = Some sid \<longrightarrow> m_mapClient s account = Some sid \<or> client_prog (Some sid) p)"
    using assms(1)
  proof cases
    case (cp_create n)
    then have "s' = s\<lparr>s_nCLientNum := s_nCLientNum s + 1\<rparr>"
      "p = (case GetServerInstanceInfo GateServer 1 (clGov s) of
         None \<Rightarrow> inlined (client_loop n)
       | Some p \<Rightarrow> CoAwait (AwaitableRequest (ConnectGate (siPublicIp p) (siPublicPort p)))
           (\<lambda>v. and_then (inlined (client_connected (s_nCLientNum s + 1) v)) (inlined (client_loop n))))"
      using assms(2) unfolding create_inlined by simp_all
    with cp_create(1) show ?thesis by (auto split: option.split intro: client_prog.intros)
  next
    case (cp_connected i sid n)
    then have "sid \<noteq> 0" using loop_not_CoDo [of n f] unfolding connected_inlined by (auto split: if_splits)
    then have p: "s' = s\<lparr>m_mapClient := map_emplace (client_account i) sid (m_mapClient s)\<rparr>"
      "p = CoAwait (AwaitableRequest (LoginFetch sid (client_account i))) (\<lambda>v. and_then (inlined (client_answered sid v)) (inlined (client_loop n)))"
      using cp_connected(2) assms(2) unfolding connected_inlined by simp_all
    have "client_prog (Some sid) p" unfolding p by (rule cp_login)
    with p(1) cp_connected(1) show ?thesis by (auto simp: map_emplace_def split: if_splits)
  next
    case (cp_answered sid rsp code n)
    then have "s' = s\<lparr>clClosed := clClosed s @ [sid]\<rparr>" "p = inlined (client_loop n)"
      using assms(2) unfolding answered_inlined by simp_all
    with cp_answered(1) cp_loop [of n] show ?thesis by auto
  next
    case (cp_loop n)
    with loop_not_CoDo [of n f] show ?thesis by simp
  qed (simp_all add: start_inlined)
  then show "\<exists>h'. client_prog h' p" "set (clClosed s) \<subseteq> set (clClosed s')"
    "\<And>sid. h = Some sid \<Longrightarrow> sid \<in> set (clClosed s')"
    "\<And>account sid. m_mapClient s' account = Some sid \<Longrightarrow> m_mapClient s account = Some sid \<or> client_prog (Some sid) p"
    by blast+
qed

lemma loop_await:
  assumes "inlined (client_loop n) = CoAwait op k"
  shows "\<not> await_ready op \<and> client_prog None (k v)"
  using assms by (cases n) (auto intro: cp_create)

lemma client_await:
  assumes "client_prog h (CoAwait op k)"
  shows "\<not> await_ready op" "client_answers op v \<Longrightarrow> client_prog h (k v)"
proof -
  have "\<not> await_ready op \<and> (client_answers op v \<longrightarrow> client_prog h (k v))"
    using assms
  proof cases
    case (cp_loop n)
    with loop_await show ?thesis by metis
  next
    case (cp_create n)
    then show ?thesis unfolding create_inlined by simp
  next
    case (cp_connect ip port i n)
    then show ?thesis by (auto simp: connect_result_def intro: cp_connected)
  next
    case (cp_connected i sid n)
    then have "inlined (client_loop n) = CoAwait op k" unfolding connected_inlined by (auto split: if_splits)
    with loop_await cp_connected(1) show ?thesis by metis
  next
    case (cp_login sid account n)
    then show ?thesis by (auto simp: fetch_result_def intro: cp_answered)
  next
    case (cp_answered sid rsp code n)
    then show ?thesis unfolding answered_inlined by simp
  next
    case cp_start
    then show ?thesis unfolding start_inlined by (auto intro: cp_loop)
  qed
  then show "\<not> await_ready op" "client_answers op v \<Longrightarrow> client_prog h (k v)" by blast+
qed

lemma client_return: "client_prog h (CoReturn v) \<Longrightarrow> h = None"
  by (erule client_prog.cases) (simp_all only: answered_inlined option.simps coroutine.distinct simp_thms coroutine.simps)

definition client_inv :: "(client_state, client_request, client_value) seq_state \<Rightarrow> bool" where
  "client_inv a \<longleftrightarrow>
     (\<forall>r T. seThreads a r = Some T \<longrightarrow> (\<exists>h. client_thread h T)) \<and>
     (\<forall>account sid. m_mapClient (seShared a) account = Some sid \<longrightarrow>
        sid \<in> set (clClosed (seShared a)) \<or> (\<exists>r T. seThreads a r = Some T \<and> client_thread (Some sid) T))"

text \<open>A thread moves on, and the shared state with it.\<close>

lemma client_inv_update:
  assumes inv: "client_inv a" and ok: "\<exists>h. client_thread h T"
    and closed: "set (clClosed (seShared a)) \<subseteq> set (clClosed s)"
    and held: "\<And>T0 sid. seThreads a r = Some T0 \<Longrightarrow> client_thread (Some sid) T0 \<Longrightarrow> sid \<in> set (clClosed s) \<or> client_thread (Some sid) T"
    and map: "\<And>account sid. m_mapClient s account = Some sid \<Longrightarrow> m_mapClient (seShared a) account = Some sid \<or> client_thread (Some sid) T"
  shows "client_inv (a\<lparr>seThreads := (seThreads a)(r \<mapsto> T), seShared := s\<rparr>)"
  unfolding client_inv_def
proof (intro conjI allI impI)
  let ?a = "a\<lparr>seThreads := (seThreads a)(r \<mapsto> T), seShared := s\<rparr>"
  show "\<exists>h. client_thread h T'" if "seThreads ?a r' = Some T'" for r' T'
    using inv that ok by (cases "r' = r") (auto simp: client_inv_def)
  show "sid \<in> set (clClosed (seShared ?a)) \<or> (\<exists>r' T'. seThreads ?a r' = Some T' \<and> client_thread (Some sid) T')"
    if m: "m_mapClient (seShared ?a) account = Some sid" for account sid
  proof (cases "client_thread (Some sid) T")
    case True
    then show ?thesis by auto
  next
    case False
    with map [of account sid] m have "m_mapClient (seShared a) account = Some sid" by simp
    with inv have "sid \<in> set (clClosed (seShared a)) \<or> (\<exists>r' T'. seThreads a r' = Some T' \<and> client_thread (Some sid) T')"
      by (simp add: client_inv_def)
    then show ?thesis
    proof
      assume "\<exists>r' T'. seThreads a r' = Some T' \<and> client_thread (Some sid) T'"
      then obtain r' T' where t: "seThreads a r' = Some T'" "client_thread (Some sid) T'" by blast
      show ?thesis
      proof (cases "r' = r")
        case True
        with t held [of T' sid] False show ?thesis by auto
      next
        case False
        with t show ?thesis by auto
      qed
    qed (use closed in auto)
  qed
qed

abbreviation (input) client_step where
  "client_step \<equiv> seq_step VNothing {inlined StartTestClient} client_answers"

lemma client_threadD: "client_inv a \<Longrightarrow> seThreads a r = Some T \<Longrightarrow> \<exists>h. client_thread h T"
  by (simp add: client_inv_def)

lemma client_inv_step:
  assumes "client_step a a'" "client_inv a"
  shows "client_inv a'"
  using assms(1)
proof cases
  case (SeqStart r p loop)
  have "client_inv (a\<lparr>seThreads := (seThreads a)(r \<mapsto> Run loop p), seShared := seShared a\<rparr>)"
  proof (rule client_inv_update [OF assms(2)])
    show "\<exists>h. client_thread h (Run loop p)" using SeqStart(3) cp_start by auto
  qed (simp_all add: SeqStart(2))
  with SeqStart(1) show ?thesis by simp
next
  case (SeqDo r loop f s p)
  obtain h where h: "client_prog h (CoDo f)" using client_threadD [OF assms(2) SeqDo(2)] by auto
  show ?thesis
    unfolding SeqDo(1)
  proof (rule client_inv_update [OF assms(2)])
    show "\<exists>h. client_thread h (Run loop p)" using client_do(1) [OF h SeqDo(3)] by simp
    show "set (clClosed (seShared a)) \<subseteq> set (clClosed s)" by (rule client_do(2) [OF h SeqDo(3)])
    show "sid \<in> set (clClosed s) \<or> client_thread (Some sid) (Run loop p)"
      if "seThreads a r = Some T0" "client_thread (Some sid) T0" for T0 sid
    proof -
      have "client_prog (Some sid) (CoDo f)" using that SeqDo(2) by auto
      from client_do(3) [OF this SeqDo(3)] show ?thesis by simp
    qed
    show "m_mapClient (seShared a) account = Some sid \<or> client_thread (Some sid) (Run loop p)"
      if "m_mapClient s account = Some sid" for account sid
      using client_do(4) [OF h SeqDo(3) that] by simp
  qed
next
  case (SeqAwait r loop op k)
  obtain h where h: "client_prog h (CoAwait op k)" using client_threadD [OF assms(2) SeqAwait(2)] by auto
  have "client_inv (a\<lparr>seThreads := (seThreads a)(r \<mapsto> Wait op (resume_loop loop op) k), seShared := seShared a\<rparr>)"
  proof (rule client_inv_update [OF assms(2)])
    show "\<exists>h. client_thread h (Wait op (resume_loop loop op) k)" using h by auto
    show "sid \<in> set (clClosed (seShared a)) \<or> client_thread (Some sid) (Wait op (resume_loop loop op) k)"
      if "seThreads a r = Some T0" "client_thread (Some sid) T0" for T0 sid
      using that SeqAwait(2) by auto
  qed simp_all
  with SeqAwait(1) client_await(1) [OF h] show ?thesis by simp
next
  case (SeqResume r op loop k v)
  obtain h where h: "client_prog h (CoAwait op k)" using client_threadD [OF assms(2) SeqResume(2)] by auto
  have "client_inv (a\<lparr>seThreads := (seThreads a)(r \<mapsto> Run loop (k v)), seShared := seShared a\<rparr>)"
  proof (rule client_inv_update [OF assms(2)])
    show "\<exists>h. client_thread h (Run loop (k v))" using client_await(2) [OF h SeqResume(4)] by auto
    show "sid \<in> set (clClosed (seShared a)) \<or> client_thread (Some sid) (Run loop (k v))"
      if "seThreads a r = Some T0" "client_thread (Some sid) T0" for T0 sid
      using client_await(2) [of "Some sid" op k, OF _ SeqResume(4)] that SeqResume(2) by auto
  qed simp_all
  with SeqResume(1) show ?thesis by simp
next
  case (SeqReturn r loop v)
  have no: "\<not> client_thread (Some sid) (Run loop (CoReturn v))" for sid using client_return by fastforce
  show ?thesis
    unfolding client_inv_def
  proof (intro conjI allI impI)
    show "\<exists>h. client_thread h T" if "seThreads a' r' = Some T" for r' T
      using client_threadD [OF assms(2), of r' T] that SeqReturn(1) by (auto split: if_splits)
    show "sid \<in> set (clClosed (seShared a')) \<or> (\<exists>r' T. seThreads a' r' = Some T \<and> client_thread (Some sid) T)"
      if "m_mapClient (seShared a') account = Some sid" for account sid
    proof -
      have "sid \<in> set (clClosed (seShared a)) \<or> (\<exists>r' T. seThreads a r' = Some T \<and> client_thread (Some sid) T)"
        using assms(2) that SeqReturn(1) by (simp add: client_inv_def)
      then show ?thesis
      proof
        assume "\<exists>r' T. seThreads a r' = Some T \<and> client_thread (Some sid) T"
        then obtain r' T where t: "seThreads a r' = Some T" "client_thread (Some sid) T" by blast
        then have "r' \<noteq> r" using no SeqReturn(2) by auto
        with t SeqReturn(1) show ?thesis by auto
      qed (simp add: SeqReturn(1))
    qed
  qed
qed

lemma client_inv_run:
  assumes "client_step\<^sup>*\<^sup>* (seq_initial (ClientManagerModule g)) a"
  shows "client_inv a"
  using assms
proof (induction rule: rtranclp_induct)
  case base
  show ?case by (simp add: client_inv_def seq_initial_def ClientManagerModule_def)
qed (rule client_inv_step)

text \<open>
  C13: no session of the test client leaks. In every run of its coroutines every session it has
  connected and entered in its map has been closed, or belongs to a login that is still waiting for its
  answer or about to close it.
\<close>

theorem client_sessions_closed:
  assumes "(co_step VNothing {StartTestClient} client_answers)\<^sup>*\<^sup>* (co_initial (ClientManagerModule g)) c"
    and "m_mapClient (coShared c) account = Some sid"
  shows "sid \<in> set (clClosed (coShared c)) \<or> (\<exists>r T. represents c r T \<and> client_thread (Some sid) T)"
proof -
  obtain a where a: "(seq_step VNothing (inlined ` {StartTestClient}) client_answers)\<^sup>*\<^sup>* (seq_initial (ClientManagerModule g)) a"
    "seShared a = coShared c" "\<forall>r T. seThreads a r = Some T \<longleftrightarrow> represents c r T"
    using coroutine_simulation [OF assms(1)] by blast
  have "client_inv a" using client_inv_run a(1) by simp
  with a(2,3) assms(2) show ?thesis by (simp add: client_inv_def)
qed

text \<open>A run up to the login of the first client: the session 7 is connected and entered in the map.\<close>

lemma client_run:
  "\<exists>c. (co_step VNothing {StartTestClient} client_answers)\<^sup>*\<^sup>* (co_initial (ClientManagerModule (single_server GateServer 3))) c \<and>
     m_mapClient (coShared c) ''test1'' = Some 7"
proof -
  let ?step = "co_step VNothing {StartTestClient} client_answers"
  note eval = co_start_def co_do_def co_call_def co_await_def co_resume_def set_status_def co_status_of_def
    co_initial_def Let_def loop_idle_def ClientManagerModule_def
  define n :: nat where "n = 999999"
  have n: "client_loop 1000000 = client_loop (Suc n)" by (simp add: n_def)
  have gate: "GetServerInstanceInfo GateServer 1 (single_server GateServer 3) =
      Some (ServerInstanceInfo\<lparr>siServerType := GateServer, siServerIndex := 1, siSessionId := 3\<rparr>)"
    by (simp add: GetServerInstanceInfo_def single_server_def find_server_def)
  have name: "client_account 1 = ''test1''" unfolding client_account_def by code_simp
  let ?p = "ServerInstanceInfo\<lparr>siServerType := GateServer, siServerIndex := 1, siSessionId := 3\<rparr>"
  let ?op1 = "AwaitableExecAfter 20000" and ?k1 = "\<lambda>_. client_loop 1000000"
  let ?op2 = "AwaitableExecAfter 1000" and ?k2 = "\<lambda>_. CoCall CreateNewClient (\<lambda>nResult. client_loop n)"
  let ?op3 = "AwaitableRequest (ConnectGate (siPublicIp ?p) (siPublicPort ?p))" and ?k3 = "client_connected 1"
  let ?f = "\<lambda>s. (s\<lparr>m_mapClient := map_emplace ''test1'' 7 (m_mapClient s)\<rparr>,
     CoAwait (AwaitableRequest (LoginFetch 7 ''test1'')) (client_answered 7))"
  let ?new = "\<lambda>s. let nCurClient = s_nCLientNum s + 1
        in (s\<lparr>s_nCLientNum := nCurClient\<rparr>,
            case GetServerInstanceInfo GateServer 1 (clGov s) of
              None \<Rightarrow> CoReturn (VError 1)
            | Some p \<Rightarrow> CoAwait (AwaitableRequest (ConnectGate (siPublicIp p) (siPublicPort p))) (client_connected nCurClient))"
  let ?c0 = "co_initial (ClientManagerModule (single_server GateServer 3)) :: (client_state, client_request, client_value) co_state"
  let ?c1 = "Client_OnInit ?c0"
  let ?c2 = "co_await VNothing 0 0 ?op1 ?k1 ?c1"
  let ?c3 = "co_resume 0 0 ?k1 VNothing ?c2"
  let ?c4 = "co_await VNothing 0 0 ?op2 ?k2 ?c3"
  let ?c5 = "co_resume 0 0 ?k2 VNothing ?c4"
  let ?c6 = "co_call VNothing 0 0 CreateNewClient (\<lambda>nResult. client_loop n) ?c5"
  let ?c7 = "co_do 1 0 ?new ?c6"
  let ?c8 = "co_await VNothing 1 0 ?op3 ?k3 ?c7"
  let ?c9 = "co_resume 1 0 ?k3 (VSession 7) ?c8"
  let ?c10 = "co_do 1 0 ?f ?c9"
  note eval = eval Client_OnInit_def
  have "?step ?c0 ?c1" unfolding Client_OnInit_def by (rule Start) (simp_all add: eval)
  moreover have "?step ?c1 ?c2" by (rule Await) (simp add: eval StartTestClient_def)
  moreover have "?step ?c2 ?c3" by (rule Resume [where op = ?op1]) (simp_all add: eval)
  moreover have "?step ?c3 ?c4" by (rule Await) (simp add: eval n)
  moreover have "?step ?c4 ?c5" by (rule Resume [where op = ?op2]) (simp_all add: eval)
  moreover have "?step ?c5 ?c6" by (rule Call) (simp add: eval)
  moreover have "?step ?c6 ?c7" by (rule Do) (simp add: eval CreateNewClient_def)
  moreover have "?step ?c7 ?c8" by (rule Await) (simp add: eval gate)
  moreover have "?step ?c8 ?c9" by (rule Resume [where op = ?op3]) (auto simp: eval gate connect_result_def)
  moreover have "?step ?c9 ?c10" by (rule Do) (simp add: eval gate name)
  ultimately have "?step\<^sup>*\<^sup>* ?c0 ?c10" by (meson converse_rtranclp_into_rtranclp rtranclp.rtrancl_refl)
  moreover have "m_mapClient (coShared ?c10) ''test1'' = Some 7" by (simp add: eval gate map_emplace_def)
  ultimately show ?thesis by blast
qed

theorem client_sessions_closed_witness:
  "\<exists>c. m_mapClient (coShared c) ''test1'' = Some 7 \<and>
     (7 \<in> set (clClosed (coShared c)) \<or> (\<exists>r T. represents c r T \<and> client_thread (Some 7) T))"
  using client_run client_sessions_closed by blast

end
