(* ===== verification/Member_Vars.thy ===== *)
theory Member_Vars
  imports Cat_Prelude "HOL-Library.RBT" "HOL-Library.AList"
begin

text \<open>
  The accessors that the macros \<open>DEFINE_MEMBER_SET\<close>, \<open>DEFINE_MEMBER_MAP\<close> and their unordered variants
  put into a class (common/var_define.h). \<open>std::map\<close> and \<open>std::set\<close> are red-black trees, the unordered
  containers are association lists in their iteration order. Both families keep the same contract, so
  a class may change one macro for the other.
\<close>

section \<open>Maps\<close>

definition MapGet :: "'k :: linorder \<Rightarrow> ('k, 'v) rbt \<Rightarrow> 'v option" where
  "MapGet findKey m = RBT.lookup m findKey"

definition MapSet :: "'k :: linorder \<Rightarrow> 'v \<Rightarrow> ('k, 'v) rbt \<Rightarrow> ('k, 'v) rbt" where
  "MapSet findKey value m = RBT.insert findKey value m"

definition MapRemove :: "'k :: linorder \<Rightarrow> ('k, 'v) rbt \<Rightarrow> ('k, 'v) rbt" where
  "MapRemove findKey m = RBT.delete findKey m"

definition UnorderedMapGet :: "'k \<Rightarrow> ('k \<times> 'v) list \<Rightarrow> 'v option" where
  "UnorderedMapGet findKey m = map_of m findKey"

definition UnorderedMapSet :: "'k \<Rightarrow> 'v \<Rightarrow> ('k \<times> 'v) list \<Rightarrow> ('k \<times> 'v) list" where
  "UnorderedMapSet findKey value m = AList.update findKey value m"

definition UnorderedMapRemove :: "'k \<Rightarrow> ('k \<times> 'v) list \<Rightarrow> ('k \<times> 'v) list" where
  "UnorderedMapRemove findKey m = AList.delete findKey m"

datatype ('k, 'v) map_op = SetOp 'k 'v | RemoveOp 'k

locale member_map =
  fixes get :: "'k \<Rightarrow> 'm \<Rightarrow> 'v option"
    and set_op :: "'k \<Rightarrow> 'v \<Rightarrow> 'm \<Rightarrow> 'm"
    and remove :: "'k \<Rightarrow> 'm \<Rightarrow> 'm"
    and empty :: 'm
  assumes get_empty: "get k empty = None"
    and get_set: "get k' (set_op k v m) = (if k' = k then Some v else get k' m)"
    and get_remove: "get k' (remove k m) = (if k' = k then None else get k' m)"
begin

fun apply_op :: "('k, 'v) map_op \<Rightarrow> 'm \<Rightarrow> 'm" where
  "apply_op (SetOp k v) m = set_op k v m"
| "apply_op (RemoveOp k) m = remove k m"

fun op_result :: "'k \<Rightarrow> ('k, 'v) map_op list \<Rightarrow> 'v option \<Rightarrow> 'v option" where
  "op_result k [] r = r"
| "op_result k (SetOp k' v # ops) r = op_result k ops (if k = k' then Some v else r)"
| "op_result k (RemoveOp k' # ops) r = op_result k ops (if k = k' then None else r)"

lemma get_ops: "get k (fold apply_op ops m) = op_result k ops (get k m)"
proof (induction ops arbitrary: m)
  case (Cons op ops)
  then show ?case by (cases op) (simp_all add: get_set get_remove)
qed simp

end

interpretation om: member_map MapGet MapSet MapRemove RBT.empty
  by unfold_locales (simp_all add: MapGet_def MapSet_def MapRemove_def)

interpretation um: member_map UnorderedMapGet UnorderedMapSet UnorderedMapRemove "[]"
  by unfold_locales (simp_all add: UnorderedMapGet_def UnorderedMapSet_def UnorderedMapRemove_def update_conv' AList.delete_conv')

text \<open>
  Whatever is set and removed, \<open>Get\<close> answers the same for both macros.
\<close>

lemma member_maps_agree:
  "MapGet k (fold om.apply_op ops RBT.empty) = UnorderedMapGet k (fold um.apply_op ops [])"
  by (simp add: om.get_ops um.get_ops om.get_empty um.get_empty)

section \<open>Sets\<close>

definition SetExist :: "'k :: linorder \<Rightarrow> ('k, unit) rbt \<Rightarrow> bool" where
  "SetExist findKey m \<longleftrightarrow> RBT.lookup m findKey \<noteq> None"

definition SetSet :: "'k :: linorder \<Rightarrow> ('k, unit) rbt \<Rightarrow> ('k, unit) rbt" where
  "SetSet findKey m = RBT.insert findKey () m"

definition SetRemove :: "'k :: linorder \<Rightarrow> ('k, unit) rbt \<Rightarrow> ('k, unit) rbt" where
  "SetRemove findKey m = RBT.delete findKey m"

definition UnorderedSetExist :: "'k \<Rightarrow> 'k list \<Rightarrow> bool" where
  "UnorderedSetExist findKey m \<longleftrightarrow> findKey \<in> set m"

definition UnorderedSetSet :: "'k \<Rightarrow> 'k list \<Rightarrow> 'k list" where
  "UnorderedSetSet findKey m = (if findKey \<in> set m then m else m @ [findKey])"

definition UnorderedSetRemove :: "'k \<Rightarrow> 'k list \<Rightarrow> 'k list" where
  "UnorderedSetRemove findKey m = filter (\<lambda>x. x \<noteq> findKey) m"

text \<open>A set is a map to nothing; the contract is the same.\<close>

interpretation os: member_map "\<lambda>k m. if SetExist k m then Some () else None" "\<lambda>k _. SetSet k" SetRemove RBT.empty
  by unfold_locales (simp_all add: SetExist_def SetSet_def SetRemove_def)

interpretation us: member_map "\<lambda>k m. if UnorderedSetExist k m then Some () else None" "\<lambda>k _. UnorderedSetSet k" UnorderedSetRemove "[]"
  by unfold_locales (auto simp: UnorderedSetExist_def UnorderedSetSet_def UnorderedSetRemove_def)

lemma member_sets_agree:
  "SetExist k (fold os.apply_op ops RBT.empty) = UnorderedSetExist k (fold us.apply_op ops [])"
proof -
  have "(if SetExist k (fold os.apply_op ops RBT.empty) then Some () else None) =
      (if UnorderedSetExist k (fold us.apply_op ops []) then Some () else None)"
    by (simp only: os.get_ops us.get_ops os.get_empty us.get_empty)
  then show ?thesis by (simp split: if_splits)
qed

end
