(* ===== verification/User_Data.thy ===== *)
theory User_Data
  imports Cpp_Std
begin

text \<open>
  The handles on a user's data (\<open>UserCount\<close>, \<open>UserBase\<close>, src/app/game/data_define.h). A shared pointer
  is an option. Saving dereferences the pointers, so it has the result \<open>None\<close> where one is null. The
  two messages are the lists of counts to save and of keys to delete, and the user base to save.
\<close>

section \<open>UserCount\<close>

record 'c user_count =
  ucData :: "int32 \<rightharpoonup> int32 \<rightharpoonup> 'c option"
  ucFlags :: "(int32 \<times> (int32 \<times> bool) list) list"

definition UserCount :: "'c user_count" where
  "UserCount = \<lparr>ucData = Map.empty, ucFlags = []\<rparr>"

definition Count_GetData :: "int32 \<Rightarrow> int32 \<Rightarrow> 'c user_count \<Rightarrow> 'c option" where
  "Count_GetData count_type count_subtype u =
     (case ucData u count_type of
        None \<Rightarrow> None
      | Some countSubtypeMap \<Rightarrow> (case countSubtypeMap count_subtype of None \<Rightarrow> None | Some p \<Rightarrow> p))"

text \<open>\<open>m_data[count_type][count_subtype]\<close> enters a null pointer where there is none.\<close>

definition Count_MutableData :: "int32 \<Rightarrow> int32 \<Rightarrow> 'c user_count \<Rightarrow> 'c option \<times> 'c user_count" where
  "Count_MutableData count_type count_subtype u =
     (let sub = (case ucData u count_type of None \<Rightarrow> Map.empty | Some m \<Rightarrow> m);
          p = (case sub count_subtype of None \<Rightarrow> None | Some p \<Rightarrow> p)
      in (p, u\<lparr>ucData := (ucData u)(count_type \<mapsto> sub(count_subtype \<mapsto> p))\<rparr>))"

definition Count_DelData :: "int32 \<Rightarrow> int32 \<Rightarrow> 'c user_count \<Rightarrow> bool \<times> 'c user_count" where
  "Count_DelData count_type count_subtype u =
     (case ucData u count_type of
        None \<Rightarrow> (False, u)
      | Some sub \<Rightarrow>
          if sub count_subtype = None then (False, u)
          else (True, u\<lparr>ucData := (ucData u)(count_type \<mapsto> sub(count_subtype := None))\<rparr>))"

text \<open>A write through the pointer \<open>MutableData\<close> returned; \<open>None\<close> dereferences null.\<close>

definition Count_store :: "int32 \<Rightarrow> int32 \<Rightarrow> 'c \<Rightarrow> 'c user_count \<Rightarrow> 'c user_count option" where
  "Count_store t s c u =
     (case Count_MutableData t s u of
        (None, _) \<Rightarrow> None
      | (Some _, u) \<Rightarrow> Some (u\<lparr>ucData := (ucData u)(t := map_option (\<lambda>sub. sub(s \<mapsto> Some c)) (ucData u t))\<rparr>))"

fun modify_flags ::
    "(int32 \<times> int32 \<times> bool) list \<Rightarrow> 'c list \<Rightarrow> (int32 \<times> int32) list \<Rightarrow> 'c user_count \<Rightarrow> ('c list \<times> (int32 \<times> int32) list \<times> 'c user_count) option" where
  "modify_flags [] saveData delData u = Some (saveData, delData, u)"
| "modify_flags ((t, s, flag) # flags) saveData delData u =
     (if flag then
        (case Count_MutableData t s u of
           (None, _) \<Rightarrow> None
         | (Some c, u) \<Rightarrow> modify_flags flags (saveData @ [c]) delData u)
      else modify_flags flags saveData (delData @ [(t, s)]) u)"

definition Count_ToModifyData ::
    "'c list \<Rightarrow> (int32 \<times> int32) list \<Rightarrow> 'c user_count \<Rightarrow> ('c list \<times> (int32 \<times> int32) list \<times> 'c user_count) option" where
  "Count_ToModifyData saveData delData u =
     map_option (\<lambda>(saveData, delData, u). (saveData, delData, u\<lparr>ucFlags := []\<rparr>))
       (modify_flags (concat (map (\<lambda>(t, sub). map (\<lambda>(s, flag). (t, s, flag)) sub) (ucFlags u))) saveData delData u)"

section \<open>UserBase\<close>

record 'b user_base =
  ubData :: "'b option"
  ubFlags :: bool

text \<open>The constructor leaves the flag uninitialised: any value.\<close>

definition UserBase :: "bool \<Rightarrow> 'b user_base" where
  "UserBase uninitialised = \<lparr>ubData = None, ubFlags = uninitialised\<rparr>"

definition Base_GetData :: "'b user_base \<Rightarrow> 'b option" where
  "Base_GetData u = ubData u"

text \<open>\<open>MutableData\<close> returns a reference to the pointer; this is an assignment through it.\<close>

definition Base_MutableData :: "'b option \<Rightarrow> 'b user_base \<Rightarrow> 'b user_base" where
  "Base_MutableData p u = u\<lparr>ubData := p\<rparr>"

definition Base_ToModifyData :: "'b option \<Rightarrow> 'b user_base \<Rightarrow> 'b option option" where
  "Base_ToModifyData saveData u = (if ubFlags u then map_option Some (ubData u) else Some saveData)"

section \<open>What the handles store\<close>

datatype 'c count_op = MutableOp int32 int32 | DelOp int32 int32 | StoreOp int32 int32 'c | ModifyOp

fun count_do :: "'c count_op \<Rightarrow> 'c user_count \<Rightarrow> 'c user_count option" where
  "count_do (MutableOp t s) u = Some (snd (Count_MutableData t s u))"
| "count_do (DelOp t s) u = Some (snd (Count_DelData t s u))"
| "count_do (StoreOp t s c) u = Count_store t s c u"
| "count_do ModifyOp u = map_option (snd \<circ> snd) (Count_ToModifyData [] [] u)"

definition holds_nothing :: "'c user_count \<Rightarrow> bool" where
  "holds_nothing u \<longleftrightarrow> ucFlags u = [] \<and> (\<forall>t sub s p. ucData u t = Some sub \<longrightarrow> sub s = Some p \<longrightarrow> p = None)"

lemma holds_nothing_null: "holds_nothing u \<Longrightarrow> fst (Count_MutableData t s u) = None"
  by (auto simp: holds_nothing_def Count_MutableData_def Let_def split: option.split)

lemma holds_nothing_do: "holds_nothing u \<Longrightarrow> count_do op u = Some u' \<Longrightarrow> holds_nothing u'"
  using holds_nothing_null [of u]
  by (cases op) (auto simp: holds_nothing_def Count_MutableData_def Count_DelData_def Count_store_def Count_ToModifyData_def Let_def
      split: option.splits if_splits)

fun count_run :: "'c count_op list \<Rightarrow> 'c user_count \<Rightarrow> 'c user_count option" where
  "count_run [] u = Some u"
| "count_run (op # ops) u = Option.bind (count_do op u) (count_run ops)"

lemma count_run_inv: "holds_nothing u \<Longrightarrow> count_run ops u = Some u' \<Longrightarrow> holds_nothing u'"
  by (induction ops arbitrary: u) (auto simp: bind_eq_Some_conv dest: holds_nothing_do)

text \<open>
  A handle on the counts never holds one. After any operations there is nothing to read, a
  write through \<open>MutableData\<close> dereferences null, and saving adds nothing to the two messages.
\<close>

theorem user_count_holds_nothing:
  assumes "count_run ops UserCount = Some u"
  shows "Count_GetData t s u = None \<and> Count_store t s c u = None \<and>
    map_option (\<lambda>(save, del, _). (save, del)) (Count_ToModifyData saveData delData u) = Some (saveData, delData)"
proof -
  have u: "holds_nothing u" using count_run_inv [OF _ assms] by (simp add: UserCount_def holds_nothing_def)
  then have "Count_GetData t s u = None" "ucFlags u = []"
    by (auto simp: holds_nothing_def Count_GetData_def split: option.splits)
  moreover have "Count_store t s c u = None"
    using holds_nothing_null [OF u, of t s] by (cases "Count_MutableData t s u") (simp add: Count_store_def)
  ultimately show ?thesis by (simp add: Count_ToModifyData_def)
qed

theorem user_count_holds_nothing_witness:
  "\<exists>u. count_run [MutableOp 1 2, DelOp 1 3, ModifyOp] (UserCount :: int user_count) = Some u \<and> Count_store 1 2 5 u = None"
proof -
  obtain u where "count_run [MutableOp 1 2, DelOp 1 3, ModifyOp] (UserCount :: int user_count) = Some u"
    by (simp add: UserCount_def Count_MutableData_def Count_DelData_def Count_ToModifyData_def Let_def)
  with user_count_holds_nothing [OF this, of 1 2 5] show ?thesis by blast
qed

text \<open>A user base that was never set may be dereferenced, depending on the uninitialised flag.\<close>

lemma user_base_uninitialised:
  "Base_ToModifyData saveData (UserBase True) = None" "Base_ToModifyData saveData (UserBase False) = Some saveData"
  by (simp_all add: Base_ToModifyData_def UserBase_def)

end
